(* ===== verification/Prelude.thy ===== *)
theory Prelude
  imports "HOL-Library.Word" "HOL-Library.AList" "HOL-Library.Sublist"
    "HOL-Library.List_Lexorder" "HOL-Library.Char_ord"
begin

text \<open>
  Shared vocabulary of the development.  Rust's fixed width integers are words
  (plain `+` and `-` wrap, as in a release build of the workspace, and
  `sat_add` and `sat_sub` are `saturating_add` and `saturating_sub`);
  `usize` values that only ever count elements of a list are `nat`.
  A Rust `String` is its UTF-8 byte sequence, and HOL's `char` is a byte, so
  `s.len()` is `length s`; the code that works on characters goes through
  `utf8_chars`.  A Rust panic, or a loop that does not return, is `None` in a
  definition whose text block says so.
\<close>

section \<open>Machine integers\<close>

type_synonym u64 = "64 word"
type_synonym u32 = "32 word"
type_synonym u16 = "16 word"
type_synonym u8 = "8 word"

named_theorems sat_simps \<open>saturating arithmetic read as natural numbers\<close>

definition sat_add :: "'a::len word \<Rightarrow> 'a word \<Rightarrow> 'a word" where
  "sat_add a b = (if a + b < a then - 1 else a + b)"

definition sat_sub :: "'a::len word \<Rightarrow> 'a word \<Rightarrow> 'a word" where
  "sat_sub a b = (if a < b then 0 else a - b)"

lemma unat_less_pow [simp]: "unat (w :: 'a::len word) < 2 ^ LENGTH('a)"
  by (rule unsigned_less)

lemma unat_minus_one_eq: "unat (- 1 :: 'a::len word) = 2 ^ LENGTH('a) - 1"
  by (simp add: unsigned_minus_1_eq_mask mask_eq_exp_minus_1)

lemma unat_add_nowrap:
  "unat a + unat b < 2 ^ LENGTH('a) \<Longrightarrow> unat (a + b :: 'a::len word) = unat a + unat b"
  by (rule unat_add_lem [THEN iffD1])

lemma unat_sub_le: "b \<le> a \<Longrightarrow> unat (a - b :: 'a::len word) = unat a - unat b"
  by (rule unat_sub)

lemma unat_sat_sub [sat_simps]: "unat (sat_sub a b) = unat a - unat b"
  by (simp add: sat_sub_def unat_sub_if_size word_less_nat_alt)

lemma unat_sat_add [sat_simps]:
  "unat (sat_add a b :: 'a::len word) = min (2 ^ LENGTH('a) - 1) (unat a + unat b)"
proof -
  have l: "unat a < 2 ^ LENGTH('a)" "unat b < 2 ^ LENGTH('a)" by (rule unat_less_pow)+
  consider "unat a + unat b < 2 ^ LENGTH('a)" | "2 ^ LENGTH('a) \<le> unat a + unat b"
    by linarith
  then show ?thesis
  proof cases
    case 1
    then have "unat (a + b) = unat a + unat b" by (rule unat_add_nowrap)
    with 1 show ?thesis by (simp add: sat_add_def word_less_nat_alt)
  next
    case 2
    then have "unat (a + b) = unat a + unat b - 2 ^ LENGTH('a)"
      by (simp add: unat_plus_if')
    with l 2 have "a + b < a" unfolding word_less_nat_alt by linarith
    with 2 show ?thesis by (simp add: sat_add_def unat_minus_one_eq)
  qed
qed

lemma unat_succ_less:
  "a < (b :: 'a::len word) \<Longrightarrow> unat (a + 1) = unat a + 1"
proof -
  assume "a < b"
  then have "Suc (unat a) < 2 ^ LENGTH('a)"
    using unat_less_pow [of b] unfolding word_less_nat_alt by linarith
  then have "unat a + unat (1 :: 'a word) < 2 ^ LENGTH('a)" by simp
  then show ?thesis by (simp add: unat_add_nowrap)
qed

lemma unat_succ_not_max:
  assumes "w \<noteq> (- 1 :: 'a::len word)"
  shows "unat (w + 1) = unat w + 1"
proof -
  have "unat w \<noteq> 2 ^ LENGTH('a) - 1"
    using assms unat_minus_one_eq [where 'a = 'a] by (metis word_unat_eq_iff)
  then have "Suc (unat w) < 2 ^ LENGTH('a)" using unat_less_pow [of w] by linarith
  then have "unat w + unat (1 :: 'a word) < 2 ^ LENGTH('a)" by simp
  then show ?thesis by (simp add: unat_add_nowrap)
qed

lemma unat_min: "unat (min a b :: 'a::len word) = min (unat a) (unat b)"
  by (simp add: min_def word_le_nat_alt)

section \<open>Lists and association lists\<close>

lemma sum_list_delete:
  assumes "distinct (map fst al)" "map_of al k = Some v"
  shows "sum_list (map f al) = (f (k, v) :: nat) + sum_list (map f (AList.delete k al))"
  using assms
proof (induction al)
  case Nil
  then show ?case by simp
next
  case (Cons p al)
  obtain a b where p: "p = (a, b)" by (cases p)
  show ?case
  proof (cases "a = k")
    case True
    then have "AList.delete k al = al"
      using Cons.prems(1) p by (force simp: AList.delete_eq intro!: filter_True)
    with True p Cons.prems show ?thesis by (simp add: AList.delete_eq)
  next
    case False
    with p Cons show ?thesis by (simp add: AList.delete_eq)
  qed
qed

lemma alist_update_fresh: "map_of al k = None \<Longrightarrow> AList.update k v al = al @ [(k, v)]"
  by (induction al) (auto split: if_splits)

lemma length_filter_update:
  assumes "i < length xs" "P (xs ! i)" "\<not> P y"
  shows "Suc (length (filter P (xs[i := y]))) = length (filter P xs)"
  using assms
proof (induction xs arbitrary: i)
  case (Cons x xs)
  then show ?case by (cases i) auto
qed simp

lemma length_filter_update_same:
  assumes "i < length xs" "P (xs ! i) = P y"
  shows "length (filter P (xs[i := y])) = length (filter P xs)"
  using assms
proof (induction xs arbitrary: i)
  case (Cons x xs)
  then show ?case by (cases i) auto
qed simp

section \<open>Ordered maps\<close>

text \<open>A `BTreeMap` as the list of its entries in key order.\<close>

fun bt_insert :: "'k::linorder \<Rightarrow> 'v \<Rightarrow> ('k \<times> 'v) list \<Rightarrow> ('k \<times> 'v) list" where
  "bt_insert k v [] = [(k, v)]"
| "bt_insert k v ((k', v') # m) =
     (if k < k' then (k, v) # (k', v') # m
      else if k = k' then (k, v) # m
      else (k', v') # bt_insert k v m)"

definition bt_wf :: "('k::linorder \<times> 'v) list \<Rightarrow> bool" where
  "bt_wf m = sorted_wrt (<) (map fst m)"

lemma map_of_bt_insert [simp]:
  "bt_wf m \<Longrightarrow> map_of (bt_insert k v m) = (map_of m)(k \<mapsto> v)"
  by (induction m) (fastforce simp: bt_wf_def fun_upd_def split: if_splits)+

lemma keys_bt_insert [simp]: "set (map fst (bt_insert k v m)) = insert k (set (map fst m))"
  by (induction m rule: bt_insert.induct) (auto split: if_splits simp: image_iff)

lemma fst_bt_insert [simp]: "fst ` set (bt_insert k v m) = insert k (fst ` set m)"
  using keys_bt_insert [of k v m] by simp

lemma bt_wf_insert [simp]: "bt_wf m \<Longrightarrow> bt_wf (bt_insert k v m)"
proof (induction m)
  case (Cons p m)
  then show ?case using keys_bt_insert [of k v m]
    by (cases p) (auto simp: bt_wf_def simp del: keys_bt_insert)
qed (simp add: bt_wf_def)

lemma bt_wf_distinct: "bt_wf m \<Longrightarrow> distinct (map fst m)"
  by (simp add: bt_wf_def strict_sorted_iff)

lemma bt_insert_inj [simp]: "bt_insert k v m = bt_insert k w m \<longleftrightarrow> v = w"
  by (induction m rule: bt_insert.induct) auto

lemma bt_insert_last:
  "\<forall>k' \<in> set (map fst m). k' < k \<Longrightarrow> bt_insert k v m = m @ [(k, v)]"
  by (induction m rule: bt_insert.induct) auto

lemma bt_insert_update_last:
  "\<forall>k' \<in> set (map fst m). k' < k \<Longrightarrow> bt_insert k v (m @ [(k, w)]) = m @ [(k, v)]"
proof (induction m)
  case (Cons p m)
  then show ?case by (cases p) auto
qed simp

section \<open>Strings\<close>

text \<open>Characters of a UTF-8 byte string: a leading byte and its continuation bytes.\<close>

definition utf8_cont :: "char \<Rightarrow> bool" where
  "utf8_cont c = (0x80 \<le> (of_char c :: nat) \<and> (of_char c :: nat) < 0xC0)"

function utf8_chars :: "string \<Rightarrow> string list" where
  "utf8_chars [] = []"
| "utf8_chars (c # cs) =
     (c # takeWhile utf8_cont cs) # utf8_chars (dropWhile utf8_cont cs)"
  by pat_completeness auto

lemma length_dropWhile_less: "length (dropWhile P xs) < Suc (length xs)"
  by (simp add: length_dropWhile_le less_Suc_eq_le)

termination utf8_chars
  by (relation "measure length") (simp_all add: length_dropWhile_less)

lemma concat_utf8_chars [simp]: "concat (utf8_chars s) = s"
  by (induction s rule: utf8_chars.induct) simp_all

lemma utf8_chars_ascii: "\<forall>c \<in> set s. \<not> utf8_cont c \<Longrightarrow> utf8_chars s = map (\<lambda>c. [c]) s"
proof (induction s)
  case (Cons c s)
  then have "takeWhile utf8_cont s = [] \<and> dropWhile utf8_cont s = s"
    by (cases s) auto
  with Cons show ?case by simp
qed simp

text \<open>`str::split_once` on a one-byte separator.\<close>

fun split_once :: "char \<Rightarrow> string \<Rightarrow> (string \<times> string) option" where
  "split_once c [] = None"
| "split_once c (x # xs) =
     (if x = c then Some ([], xs)
      else map_option (\<lambda>(a, b). (x # a, b)) (split_once c xs))"

lemma split_once_append: "c \<notin> set a \<Longrightarrow> split_once c (a @ c # b) = Some (a, b)"
  by (induction a) auto

lemma split_once_None: "split_once c s = None \<longleftrightarrow> c \<notin> set s"
  by (induction s) auto

lemma split_once_SomeD: "split_once c s = Some (a, b) \<Longrightarrow> s = a @ c # b \<and> c \<notin> set a"
  by (induction s arbitrary: a b) (auto split: if_splits)

text \<open>Unicode white space, as UTF-8 byte sequences, and `str::trim`.\<close>

definition ws_encodings :: "string list" where
  "ws_encodings = [[CHR 0x09], [CHR 0x0A], [CHR 0x0B], [CHR 0x0C], [CHR 0x0D], [CHR 0x20],
     [CHR 0xC2, CHR 0x85], [CHR 0xC2, CHR 0xA0], [CHR 0xE1, CHR 0x9A, CHR 0x80],
     [CHR 0xE2, CHR 0x80, CHR 0x80], [CHR 0xE2, CHR 0x80, CHR 0x81], [CHR 0xE2, CHR 0x80, CHR 0x82],
     [CHR 0xE2, CHR 0x80, CHR 0x83], [CHR 0xE2, CHR 0x80, CHR 0x84], [CHR 0xE2, CHR 0x80, CHR 0x85],
     [CHR 0xE2, CHR 0x80, CHR 0x86], [CHR 0xE2, CHR 0x80, CHR 0x87], [CHR 0xE2, CHR 0x80, CHR 0x88],
     [CHR 0xE2, CHR 0x80, CHR 0x89], [CHR 0xE2, CHR 0x80, CHR 0x8A], [CHR 0xE2, CHR 0x80, CHR 0xA8],
     [CHR 0xE2, CHR 0x80, CHR 0xA9], [CHR 0xE2, CHR 0x80, CHR 0xAF],
     [CHR 0xE2, CHR 0x81, CHR 0x9F], [CHR 0xE3, CHR 0x80, CHR 0x80]]"

definition ws_head :: "string \<Rightarrow> bool" where
  "ws_head s = list_ex (\<lambda>w. prefix w s) ws_encodings"

definition ws_last :: "string \<Rightarrow> bool" where
  "ws_last s = list_ex (\<lambda>w. suffix w s) ws_encodings"

text \<open>`s.trim() == s`: neither end is white space.\<close>

definition is_trimmed :: "string \<Rightarrow> bool" where
  "is_trimmed s = (\<not> ws_head s \<and> \<not> ws_last s)"

lemma ws_encodings_not_Nil: "w \<in> set ws_encodings \<Longrightarrow> w \<noteq> []"
  by (auto simp: ws_encodings_def)

text \<open>`str::trim_start`, and the emptiness of `str::trim`.\<close>

function trim_start :: "string \<Rightarrow> string" where
  "trim_start s = (case find (\<lambda>w. prefix w s) ws_encodings of
       None \<Rightarrow> s | Some w \<Rightarrow> trim_start (drop (length w) s))"
  by pat_completeness auto
termination
proof (relation "measure length")
  fix s w assume "find (\<lambda>w. prefix w s) ws_encodings = Some w"
  then have "w \<in> set ws_encodings" "prefix w s" by (auto simp: find_Some_iff)
  then show "(drop (length w) s, s) \<in> measure length"
    using ws_encodings_not_Nil [of w] prefix_length_le [of w s] by (cases w; cases s) auto
qed simp

declare trim_start.simps [simp del]

definition blank :: "string \<Rightarrow> bool" where
  "blank s = (trim_start s = [])"

text \<open>`str::lines`.\<close>

definition chomp_cr :: "string \<Rightarrow> string" where
  "chomp_cr l = (if l \<noteq> [] \<and> last l = CHR 0x0D then butlast l else l)"

fun str_lines_from :: "string \<Rightarrow> string \<Rightarrow> string list" where
  "str_lines_from acc [] = (if acc = [] then [] else [acc])"
| "str_lines_from acc (c # cs) =
     (if c = CHR 0x0A then chomp_cr acc # str_lines_from [] cs else str_lines_from (acc @ [c]) cs)"

definition str_lines :: "string \<Rightarrow> string list" where
  "str_lines s = str_lines_from [] s"

lemma ws_no_slash: "w \<in> set ws_encodings \<Longrightarrow> CHR ''/'' \<notin> set w"
  by (auto simp: ws_encodings_def)

lemma ws_last_after_slash: "ws_last (a @ CHR ''/'' # b) \<longleftrightarrow> ws_last b"
proof -
  have "suffix w (a @ CHR ''/'' # b) \<longleftrightarrow> suffix w b" if "w \<in> set ws_encodings" for w
  proof
    assume "suffix w (a @ CHR ''/'' # b)"
    then show "suffix w b" using ws_no_slash [OF that] by (auto simp: suffix_append suffix_Cons)
  qed (simp add: suffix_appendI suffix_ConsI)
  then show ?thesis by (auto simp: ws_last_def list_ex_iff)
qed

text \<open>`Path::join` on Unix.\<close>

definition path_join :: "string \<Rightarrow> string \<Rightarrow> string" where
  "path_join a b =
     (if prefix ''/'' b then b
      else if a = [] \<or> last a = CHR ''/'' then a @ b
      else a @ CHR ''/'' # b)"

text \<open>Decimal numerals, as `format!("{n}")` prints an unsigned integer.\<close>

definition digit :: "nat \<Rightarrow> char" where
  "digit n = char_of (48 + n)"

fun show_nat :: "nat \<Rightarrow> string" where
  "show_nat n = (if n < 10 then [digit n] else show_nat (n div 10) @ [digit (n mod 10)])"

declare show_nat.simps [simp del]

lemma digit_inj: "a < 10 \<Longrightarrow> b < 10 \<Longrightarrow> digit a = digit b \<Longrightarrow> a = b"
  by (auto simp: digit_def dest!: arg_cong [where f = "of_char :: char \<Rightarrow> nat"])

lemma show_nat_not_Nil [simp]: "show_nat n \<noteq> []"
  by (subst show_nat.simps) simp

lemma Nil_show_nat [simp]: "[] \<noteq> show_nat n"
  using show_nat_not_Nil [of n] by (metis)

lemma show_nat_inj: "show_nat a = show_nat b \<Longrightarrow> a = b"
proof (induction a arbitrary: b rule: show_nat.induct)
  case (1 a)
  have a: "show_nat a = (if a < 10 then [digit a] else show_nat (a div 10) @ [digit (a mod 10)])"
    and b: "show_nat b = (if b < 10 then [digit b] else show_nat (b div 10) @ [digit (b mod 10)])"
    by (rule show_nat.simps)+
  show ?case
  proof (cases "a < 10 \<or> b < 10")
    case True
    then show ?thesis using 1(2) a b by (auto dest: digit_inj split: if_splits)
  next
    case False
    then have "show_nat (a div 10) = show_nat (b div 10)" "digit (a mod 10) = digit (b mod 10)"
      using 1(2) a b by auto
    then have "a div 10 = b div 10" "a mod 10 = b mod 10"
      using 1(1) False digit_inj [of "a mod 10" "b mod 10"] by auto
    then show ?thesis by (metis div_mult_mod_eq)
  qed
qed

text \<open>`str::parse` of an unsigned 64-bit integer on a non-empty string of digits.\<close>

definition is_digit :: "char \<Rightarrow> bool" where
  "is_digit c = (48 \<le> (of_char c :: nat) \<and> (of_char c :: nat) \<le> 57)"

definition digits_value :: "string \<Rightarrow> nat" where
  "digits_value s = foldl (\<lambda>n c. n * 10 + (of_char c - 48)) 0 s"

definition parse_digits :: "nat \<Rightarrow> string \<Rightarrow> nat option" where
  "parse_digits bound s =
     (if s \<noteq> [] \<and> list_all is_digit s \<and> digits_value s < bound then Some (digits_value s) else None)"

lemma of_char_digit [simp]: "n < 10 \<Longrightarrow> (of_char (digit n) :: nat) = 48 + n"
  by (simp add: digit_def)

lemma is_digit_digit [simp]: "n < 10 \<Longrightarrow> is_digit (digit n)"
  by (simp add: is_digit_def)

lemma digits_value_snoc: "digits_value (s @ [c]) = digits_value s * 10 + (of_char c - 48)"
  by (simp add: digits_value_def)

lemma digits_show_nat: "list_all is_digit (show_nat n) \<and> digits_value (show_nat n) = n"
proof (induction n rule: show_nat.induct)
  case (1 n)
  show ?case
  proof (cases "n < 10")
    case True
    then show ?thesis by (subst (1 2) show_nat.simps) (simp add: digits_value_def)
  next
    case False
    then show ?thesis using 1
      by (subst (1 2) show_nat.simps) (simp add: digits_value_snoc)
  qed
qed

text \<open>A printed identifier parses back.\<close>

lemma parse_show_nat: "n < bound \<Longrightarrow> parse_digits bound (show_nat n) = Some n"
  by (simp add: parse_digits_def digits_show_nat)

text \<open>`str::from_utf8`: well-formed UTF-8, without surrogates and overlong forms.\<close>

definition byte_in :: "char \<Rightarrow> nat \<Rightarrow> nat \<Rightarrow> bool" where
  "byte_in c lo hi = (lo \<le> of_char c \<and> of_char c \<le> hi)"

fun utf8_valid :: "string \<Rightarrow> bool" where
  "utf8_valid [] = True"
| "utf8_valid (a # s) =
     (if byte_in a 0 0x7F then utf8_valid s
      else case s of
        [] \<Rightarrow> False
      | b # s2 \<Rightarrow>
          if byte_in a 0xC2 0xDF then utf8_cont b \<and> utf8_valid s2
          else case s2 of
            [] \<Rightarrow> False
          | c # s3 \<Rightarrow>
              if byte_in a 0xE0 0xEF
              then byte_in b (if of_char a = (0xE0 :: nat) then 0xA0 else 0x80)
                     (if of_char a = (0xED :: nat) then 0x9F else 0xBF)
                   \<and> utf8_cont c \<and> utf8_valid s3
              else case s3 of
                [] \<Rightarrow> False
              | d # s4 \<Rightarrow>
                  byte_in a 0xF0 0xF4
                  \<and> byte_in b (if of_char a = (0xF0 :: nat) then 0x90 else 0x80)
                       (if of_char a = (0xF4 :: nat) then 0x8F else 0xBF)
                  \<and> utf8_cont c \<and> utf8_cont d \<and> utf8_valid s4)"

text \<open>`str::split` on a one-byte separator.\<close>

fun split_char :: "char \<Rightarrow> string \<Rightarrow> string list" where
  "split_char sep [] = [[]]"
| "split_char sep (c # cs) =
     (if c = sep then [] # split_char sep cs
      else case split_char sep cs of [] \<Rightarrow> [[c]] | p # ps \<Rightarrow> (c # p) # ps)"

text \<open>`String::from_utf8_lossy`: each maximal part of an ill-formed sequence becomes U+FFFD.
  `utf8_unit` gives the length of the sequence at the start of the bytes and whether it is well
  formed.\<close>

definition utf8_unit :: "string \<Rightarrow> bool \<times> nat" where
  "utf8_unit s = (case s of
       [] \<Rightarrow> (True, 0)
     | a # r \<Rightarrow>
         (let cont = (\<lambda>n. n < length r \<and> utf8_cont (r ! n));
              second = (\<lambda>lo hi. r \<noteq> [] \<and> byte_in (hd r) lo hi)
          in if byte_in a 0 0x7F then (True, 1)
             else if byte_in a 0xC2 0xDF then (if cont 0 then (True, 2) else (False, 1))
             else if byte_in a 0xE0 0xEF
             then (if \<not> second (if of_char a = (0xE0 :: nat) then 0xA0 else 0x80)
                        (if of_char a = (0xED :: nat) then 0x9F else 0xBF) then (False, 1)
                   else if \<not> cont 1 then (False, 2) else (True, 3))
             else if byte_in a 0xF0 0xF4
             then (if \<not> second (if of_char a = (0xF0 :: nat) then 0x90 else 0x80)
                        (if of_char a = (0xF4 :: nat) then 0x8F else 0xBF) then (False, 1)
                   else if \<not> cont 1 then (False, 2)
                   else if \<not> cont 2 then (False, 3) else (True, 4))
             else (False, 1)))"

lemma utf8_unit_pos: "s \<noteq> [] \<Longrightarrow> 0 < snd (utf8_unit s)"
  by (cases s) (simp_all add: utf8_unit_def Let_def)

function utf8_lossy :: "string \<Rightarrow> string" where
  "utf8_lossy s =
     (if s = [] then []
      else case utf8_unit s of
        (ok, n) \<Rightarrow> (if ok then take n s else [CHR 0xEF, CHR 0xBF, CHR 0xBD]) @ utf8_lossy (drop n s))"
  by pat_completeness auto

termination utf8_lossy
proof (relation "measure length", goal_cases)
  case (2 s x n)
  then have "0 < n" using utf8_unit_pos [of s] by (metis snd_conv)
  then show ?case using 2 by simp
qed simp

declare utf8_lossy.simps [simp del]

text \<open>The error of `str::from_utf8`: `valid_up_to`, and whether the input ended inside a character.\<close>

function utf8_error :: "string \<Rightarrow> (nat \<times> bool) option" where
  "utf8_error s =
     (if s = [] then None
      else case utf8_unit s of
        (ok, n) \<Rightarrow>
          if ok then map_option (\<lambda>(v, ended). (n + v, ended)) (utf8_error (drop n s))
          else Some (0, n = length s \<and> byte_in (hd s) 0xC2 0xF4))"
  by pat_completeness auto

termination utf8_error
proof (relation "measure length", goal_cases)
  case (2 s x n)
  then have "0 < n" using utf8_unit_pos [of s] by (metis snd_conv)
  then show ?case using 2 by simp
qed simp

declare utf8_error.simps [simp del]

text \<open>`str::strip_prefix` with a string.\<close>

definition strip_prefix :: "string \<Rightarrow> string \<Rightarrow> string option" where
  "strip_prefix p s = (if prefix p s then Some (drop (length p) s) else None)"

text \<open>`str::replace`: the leftmost non-overlapping occurrences.\<close>

function str_replace :: "string \<Rightarrow> string \<Rightarrow> string \<Rightarrow> string" where
  "str_replace p r s =
     (if p = [] \<or> s = [] then s
      else if prefix p s then r @ str_replace p r (drop (length p) s)
      else hd s # str_replace p r (tl s))"
  by pat_completeness auto

termination str_replace
  by (relation "measure (\<lambda>(p, r, s). length s)") auto

declare str_replace.simps [simp del]

end
