(* ===== verification/Protocol.thy ===== *)
theory Protocol
  imports Prelude
begin

text \<open>
  The provider-neutral data of `crates/protocol/src/lib.rs`: messages and their content
  blocks, token counters, stop reasons, requests, responses and stream events, with the
  operations the file gives on them.  A JSON value keeps the members of an object in order;
  a number is an unsigned or a negative integer or the bits of a double, as in serde_json.
\<close>

section \<open>JSON values\<close>

datatype json_number = PosInt u64 | NegInt int | Float u64

datatype json =
    JNull
  | JBool bool
  | JNum json_number
  | JStr string
  | JArr "json list"
  | JObj "(string \<times> json) list"

text \<open>`Value::get` with a string key.\<close>

fun jget :: "json \<Rightarrow> string \<Rightarrow> json option" where
  "jget (JObj ms) k = map_of ms k"
| "jget _ k = None"

text \<open>`value["key"]`: null for anything that has no such member.\<close>

definition jindex :: "json \<Rightarrow> string \<Rightarrow> json" where
  "jindex v k = (case jget v k of Some w \<Rightarrow> w | None \<Rightarrow> JNull)"

text \<open>The `json!` macro on an object, and assignment to a member of an object; the map of
  serde_json keeps its keys sorted.\<close>

definition jobj :: "(string \<times> json) list \<Rightarrow> json" where
  "jobj kvs = JObj (fold (\<lambda>(k, v) m. bt_insert k v m) kvs [])"

fun jset :: "json \<Rightarrow> string \<Rightarrow> json \<Rightarrow> json" where
  "jset (JObj ms) k v = JObj (bt_insert k v ms)"
| "jset JNull k v = JObj [(k, v)]"
| "jset w k v = w"

definition jnat :: "nat \<Rightarrow> json" where
  "jnat n = JNum (PosInt (of_nat n))"

fun as_str :: "json \<Rightarrow> string option" where
  "as_str (JStr s) = Some s"
| "as_str _ = None"

fun as_u64 :: "json \<Rightarrow> u64 option" where
  "as_u64 (JNum (PosInt n)) = Some n"
| "as_u64 _ = None"

fun as_array :: "json \<Rightarrow> json list option" where
  "as_array (JArr xs) = Some xs"
| "as_array _ = None"

fun is_object :: "json \<Rightarrow> bool" where
  "is_object (JObj _) = True"
| "is_object _ = False"

section \<open>Messages\<close>

datatype role = User | Assistant

datatype tool_result_part = PartText string

datatype content_block =
    Text string
  | Thinking string "string option"
  | ToolUse string string json
  | ToolResult string "tool_result_part list" bool
  | Opaque string string json

record message =
  msg_role :: role
  msg_content :: "content_block list"

definition user_text :: "string \<Rightarrow> message" where
  "user_text s = \<lparr>msg_role = User, msg_content = [Text s]\<rparr>"

definition assistant_text :: "string \<Rightarrow> message" where
  "assistant_text s = \<lparr>msg_role = Assistant, msg_content = [Text s]\<rparr>"

fun block_text :: "content_block \<Rightarrow> string option" where
  "block_text (Text t) = Some t"
| "block_text _ = None"

definition message_text :: "message \<Rightarrow> string" where
  "message_text m = concat (List.map_filter block_text (msg_content m))"

fun block_tool_use :: "content_block \<Rightarrow> (string \<times> string \<times> json) option" where
  "block_tool_use (ToolUse i n v) = Some (i, n, v)"
| "block_tool_use _ = None"

definition tool_uses :: "message \<Rightarrow> (string \<times> string \<times> json) list" where
  "tool_uses m = List.map_filter block_tool_use (msg_content m)"

record tool_spec =
  ts_name :: string
  ts_description :: string
  ts_input_schema :: json
  ts_large_input :: bool

section \<open>Token counters\<close>

record usage =
  input_tokens :: u64
  output_tokens :: u64
  cache_creation_input_tokens :: u64
  cache_read_input_tokens :: u64

definition usage_default :: usage where
  "usage_default = \<lparr>input_tokens = 0, output_tokens = 0, cache_creation_input_tokens = 0,
     cache_read_input_tokens = 0\<rparr>"

definition usage_total :: "usage \<Rightarrow> u64" where
  "usage_total u = input_tokens u + output_tokens u + cache_creation_input_tokens u
     + cache_read_input_tokens u"

definition usage_add :: "usage \<Rightarrow> usage \<Rightarrow> usage" where
  "usage_add u v = \<lparr>input_tokens = input_tokens u + input_tokens v,
     output_tokens = output_tokens u + output_tokens v,
     cache_creation_input_tokens = cache_creation_input_tokens u + cache_creation_input_tokens v,
     cache_read_input_tokens = cache_read_input_tokens u + cache_read_input_tokens v\<rparr>"

record usage_iteration =
  ui_model :: string
  ui_kind :: string
  ui_usage :: usage

lemma usage_total_add: "usage_total (usage_add u v) = usage_total u + usage_total v"
  by (simp add: usage_total_def usage_add_def)

lemma usage_add_default [simp]:
  "usage_add u usage_default = u" "usage_add usage_default u = u"
  by (simp_all add: usage_add_def usage_default_def)

lemma usage_total_default [simp]: "usage_total usage_default = 0"
  by (simp add: usage_total_def usage_default_def)

lemma usage_add_commute: "usage_add u v = usage_add v u"
  by (simp add: usage_add_def add.commute)

lemma usage_add_assoc: "usage_add (usage_add u v) w = usage_add u (usage_add v w)"
  by (simp add: usage_add_def add.assoc)

section \<open>Stop reasons\<close>

datatype stop_reason =
    EndTurn | ToolUseStop | MaxTokens | StopSequence | PauseTurn | Refusal
  | ModelContextWindowExceeded | OtherStop string

fun stop_reason_serialize :: "stop_reason \<Rightarrow> string" where
  "stop_reason_serialize EndTurn = ''end_turn''"
| "stop_reason_serialize ToolUseStop = ''tool_use''"
| "stop_reason_serialize MaxTokens = ''max_tokens''"
| "stop_reason_serialize StopSequence = ''stop_sequence''"
| "stop_reason_serialize PauseTurn = ''pause_turn''"
| "stop_reason_serialize Refusal = ''refusal''"
| "stop_reason_serialize ModelContextWindowExceeded = ''model_context_window_exceeded''"
| "stop_reason_serialize (OtherStop reason) = reason"

definition stop_reason_deserialize :: "string \<Rightarrow> stop_reason" where
  "stop_reason_deserialize s =
     (if s = ''end_turn'' then EndTurn
      else if s = ''tool_use'' then ToolUseStop
      else if s = ''max_tokens'' then MaxTokens
      else if s = ''stop_sequence'' then StopSequence
      else if s = ''pause_turn'' then PauseTurn
      else if s = ''refusal'' then Refusal
      else if s = ''model_context_window_exceeded'' then ModelContextWindowExceeded
      else OtherStop s)"

lemma serialize_deserialize [simp]: "stop_reason_serialize (stop_reason_deserialize s) = s"
  by (simp add: stop_reason_deserialize_def)

text \<open>Every reason the deserializer can produce is read back as itself.\<close>

definition canonical_reason :: "stop_reason \<Rightarrow> bool" where
  "canonical_reason r = (stop_reason_deserialize (stop_reason_serialize r) = r)"

lemma canonical_named [simp]:
  "canonical_reason EndTurn" "canonical_reason ToolUseStop" "canonical_reason MaxTokens"
  "canonical_reason StopSequence" "canonical_reason PauseTurn" "canonical_reason Refusal"
  "canonical_reason ModelContextWindowExceeded"
  by (simp_all add: canonical_reason_def stop_reason_deserialize_def)

lemma canonical_deserialize [simp]: "canonical_reason (stop_reason_deserialize s)"
  by (simp add: canonical_reason_def)

section \<open>Requests and responses\<close>

record request_meta =
  rm_node_id :: "string option"
  rm_depth :: u32

datatype effort = Low | Medium | High | Xhigh | EffortMax

datatype thinking_display = Omitted | Summarized

record request_options =
  ro_effort :: "effort option"
  ro_thinking_display :: "thinking_display option"
  ro_disable_cache :: bool
  ro_task_budget_total :: "u64 option"

record model_info =
  mi_id :: string
  mi_context_window :: "u64 option"
  mi_max_output_tokens :: "u32 option"

record model_request =
  mr_model :: string
  mr_system :: "string option"
  mr_messages :: "message list"
  mr_tools :: "tool_spec list"
  mr_max_tokens :: u32
  mr_options :: request_options
  mr_metadata :: request_meta

record model_response =
  rs_id :: "string option"
  rs_model :: string
  rs_content :: "content_block list"
  rs_stop_reason :: stop_reason
  rs_usage :: usage
  rs_usage_iterations :: "usage_iteration list"

section \<open>Stream events\<close>

datatype block_start =
    StartText
  | StartThinking
  | StartToolUse string string
  | StartOpaque string string json

datatype stream_event =
    MessageStart "string option" string usage
  | BlockStart nat block_start
  | TextDelta nat string
  | ThinkingDelta nat string
  | SignatureDelta nat string
  | ToolInputDelta nat string
  | BlockStop nat
  | MessageDelta "stop_reason option" usage
  | UsageSnapshot string usage "usage_iteration list"
  | MessageStop

end
