(* ===== verification/Defaults_Limits.thy ===== *)
theory Defaults_Limits
  imports Protocol
begin

text \<open>
  Product defaults and validated limits of `crates/core/src/defaults.rs`, and the model
  references `provider/model`.  A duration is its number of nanoseconds; whether
  `Instant::now().checked_add` accepts a duration depends on the platform clock and is the
  argument `fits`.  The environment that `home` reads is an argument too.
\<close>

definition DEFAULT_MODEL :: string where
  "DEFAULT_MODEL = ''anthropic/claude-opus-5-5''"

definition DEFAULT_LLM_MODEL :: string where
  "DEFAULT_LLM_MODEL = ''anthropic/claude-sonnet-5-5''"

definition DEFAULT_PROVIDER :: string where
  "DEFAULT_PROVIDER = ''anthropic''"

definition HOME_DIRECTORY :: string where
  "HOME_DIRECTORY = ''.kyora''"

definition BLOB_THRESHOLD :: nat where
  "BLOB_THRESHOLD = 64 * 1024"

definition MIN_OUTPUT_TOKENS :: u32 where
  "MIN_OUTPUT_TOKENS = 4096"

definition SESSION_PREVIEW_CHARS :: nat where
  "SESSION_PREVIEW_CHARS = 120"

definition MAILBOX_CAPACITY :: u32 where
  "MAILBOX_CAPACITY = 64"

definition MESSAGE_CHARS :: nat where
  "MESSAGE_CHARS = 20000"

definition DELIVERY_CHARS :: nat where
  "DELIVERY_CHARS = 60000"

type_synonym duration = nat

definition from_secs :: "nat \<Rightarrow> duration" where
  "from_secs s = s * 1000000000"

definition from_millis :: "nat \<Rightarrow> duration" where
  "from_millis s = s * 1000000"

record limits =
  lim_max_depth :: u32
  lim_budget_tokens :: u64
  lim_max_agents_total :: u32
  lim_max_agents_live :: u32
  lim_max_llm_calls :: u32
  lim_max_inflight_requests :: u32
  lim_max_turns :: u32
  lim_subagent_max_turns :: u32
  lim_run_timeout :: duration
  lim_cell_timeout :: duration
  lim_max_cell_timeout :: duration
  lim_request_idle :: duration
  lim_request_total :: duration
  lim_max_output_tokens :: u32
  lim_llm_max_output_tokens :: u32
  lim_tool_output_chars :: nat
  lim_mailbox_capacity :: u32
  lim_message_chars :: nat
  lim_delivery_chars :: nat

definition limits_default :: limits where
  "limits_default = \<lparr>
     lim_max_depth = 2,
     lim_budget_tokens = 20000000,
     lim_max_agents_total = 100,
     lim_max_agents_live = 16,
     lim_max_llm_calls = 2000,
     lim_max_inflight_requests = 16,
     lim_max_turns = 200,
     lim_subagent_max_turns = 50,
     lim_run_timeout = from_secs 7200,
     lim_cell_timeout = from_secs 1800,
     lim_max_cell_timeout = from_secs 7200,
     lim_request_idle = from_secs 300,
     lim_request_total = from_secs 1800,
     lim_max_output_tokens = 32000,
     lim_llm_max_output_tokens = 16000,
     lim_tool_output_chars = 20000,
     lim_mailbox_capacity = MAILBOX_CAPACITY,
     lim_message_chars = MESSAGE_CHARS,
     lim_delivery_chars = DELIVERY_CHARS\<rparr>"

datatype limits_error = NotPositive | ZeroDuration | DeadlineTooLarge | CellTimeoutTooLarge

definition limits_counts :: "limits \<Rightarrow> nat list" where
  "limits_counts l = [unat (lim_max_depth l), unat (lim_budget_tokens l),
     unat (lim_max_agents_total l), unat (lim_max_agents_live l), unat (lim_max_llm_calls l),
     unat (lim_max_inflight_requests l), unat (lim_max_turns l), unat (lim_subagent_max_turns l),
     unat (lim_max_output_tokens l), unat (lim_llm_max_output_tokens l),
     lim_tool_output_chars l, unat (lim_mailbox_capacity l), lim_message_chars l,
     lim_delivery_chars l]"

definition limits_durations :: "limits \<Rightarrow> duration list" where
  "limits_durations l = [lim_run_timeout l, lim_cell_timeout l, lim_max_cell_timeout l,
     lim_request_idle l, lim_request_total l]"

definition validate_limits :: "(duration \<Rightarrow> bool) \<Rightarrow> limits \<Rightarrow> limits_error + unit" where
  "validate_limits fits l =
     (if 0 \<in> set (limits_counts l) then Inl NotPositive
      else if list_ex (\<lambda>d. d = 0) (limits_durations l) then Inl ZeroDuration
      else if list_ex (\<lambda>d. \<not> fits d) (limits_durations l) then Inl DeadlineTooLarge
      else if lim_max_cell_timeout l < lim_cell_timeout l then Inl CellTimeoutTooLarge
      else Inr ())"

lemma unat_eq_zero_iff: "unat w = 0 \<longleftrightarrow> w = 0"
  by (rule unat_eq_0)

lemma validate_limits_ok:
  "validate_limits fits l = Inr () \<longleftrightarrow>
     0 \<notin> set (limits_counts l) \<and> (\<forall>d \<in> set (limits_durations l). d \<noteq> 0 \<and> fits d)
     \<and> lim_cell_timeout l \<le> lim_max_cell_timeout l"
  by (auto simp: validate_limits_def list_ex_iff intro!: gr0I split: if_splits)

text \<open>What the ledger and the mailboxes use of a validated configuration.\<close>

lemma validated_positive:
  assumes "validate_limits fits l = Inr ()"
  shows "0 < lim_max_depth l" "0 < lim_budget_tokens l" "0 < lim_max_agents_total l"
    "0 < lim_max_agents_live l" "0 < lim_max_llm_calls l" "0 < lim_mailbox_capacity l"
    "0 < lim_delivery_chars l" "0 < lim_message_chars l"
  using assms unfolding validate_limits_ok
  by (simp_all add: limits_counts_def word_greater_zero_iff unat_eq_zero_iff)

section \<open>Model references\<close>

record model_ref =
  mref_provider :: string
  mref_model :: string

definition model_ref_from_str :: "string \<Rightarrow> model_ref option" where
  "model_ref_from_str v =
     (let (provider, model) = (case split_once CHR ''/'' v of
            Some pm \<Rightarrow> pm | None \<Rightarrow> (DEFAULT_PROVIDER, v))
      in if provider = [] \<or> model = [] \<or> \<not> is_trimmed v then None
         else Some \<lparr>mref_provider = provider, mref_model = model\<rparr>)"

definition model_ref_display :: "model_ref \<Rightarrow> string" where
  "model_ref_display r = mref_provider r @ ''/'' @ mref_model r"

lemma slash_provider: "CHR ''/'' \<notin> set DEFAULT_PROVIDER"
  by (simp add: DEFAULT_PROVIDER_def)

lemma model_ref_parse_SomeD:
  assumes "model_ref_from_str v = Some r"
  shows "CHR ''/'' \<notin> set (mref_provider r)" "mref_provider r \<noteq> []" "mref_model r \<noteq> []"
    "is_trimmed v" "v = model_ref_display r \<or> mref_provider r = DEFAULT_PROVIDER \<and> v = mref_model r"
  using assms
  by (auto simp: model_ref_from_str_def model_ref_display_def Let_def slash_provider
      dest: split_once_SomeD split: option.splits if_splits prod.splits)

lemma model_ref_parse_display:
  assumes "CHR ''/'' \<notin> set (mref_provider r)" "mref_provider r \<noteq> []" "mref_model r \<noteq> []"
    "is_trimmed (model_ref_display r)"
  shows "model_ref_from_str (model_ref_display r) = Some r"
  using assms by (simp add: model_ref_from_str_def model_ref_display_def split_once_append)

lemma default_provider_head: "\<not> ws_head (DEFAULT_PROVIDER @ s)"
  by (simp add: ws_head_def ws_encodings_def DEFAULT_PROVIDER_def)

text \<open>A reference that parses is canonical: its display parses to the same reference.\<close>

lemma model_ref_canonical:
  assumes "model_ref_from_str v = Some r"
  shows "model_ref_from_str (model_ref_display r) = Some r"
proof (rule model_ref_parse_display)
  note d = model_ref_parse_SomeD [OF assms]
  show "CHR ''/'' \<notin> set (mref_provider r)" "mref_provider r \<noteq> []" "mref_model r \<noteq> []"
    using d by simp_all
  show "is_trimmed (model_ref_display r)"
    using d(4,5) default_provider_head [of "''/'' @ mref_model r"]
    by (auto simp: is_trimmed_def model_ref_display_def ws_last_after_slash)
qed

text \<open>Session directory: explicit path, KYORA_HOME, then HOME/.kyora.\<close>

definition home :: "string option \<Rightarrow> (string \<Rightarrow> string option) \<Rightarrow> string option" where
  "home explicit env =
     (case explicit of Some p \<Rightarrow> Some p
      | None \<Rightarrow> (case env ''KYORA_HOME'' of Some p \<Rightarrow> Some p
      | None \<Rightarrow> (case env ''HOME'' of Some p \<Rightarrow> Some (path_join p HOME_DIRECTORY)
      | None \<Rightarrow> None)))"

definition SUBAGENT_TOOLS :: "string list" where
  "SUBAGENT_TOOLS = [''python'', ''read_file'', ''spawn_agent'', ''send_message'', ''receive'',
     ''wait'', ''cancel_agent'']"

end
