(* ===== verification/Ledger.thy ===== *)
theory Ledger
  imports Defaults_Limits
begin

text \<open>
  The budget ledger of `crates/core/src/ledger.rs`: a tree of scopes, one per node, with
  atomic admission, reservations that are held on every ancestor and settlements that consume
  a reservation exactly once.  Every operation runs under one mutex, so a run of the ledger is
  a sequence of operations on the state record `ledger`; the inner `None` of an operation is a
  panic (an index or an `expect` that fails) or a parent walk that does not end, and
  `ledger_inv` is the invariant that excludes both.
\<close>

section \<open>State\<close>

type_synonym node_id = nat

datatype recursion_error =
    LimitExceeded string
  | BudgetExceeded
  | InvalidRequest string
  | Cancelled
  | ModelError string
  | MailboxFull node_id
  | AgentFinished node_id

record budget_snapshot =
  bs_limit :: u64
  bs_used :: u64
  bs_reserved :: u64
  bs_closed :: bool

definition remaining :: "budget_snapshot \<Rightarrow> u64" where
  "remaining b = (if bs_closed b then 0
     else sat_sub (bs_limit b) (sat_add (bs_used b) (bs_reserved b)))"

record scope =
  sc_parent :: "node_id option"
  sc_depth :: u32
  sc_agent :: bool
  sc_alive :: bool
  sc_admission_closed :: bool
  sc_budget :: budget_snapshot
  sc_usage :: usage
  sc_own :: usage

record ledger =
  lg_limits :: limits
  lg_scopes :: "scope list"
  lg_total :: u32
  lg_live :: u32
  lg_llm :: u32
  lg_next_attempt :: u64
  lg_attempts :: "(u64 \<times> node_id \<times> u64) list"

record reservation =
  rv_id :: u64
  rv_tokens :: u64
  rv_max_tokens :: u32

record settlement =
  st_charged :: u64
  st_excess :: u64

datatype attempt_charge = Zero | Reserved

datatype charge = ChargeUsage usage | ChargeFailed attempt_charge

datatype reserve_error = MaxTokensZero | NodeShutDown | BudgetExhausted

section \<open>Operations\<close>

definition fresh_budget :: "u64 \<Rightarrow> budget_snapshot" where
  "fresh_budget l = \<lparr>bs_limit = l, bs_used = 0, bs_reserved = 0, bs_closed = False\<rparr>"

definition fresh_scope :: "node_id option \<Rightarrow> u32 \<Rightarrow> bool \<Rightarrow> u64 \<Rightarrow> scope" where
  "fresh_scope p d agent l = \<lparr>sc_parent = p, sc_depth = d, sc_agent = agent, sc_alive = True,
     sc_admission_closed = False, sc_budget = fresh_budget l,
     sc_usage = usage_default, sc_own = usage_default\<rparr>"

definition ledger_new :: "(duration \<Rightarrow> bool) \<Rightarrow> limits \<Rightarrow> limits_error + ledger" where
  "ledger_new fits l =
     (case validate_limits fits l of
        Inl e \<Rightarrow> Inl e
      | Inr _ \<Rightarrow> Inr \<lparr>lg_limits = l,
          lg_scopes = [fresh_scope None 0 True (lim_budget_tokens l)],
          lg_total = 1, lg_live = 1, lg_llm = 0, lg_next_attempt = 0, lg_attempts = []\<rparr>)"

text \<open>The parent walk `path`; `None` is an index out of range or an endless walk.\<close>

partial_function (option) path_from ::
    "scope list \<Rightarrow> node_id option \<Rightarrow> node_id list \<Rightarrow> node_id list option" where
  "path_from scs nxt acc =
     (case nxt of
        None \<Rightarrow> Some acc
      | Some n \<Rightarrow>
          if n < length scs then path_from scs (sc_parent (scs ! n)) (acc @ [n]) else None)"

definition path :: "scope list \<Rightarrow> node_id \<Rightarrow> node_id list option" where
  "path scs n = path_from scs (Some n) []"

definition limit_checks :: "ledger \<Rightarrow> u32 \<Rightarrow> bool \<Rightarrow> (bool \<times> string) list" where
  "limit_checks s depth agent =
     [(agent \<and> lim_max_depth (lg_limits s) < depth, ''depth''),
      (agent \<and> lim_max_agents_live (lg_limits s) \<le> lg_live s, ''agents_live''),
      (agent \<and> lim_max_agents_total (lg_limits s) \<le> lg_total s, ''agents_total''),
      (\<not> agent \<and> lim_max_llm_calls (lg_limits s) \<le> lg_llm s, ''llm_calls'')]"

definition admit_scope :: "ledger \<Rightarrow> node_id \<Rightarrow> u32 \<Rightarrow> bool \<Rightarrow> u64 \<Rightarrow> ledger" where
  "admit_scope s parent depth agent budget =
     (let s' = s\<lparr>lg_scopes := lg_scopes s @ [fresh_scope (Some parent) depth agent budget]\<rparr>
      in if agent then s'\<lparr>lg_total := lg_total s + 1, lg_live := lg_live s + 1\<rparr>
         else s'\<lparr>lg_llm := lg_llm s + 1\<rparr>)"

definition admit ::
    "ledger \<Rightarrow> node_id \<Rightarrow> bool \<Rightarrow> u64 option \<Rightarrow> ((recursion_error + node_id) \<times> ledger) option" where
  "admit s parent agent limit =
     (if length (lg_scopes s) \<le> parent
      then Some (Inl (InvalidRequest ''unknown parent''), s)
      else
        let p = lg_scopes s ! parent in
        if \<not> sc_alive p \<or> sc_admission_closed p then Some (Inl Cancelled, s)
        else
          let depth = sc_depth p + of_bool agent in
          case find fst (limit_checks s depth agent) of
            Some (_, l) \<Rightarrow> Some (Inl (LimitExceeded l), s)
          | None \<Rightarrow>
              if limit = Some 0
              then Some (Inl (InvalidRequest ''budget must be positive''), s)
              else
                case path (lg_scopes s) parent of
                  None \<Rightarrow> None
                | Some pth \<Rightarrow>
                    if list_ex (\<lambda>i. remaining (sc_budget (lg_scopes s ! i)) = 0) pth
                    then Some (Inl BudgetExceeded, s)
                    else
                      let budget = min (case limit of Some b \<Rightarrow> b
                                        | None \<Rightarrow> lim_budget_tokens (lg_limits s))
                                     (bs_limit (sc_budget p))
                      in if 2 ^ 32 \<le> length (lg_scopes s)
                         then Some (Inl (InvalidRequest ''node identifiers exhausted''), s)
                         else Some (Inr (length (lg_scopes s)),
                                admit_scope s parent depth agent budget))"

definition update_path :: "(scope \<Rightarrow> scope) \<Rightarrow> node_id list \<Rightarrow> scope list \<Rightarrow> scope list" where
  "update_path f pth scs = fold (\<lambda>i ss. ss[i := f (ss ! i)]) pth scs"

definition min_or_zero :: "u64 list \<Rightarrow> u64" where
  "min_or_zero xs = (if xs = [] then 0 else Min (set xs))"

definition headroom :: "scope list \<Rightarrow> node_id list \<Rightarrow> u64" where
  "headroom scs pth = min_or_zero (map (\<lambda>i. remaining (sc_budget (scs ! i))) pth)"

definition hold :: "u64 \<Rightarrow> scope \<Rightarrow> scope" where
  "hold tokens sc = sc\<lparr>sc_budget := (sc_budget sc)\<lparr>bs_reserved := bs_reserved (sc_budget sc) + tokens\<rparr>\<rparr>"

definition output_cap :: "u64 \<Rightarrow> u64 \<Rightarrow> u32 \<Rightarrow> u32" where
  "output_cap room prompt requested = ucast (min (ucast requested) (sat_sub room prompt) :: u64)"

definition admissible :: "scope list \<Rightarrow> node_id \<Rightarrow> bool" where
  "admissible scs n = (n < length scs \<and> sc_alive (scs ! n) \<and> \<not> sc_admission_closed (scs ! n))"

definition reserve ::
    "ledger \<Rightarrow> node_id \<Rightarrow> u64 \<Rightarrow> u32 \<Rightarrow> ((reserve_error + reservation) \<times> ledger) option" where
  "reserve s node prompt requested =
     (if requested = 0 then Some (Inl MaxTokensZero, s)
      else if \<not> admissible (lg_scopes s) node then Some (Inl NodeShutDown, s)
      else
        case path (lg_scopes s) node of
          None \<Rightarrow> None
        | Some pth \<Rightarrow>
            let room = headroom (lg_scopes s) pth;
                cap = output_cap room prompt requested
            in if cap < min MIN_OUTPUT_TOKENS requested \<or> room < prompt
               then Some (Inl BudgetExhausted, s)
               else
                 let tokens = prompt + ucast cap;
                     n = lg_next_attempt s
                 in Some (Inr \<lparr>rv_id = n, rv_tokens = tokens, rv_max_tokens = cap\<rparr>,
                      s\<lparr>lg_scopes := update_path (hold tokens) pth (lg_scopes s),
                        lg_next_attempt := n + 1,
                        lg_attempts := AList.update n (node, tokens) (lg_attempts s)\<rparr>))"

fun charge_of :: "u64 \<Rightarrow> charge \<Rightarrow> u64 \<times> usage" where
  "charge_of tokens (ChargeUsage u) = (usage_total u, u)"
| "charge_of tokens (ChargeFailed Zero) = (0, usage_default)"
| "charge_of tokens (ChargeFailed Reserved) = (tokens, usage_default\<lparr>input_tokens := tokens\<rparr>)"

definition release :: "u64 \<Rightarrow> u64 \<Rightarrow> usage \<Rightarrow> scope \<Rightarrow> scope" where
  "release tokens charged u sc =
     (let b = sc_budget sc;
          reserved' = bs_reserved b - tokens;
          used' = bs_used b + charged
      in sc\<lparr>sc_budget := b\<lparr>bs_reserved := reserved', bs_used := used',
              bs_closed := (bs_closed b \<or> bs_limit b < sat_add used' reserved')\<rparr>,
            sc_usage := usage_add (sc_usage sc) u\<rparr>)"

definition add_own :: "usage \<Rightarrow> scope \<Rightarrow> scope" where
  "add_own u sc = sc\<lparr>sc_own := usage_add (sc_own sc) u\<rparr>"

definition settle :: "ledger \<Rightarrow> reservation \<Rightarrow> charge \<Rightarrow> (settlement \<times> ledger) option" where
  "settle s r c =
     (case map_of (lg_attempts s) (rv_id r) of
        None \<Rightarrow> None
      | Some (node, tokens) \<Rightarrow>
          let (charged, u) = charge_of tokens c in
          case path (lg_scopes s) node of
            None \<Rightarrow> None
          | Some pth \<Rightarrow>
              let scs = update_path (release tokens charged u) pth (lg_scopes s)
              in Some (\<lparr>st_charged = charged, st_excess = sat_sub charged tokens\<rparr>,
                   s\<lparr>lg_scopes := scs[node := add_own u (scs ! node)],
                     lg_attempts := AList.delete (rv_id r) (lg_attempts s)\<rparr>))"

definition close_admission :: "ledger \<Rightarrow> node_id \<Rightarrow> ledger option" where
  "close_admission s n =
     (if n < length (lg_scopes s)
      then Some (s\<lparr>lg_scopes := (lg_scopes s)[n := (lg_scopes s ! n)\<lparr>sc_admission_closed := True\<rparr>]\<rparr>)
      else None)"

definition shutdown :: "ledger \<Rightarrow> node_id \<Rightarrow> ledger option" where
  "shutdown s n =
     (if n < length (lg_scopes s)
      then Some (if sc_alive (lg_scopes s ! n)
                 then s\<lparr>lg_scopes := (lg_scopes s)[n := (lg_scopes s ! n)\<lparr>sc_alive := False\<rparr>],
                        lg_live := (if sc_agent (lg_scopes s ! n) then lg_live s - 1 else lg_live s)\<rparr>
                 else s)
      else None)"

definition snapshot :: "ledger \<Rightarrow> node_id \<Rightarrow> budget_snapshot option" where
  "snapshot s n = (if n < length (lg_scopes s) then Some (sc_budget (lg_scopes s ! n)) else None)"

definition usage_of :: "ledger \<Rightarrow> node_id \<Rightarrow> (usage \<times> usage) option" where
  "usage_of s n = (if n < length (lg_scopes s)
     then Some (sc_own (lg_scopes s ! n), sc_usage (lg_scopes s ! n)) else None)"

text \<open>
  `estimate`: the JSON serializations of message contents and of the tool list are the
  arguments `ser_content` and `ser_tools` (serde_json is not under src/).
\<close>

definition estimate ::
    "(content_block list \<Rightarrow> string) \<Rightarrow> (tool_spec list \<Rightarrow> string) \<Rightarrow> model_request
      \<Rightarrow> (usage \<times> nat) option \<Rightarrow> u64" where
  "estimate ser_content ser_tools request previous =
     (let bytes = (\<lambda>ms. sum_list (map (\<lambda>m. of_nat (length (ser_content (msg_content m)))) ms))
      in case previous of
        Some (u, sent) \<Rightarrow>
          let new = drop (sent + 1) (mr_messages request)
          in usage_total u + bytes new + 16 * of_nat (length new)
      | None \<Rightarrow>
          (case mr_system request of None \<Rightarrow> 0 | Some t \<Rightarrow> of_nat (length t))
          + of_nat (length (ser_tools (mr_tools request)))
          + bytes (mr_messages request) + 16 * of_nat (length (mr_messages request)) + 512)"

end
