(* ===== verification/Ledger_Tree.thy ===== *)
theory Ledger_Tree
  imports Ledger
begin

text \<open>
  The scope tree of the ledger: a parent is created before its children, so the parent walk
  ends and visits each ancestor once.  The lemmas here read `path` as the list `anc` of a node
  and its ancestors, and a walk that updates every scope of a path as a pointwise update.
\<close>

section \<open>The parent walk\<close>

definition wf_tree :: "scope list \<Rightarrow> bool" where
  "wf_tree scs = (scs \<noteq> [] \<and> sc_parent (scs ! 0) = None \<and>
     (\<forall>i < length scs. 0 < i \<longrightarrow> (\<exists>p < i. sc_parent (scs ! i) = Some p)))"

function anc :: "scope list \<Rightarrow> node_id \<Rightarrow> node_id list" where
  "anc scs n = (case sc_parent (scs ! n) of
     None \<Rightarrow> [n] | Some p \<Rightarrow> if p < n then n # anc scs p else [n])"
  by pat_completeness auto

termination anc
  by (relation "measure snd") auto

declare anc.simps [simp del]

lemma anc_le: "i \<in> set (anc scs n) \<Longrightarrow> i \<le> n"
proof (induction n rule: less_induct)
  case (less n)
  then show ?case by (subst (asm) (2) anc.simps) (fastforce split: option.splits if_splits)
qed

lemma anc_self [simp]: "n \<in> set (anc scs n)"
  by (subst anc.simps) (simp split: option.splits)

lemma anc_not_Nil [simp]: "anc scs n \<noteq> []"
  by (subst anc.simps) (simp split: option.splits)

lemma distinct_anc [simp]: "distinct (anc scs n)"
proof (induction n rule: less_induct)
  case (less n)
  then show ?case by (subst anc.simps) (auto split: option.splits dest: anc_le)
qed

lemma anc_parent: "sc_parent (scs ! n) = Some p \<Longrightarrow> p < n \<Longrightarrow> anc scs n = n # anc scs p"
  by (subst anc.simps) simp

lemma anc_root: "sc_parent (scs ! n) = None \<Longrightarrow> anc scs n = [n]"
  by (subst anc.simps) simp

lemma anc_cong:
  "(\<And>i. i \<le> n \<Longrightarrow> sc_parent (a ! i) = sc_parent (b ! i)) \<Longrightarrow> anc a n = anc b n"
proof (induction n rule: less_induct)
  case (less n)
  have "sc_parent (a ! n) = sc_parent (b ! n)" using less.prems by simp
  moreover have "anc a p = anc b p" if "p < n" for p
    using less.IH [OF that] less.prems that by simp
  ultimately show ?case
    by (subst anc.simps, subst anc.simps) (simp split: option.splits)
qed

lemma anc_trans: "i \<in> set (anc scs n) \<Longrightarrow> set (anc scs i) \<subseteq> set (anc scs n)"
proof (induction n rule: less_induct)
  case (less n)
  show ?case
  proof (cases "i = n")
    case False
    with less.prems obtain p where p: "sc_parent (scs ! n) = Some p" "p < n" "i \<in> set (anc scs p)"
      by (subst (asm) anc.simps) (auto split: option.splits if_splits)
    then show ?thesis using less.IH [of p] by (auto simp: anc_parent)
  qed simp
qed

lemma path_from_anc:
  assumes "wf_tree scs"
  shows "n < length scs \<Longrightarrow> path_from scs (Some n) acc = Some (acc @ anc scs n)"
proof (induction n arbitrary: acc rule: less_induct)
  case (less n)
  show ?case
  proof (cases "n = 0")
    case True
    with assms less.prems show ?thesis
      by (simp add: wf_tree_def anc_root path_from.simps)
  next
    case False
    with assms less.prems obtain p where p: "p < n" "sc_parent (scs ! n) = Some p"
      unfolding wf_tree_def by blast
    have "path_from scs (Some n) acc = path_from scs (Some p) (acc @ [n])"
      using less.prems p by (subst path_from.simps) simp
    then show ?thesis using less.IH [OF p(1), of "acc @ [n]"] less.prems p
      by (simp add: anc_parent)
  qed
qed

lemma path_anc: "wf_tree scs \<Longrightarrow> n < length scs \<Longrightarrow> path scs n = Some (anc scs n)"
  by (simp add: path_def path_from_anc)

section \<open>Updates along a path\<close>

lemma length_update_path [simp]: "length (update_path f pth scs) = length scs"
  unfolding update_path_def by (induction pth arbitrary: scs) simp_all

lemma nth_update_path:
  assumes "distinct pth" "\<forall>i \<in> set pth. i < length scs" "j < length scs"
  shows "update_path f pth scs ! j = (if j \<in> set pth then f (scs ! j) else scs ! j)"
  using assms
proof (induction pth arbitrary: scs)
  case (Cons i pth)
  then show ?case by (auto simp: update_path_def nth_list_update)
qed (simp add: update_path_def)

lemma nth_update_anc:
  assumes "n < length scs" "j < length scs"
  shows "update_path f (anc scs n) scs ! j = (if j \<in> set (anc scs n) then f (scs ! j) else scs ! j)"
  using assms by (intro nth_update_path) (auto dest: anc_le)

lemma wf_tree_cong:
  "length a = length b \<Longrightarrow> (\<And>i. i < length b \<Longrightarrow> sc_parent (a ! i) = sc_parent (b ! i))
    \<Longrightarrow> wf_tree a \<longleftrightarrow> wf_tree b"
  unfolding wf_tree_def by (cases b) force+

lemma wf_tree_append:
  assumes "wf_tree scs" "p < length scs" "sc_parent x = Some p"
  shows "wf_tree (scs @ [x])"
  using assms by (auto simp: wf_tree_def nth_append not_less_less_Suc_eq)

lemma anc_append: "n < length scs \<Longrightarrow> anc (scs @ [x]) n = anc scs n"
  by (rule anc_cong) (simp add: nth_append)

section \<open>Tokens held by the outstanding attempts of a subtree\<close>

fun held_by :: "scope list \<Rightarrow> node_id \<Rightarrow> u64 \<times> node_id \<times> u64 \<Rightarrow> nat" where
  "held_by scs i (a, n, tokens) = (if i \<in> set (anc scs n) then unat tokens else 0)"

definition held :: "scope list \<Rightarrow> (u64 \<times> node_id \<times> u64) list \<Rightarrow> node_id \<Rightarrow> nat" where
  "held scs al i = sum_list (map (held_by scs i) al)"

lemma held_Nil [simp]: "held scs [] i = 0"
  by (simp add: held_def)

lemma held_append [simp]: "held scs (al @ [x]) i = held scs al i + held_by scs i x"
  by (simp add: held_def)

lemma held_delete:
  assumes "distinct (map fst al)" "map_of al k = Some (n, tokens)"
  shows "held scs al i = (if i \<in> set (anc scs n) then unat tokens else 0)
    + held scs (AList.delete k al) i"
  using sum_list_delete [OF assms, of "held_by scs i"] by (simp add: held_def)

lemma held_cong:
  assumes "\<And>n. n \<in> (fst \<circ> snd) ` set al \<Longrightarrow> anc a n = anc b n"
  shows "held a al i = held b al i"
  unfolding held_def
proof (rule arg_cong [where f = sum_list], rule map_cong [OF refl])
  fix x assume x: "x \<in> set al"
  obtain k n t where "x = (k, n, t)" by (cases x)
  moreover from this x have "anc a n = anc b n" by (intro assms) force
  ultimately show "held_by a i x = held_by b i x" by simp
qed

section \<open>Headroom\<close>

lemma headroom_le:
  "i \<in> set pth \<Longrightarrow> headroom scs pth \<le> remaining (sc_budget (scs ! i))"
  by (auto simp: headroom_def min_or_zero_def intro: Min_le)

lemma headroom_attained:
  "pth \<noteq> [] \<Longrightarrow> \<exists>i \<in> set pth. headroom scs pth = remaining (sc_budget (scs ! i))"
  using Min_in [of "(\<lambda>i. remaining (sc_budget (scs ! i))) ` set pth"]
  by (fastforce simp: headroom_def min_or_zero_def)

lemma unat_remaining:
  "unat (remaining b) = (if bs_closed b then 0
     else unat (bs_limit b) - min (2 ^ 64 - 1) (unat (bs_used b) + unat (bs_reserved b)))"
  by (simp add: remaining_def sat_simps)

text \<open>An output cap always fits: `as u32` does not truncate.\<close>

lemma unat_output_cap:
  "unat (output_cap room prompt requested) = min (unat requested) (unat room - unat prompt)"
proof -
  have r: "unat (ucast requested :: u64) = unat requested"
    using unat_less_pow [of requested] by (simp add: unsigned_ucast_eq take_bit_nat_eq_self)
  have m: "unat (min (ucast requested) (sat_sub room prompt) :: u64)
    = min (unat requested) (unat room - unat prompt)"
    by (simp add: unat_min r sat_simps)
  have "min (unat requested) (unat room - unat prompt) < 2 ^ 32"
    using unat_less_pow [of requested] by simp
  then show ?thesis
    by (simp add: output_cap_def unsigned_ucast_eq m take_bit_nat_eq_self)
qed

lemma unat_ucast_cap: "unat (ucast (c :: u32) :: u64) = unat c"
  using unat_less_pow [of c] by (simp add: unsigned_ucast_eq take_bit_nat_eq_self)

text \<open>What the two guards of `reserve` give: the addition does not wrap and the reservation
  fits below the limit of every scope on the path.\<close>

lemma granted_fits:
  assumes "i \<in> set pth" "requested \<noteq> 0"
    "cap = output_cap (headroom scs pth) prompt requested"
    "\<not> cap < min MIN_OUTPUT_TOKENS requested" "\<not> headroom scs pth < prompt"
  defines "b \<equiv> sc_budget (scs ! i)"
  shows "unat (prompt + ucast cap) = unat prompt + unat cap" (is ?sum)
    and "0 < unat cap" (is ?pos)
    and "\<not> bs_closed b" (is ?open)
    and "unat (bs_used b) + unat (bs_reserved b) + (unat prompt + unat cap) \<le> unat (bs_limit b)"
      (is ?fits)
proof -
  let ?room = "headroom scs pth"
  have cap: "unat cap = min (unat requested) (unat ?room - unat prompt)"
    using assms by (simp add: unat_output_cap)
  have "0 < unat requested" using assms(2) by (simp add: unat_eq_zero_iff neq0_conv [symmetric] del: neq0_conv)
  moreover have "unat (min MIN_OUTPUT_TOKENS requested) = min 4096 (unat requested)"
    by (simp add: unat_min MIN_OUTPUT_TOKENS_def)
  ultimately show pos: ?pos
    using assms(4) unfolding word_less_nat_alt by linarith
  have le: "unat prompt \<le> unat ?room" using assms(5) by (simp add: word_less_nat_alt)
  with cap have room: "unat prompt + unat cap \<le> unat ?room" by simp
  moreover have "unat ?room < 2 ^ 64" using unat_less_pow [of ?room] by simp
  ultimately have "unat prompt + unat (ucast cap :: u64) < 2 ^ LENGTH(64)"
    by (simp add: unat_ucast_cap)
  then show ?sum by (simp add: unat_add_nowrap unat_ucast_cap)
  have rem: "unat ?room \<le> unat (remaining b)"
    using headroom_le [OF assms(1)] by (simp add: b_def word_le_nat_alt)
  show ?open using rem pos room by (auto simp: unat_remaining split: if_splits)
  then have "unat ?room \<le> unat (bs_limit b) - min (2 ^ 64 - 1) (unat (bs_used b) + unat (bs_reserved b))"
    using rem by (simp add: unat_remaining)
  moreover have "unat (bs_limit b) < 2 ^ 64" using unat_less_pow [of "bs_limit b"] by simp
  ultimately show ?fits using pos room by linarith
qed

end
