(* ===== verification/Ledger_Inv.thy ===== *)
theory Ledger_Inv
  imports Ledger_Tree
begin

text \<open>
  The invariant of the ledger and its preservation, operation by operation, and the runs of
  the ledger: sequences of operations from a fresh ledger.  The invariant says that the tokens
  a scope holds are exactly those of the unsettled attempts of its subtree, that an open scope
  has not spent and promised more than its limit, that the counters count nodes, and that
  admission kept every configured limit.
\<close>

section \<open>The invariant\<close>

definition inv_tree :: "ledger \<Rightarrow> bool" where
  "inv_tree s = (wf_tree (lg_scopes s) \<and> length (lg_scopes s) \<le> 2 ^ 32)"

definition inv_shape :: "ledger \<Rightarrow> bool" where
  "inv_shape s = (\<forall>i < length (lg_scopes s).
     unat (sc_depth (lg_scopes s ! i)) \<le> i \<and>
     sc_depth (lg_scopes s ! i) \<le> lim_max_depth (lg_limits s) \<and>
     (\<forall>p. sc_parent (lg_scopes s ! i) = Some p \<longrightarrow>
        unat (sc_depth (lg_scopes s ! i)) =
          unat (sc_depth (lg_scopes s ! p)) + of_bool (sc_agent (lg_scopes s ! i)) \<and>
        bs_limit (sc_budget (lg_scopes s ! i)) \<le> bs_limit (sc_budget (lg_scopes s ! p))))"

definition inv_counts :: "ledger \<Rightarrow> bool" where
  "inv_counts s = (
     unat (lg_live s) = length (filter (\<lambda>x. sc_agent x \<and> sc_alive x) (lg_scopes s)) \<and>
     unat (lg_total s) = length (filter sc_agent (lg_scopes s)) \<and>
     unat (lg_llm s) = length (filter (\<lambda>x. \<not> sc_agent x) (lg_scopes s)) \<and>
     lg_live s \<le> lim_max_agents_live (lg_limits s) \<and>
     lg_total s \<le> lim_max_agents_total (lg_limits s) \<and>
     lg_llm s \<le> lim_max_llm_calls (lg_limits s))"

definition inv_reserved :: "ledger \<Rightarrow> bool" where
  "inv_reserved s = (\<forall>i < length (lg_scopes s).
     unat (bs_reserved (sc_budget (lg_scopes s ! i))) = held (lg_scopes s) (lg_attempts s) i)"

definition within_limit :: "budget_snapshot \<Rightarrow> bool" where
  "within_limit b = (bs_closed b \<or> sat_add (bs_used b) (bs_reserved b) \<le> bs_limit b)"

definition inv_budget :: "ledger \<Rightarrow> bool" where
  "inv_budget s = (\<forall>i < length (lg_scopes s). within_limit (sc_budget (lg_scopes s ! i)))"

definition inv_attempts :: "ledger \<Rightarrow> bool" where
  "inv_attempts s = (distinct (map fst (lg_attempts s)) \<and>
     (\<forall>(a, n, t) \<in> set (lg_attempts s). n < length (lg_scopes s) \<and> a < lg_next_attempt s))"

definition ledger_inv :: "ledger \<Rightarrow> bool" where
  "ledger_inv s = (inv_tree s \<and> inv_shape s \<and> inv_counts s \<and> inv_reserved s
     \<and> inv_budget s \<and> inv_attempts s)"

lemmas ledger_inv_defs = ledger_inv_def inv_tree_def inv_shape_def inv_counts_def
  inv_reserved_def inv_budget_def inv_attempts_def

lemma ledger_invD:
  assumes "ledger_inv s"
  shows "inv_tree s" "inv_shape s" "inv_counts s" "inv_reserved s" "inv_budget s" "inv_attempts s"
  using assms by (simp_all add: ledger_inv_def)

lemma inv_path: "ledger_inv s \<Longrightarrow> n < length (lg_scopes s) \<Longrightarrow>
    path (lg_scopes s) n = Some (anc (lg_scopes s) n)"
  by (simp add: ledger_inv_def inv_tree_def path_anc)

section \<open>Updates that keep the tree\<close>

text \<open>Two scope lists with the same nodes: parents, depths, kinds and limits agree.\<close>

definition same_nodes :: "scope list \<Rightarrow> scope list \<Rightarrow> bool" where
  "same_nodes a b = (length a = length b \<and> (\<forall>i < length b.
     sc_parent (a ! i) = sc_parent (b ! i) \<and> sc_depth (a ! i) = sc_depth (b ! i) \<and>
     sc_agent (a ! i) = sc_agent (b ! i) \<and>
     bs_limit (sc_budget (a ! i)) = bs_limit (sc_budget (b ! i))))"

lemma same_nodes_anc: "same_nodes a b \<Longrightarrow> n < length b \<Longrightarrow> anc a n = anc b n"
  by (rule anc_cong) (auto simp: same_nodes_def)

lemma parent_less: "wf_tree scs \<Longrightarrow> i < length scs \<Longrightarrow> sc_parent (scs ! i) = Some p \<Longrightarrow> p < i"
  by (cases "i = 0") (auto simp: wf_tree_def)

lemma inv_tree_same:
  assumes "inv_tree s" "same_nodes (lg_scopes s') (lg_scopes s)"
  shows "inv_tree s'"
  using assms wf_tree_cong [of "lg_scopes s'" "lg_scopes s"]
  by (auto simp: inv_tree_def same_nodes_def)

lemma inv_shape_same:
  assumes "inv_tree s" "inv_shape s" "same_nodes (lg_scopes s') (lg_scopes s)"
    "lg_limits s' = lg_limits s"
  shows "inv_shape s'"
  unfolding inv_shape_def
proof (intro allI impI conjI)
  fix i assume i: "i < length (lg_scopes s')"
  then have i': "i < length (lg_scopes s)" using assms(3) by (simp add: same_nodes_def)
  then show "unat (sc_depth (lg_scopes s' ! i)) \<le> i"
    "sc_depth (lg_scopes s' ! i) \<le> lim_max_depth (lg_limits s')"
    using assms by (auto simp: same_nodes_def inv_shape_def)
  fix p assume p: "sc_parent (lg_scopes s' ! i) = Some p"
  then have "p < length (lg_scopes s)"
    using assms(1,3) i' parent_less [of "lg_scopes s" i p] by (auto simp: same_nodes_def inv_tree_def)
  then show "unat (sc_depth (lg_scopes s' ! i)) =
      unat (sc_depth (lg_scopes s' ! p)) + of_bool (sc_agent (lg_scopes s' ! i))"
    "bs_limit (sc_budget (lg_scopes s' ! i)) \<le> bs_limit (sc_budget (lg_scopes s' ! p))"
    using assms i' p by (auto simp: same_nodes_def inv_shape_def)
qed

lemma count_cong:
  assumes "length a = length b" "\<And>i. i < length b \<Longrightarrow> P (a ! i) = P (b ! i)"
  shows "length (filter P a) = length (filter P b)"
proof -
  have "map P a = map P b" using assms by (simp add: list_eq_iff_nth_eq)
  then have "length (filter (\<lambda>x. x) (map P a)) = length (filter (\<lambda>x. x) (map P b))" by simp
  then show ?thesis by (simp add: filter_map comp_def)
qed

lemma inv_counts_same:
  assumes "inv_counts s" "same_nodes (lg_scopes s') (lg_scopes s)" "lg_limits s' = lg_limits s"
    "\<And>i. i < length (lg_scopes s) \<Longrightarrow> sc_alive (lg_scopes s' ! i) = sc_alive (lg_scopes s ! i)"
    "lg_live s' = lg_live s" "lg_total s' = lg_total s" "lg_llm s' = lg_llm s"
  shows "inv_counts s'"
proof -
  have "length (filter (\<lambda>x. sc_agent x \<and> sc_alive x) (lg_scopes s'))
      = length (filter (\<lambda>x. sc_agent x \<and> sc_alive x) (lg_scopes s))"
    and "length (filter sc_agent (lg_scopes s')) = length (filter sc_agent (lg_scopes s))"
    and "length (filter (\<lambda>x. \<not> sc_agent x) (lg_scopes s'))
      = length (filter (\<lambda>x. \<not> sc_agent x) (lg_scopes s))"
    using assms(2,4) by (auto intro!: count_cong simp: same_nodes_def)
  then show ?thesis using assms by (simp add: inv_counts_def)
qed

lemma held_same:
  assumes "inv_attempts s" "same_nodes scs (lg_scopes s)" "set al \<subseteq> set (lg_attempts s)"
  shows "held scs al i = held (lg_scopes s) al i"
proof (rule held_cong)
  fix n assume "n \<in> (fst \<circ> snd) ` set al"
  then have "n < length (lg_scopes s)" using assms(1,3) by (fastforce simp: inv_attempts_def)
  with assms(2) show "anc scs n = anc (lg_scopes s) n" by (rule same_nodes_anc)
qed

section \<open>A new ledger\<close>

lemma ledger_new_inv:
  assumes "ledger_new fits l = Inr s"
  shows "ledger_inv s"
proof -
  from assms have v: "validate_limits fits l = Inr ()"
    and s: "s = \<lparr>lg_limits = l, lg_scopes = [fresh_scope None 0 True (lim_budget_tokens l)],
       lg_total = 1, lg_live = 1, lg_llm = 0, lg_next_attempt = 0, lg_attempts = []\<rparr>"
    by (auto simp: ledger_new_def split: sum.splits)
  have "1 \<le> lim_max_agents_live l" "1 \<le> lim_max_agents_total l"
    using validated_positive [OF v] by (simp_all add: word_le_nat_alt word_less_nat_alt Suc_le_eq)
  then show ?thesis
    by (simp add: s ledger_inv_defs wf_tree_def fresh_scope_def fresh_budget_def
        within_limit_def sat_add_def)
qed

section \<open>Admission\<close>

lemma admit_InrD:
  assumes "admit s parent agent limit = Some (Inr n, s')" "ledger_inv s"
  shows "parent < length (lg_scopes s)" "n = length (lg_scopes s)" "length (lg_scopes s) < 2 ^ 32"
    "sc_alive (lg_scopes s ! parent)" "\<not> sc_admission_closed (lg_scopes s ! parent)"
    "find fst (limit_checks s (sc_depth (lg_scopes s ! parent) + of_bool agent) agent) = None"
    "limit \<noteq> Some 0"
    "\<forall>i \<in> set (anc (lg_scopes s) parent). remaining (sc_budget (lg_scopes s ! i)) \<noteq> 0"
    "s' = admit_scope s parent (sc_depth (lg_scopes s ! parent) + of_bool agent) agent
       (min (case limit of Some b \<Rightarrow> b | None \<Rightarrow> lim_budget_tokens (lg_limits s))
          (bs_limit (sc_budget (lg_scopes s ! parent))))"
  using assms by (auto simp: admit_def Let_def inv_path list_ex_iff not_le
      split: if_splits option.splits)

lemma admit_Inl_same: "admit s parent agent limit = Some (Inl e, s') \<Longrightarrow> s' = s"
  by (auto simp: admit_def Let_def split: if_splits option.splits)

lemma admit_total:
  assumes "ledger_inv s"
  shows "\<exists>r s'. admit s parent agent limit = Some (r, s')"
  using assms inv_path [OF assms, of parent]
  by (auto simp: admit_def Let_def not_le split: option.splits)

lemma admit_scopes:
  "lg_scopes (admit_scope s p d agent b) = lg_scopes s @ [fresh_scope (Some p) d agent b]"
  "lg_limits (admit_scope s p d agent b) = lg_limits s"
  "lg_attempts (admit_scope s p d agent b) = lg_attempts s"
  "lg_next_attempt (admit_scope s p d agent b) = lg_next_attempt s"
  by (simp_all add: admit_scope_def Let_def)

lemma fresh_scope_simps [simp]:
  "sc_parent (fresh_scope p d a l) = p" "sc_depth (fresh_scope p d a l) = d"
  "sc_agent (fresh_scope p d a l) = a" "sc_alive (fresh_scope p d a l)"
  "\<not> sc_admission_closed (fresh_scope p d a l)" "sc_budget (fresh_scope p d a l) = fresh_budget l"
  "sc_usage (fresh_scope p d a l) = usage_default" "sc_own (fresh_scope p d a l) = usage_default"
  by (simp_all add: fresh_scope_def)

lemma fresh_budget_simps [simp]:
  "bs_limit (fresh_budget l) = l" "bs_used (fresh_budget l) = 0"
  "bs_reserved (fresh_budget l) = 0" "\<not> bs_closed (fresh_budget l)"
  by (simp_all add: fresh_budget_def)

lemma held_new_scope:
  assumes "inv_attempts s" "inv_tree s"
  shows "i < length (lg_scopes s) \<Longrightarrow>
      held (lg_scopes s @ [x]) (lg_attempts s) i = held (lg_scopes s) (lg_attempts s) i"
    and "held (lg_scopes s @ [x]) (lg_attempts s) (length (lg_scopes s)) = 0"
proof -
  have anc: "anc (lg_scopes s @ [x]) n = anc (lg_scopes s) n"
    if "n \<in> (fst \<circ> snd) ` set (lg_attempts s)" for n
    using that assms(1) by (intro anc_append) (fastforce simp: inv_attempts_def)
  then have *: "held (lg_scopes s @ [x]) (lg_attempts s) i = held (lg_scopes s) (lg_attempts s) i" for i
    by (rule held_cong)
  then show "i < length (lg_scopes s) \<Longrightarrow>
      held (lg_scopes s @ [x]) (lg_attempts s) i = held (lg_scopes s) (lg_attempts s) i" .
  have "held_by (lg_scopes s) (length (lg_scopes s)) a = 0" if "a \<in> set (lg_attempts s)" for a
  proof -
    obtain k n t where a: "a = (k, n, t)" by (cases a)
    with that assms(1) have "n < length (lg_scopes s)" by (auto simp: inv_attempts_def)
    then have "length (lg_scopes s) \<notin> set (anc (lg_scopes s) n)" by (auto dest: anc_le)
    then show ?thesis by (simp add: a)
  qed
  then have "held (lg_scopes s) (lg_attempts s) (length (lg_scopes s)) = 0"
    by (simp add: held_def)
  with * show "held (lg_scopes s @ [x]) (lg_attempts s) (length (lg_scopes s)) = 0" by simp
qed

lemma admit_inv:
  assumes inv: "ledger_inv s" and adm: "admit s parent agent limit = Some (r, s')"
  shows "ledger_inv s'"
proof (cases r)
  case (Inl e)
  then show ?thesis using assms admit_Inl_same by metis
next
  case (Inr n)
  note I = ledger_invD [OF inv]
  note d = admit_InrD [OF adm [unfolded Inr] inv]
  let ?p = "lg_scopes s ! parent" and ?len = "length (lg_scopes s)"
  let ?d = "sc_depth ?p + of_bool agent :: u32"
  obtain b where s': "s' = admit_scope s parent ?d agent b" and b: "b \<le> bs_limit (sc_budget ?p)"
    using d(9) by simp
  have scs: "lg_scopes s' = lg_scopes s @ [fresh_scope (Some parent) ?d agent b]"
    by (simp add: s' admit_scopes)
  have pd: "unat (sc_depth ?p) \<le> parent" "sc_depth ?p \<le> lim_max_depth (lg_limits s)"
    using I(2) d(1) by (simp_all add: inv_shape_def)
  have depth: "unat ?d = unat (sc_depth ?p) + of_bool agent"
  proof (cases agent)
    case True
    have "unat (sc_depth ?p) + unat (1 :: u32) < 2 ^ LENGTH(32)"
      using pd(1) d(1,3) by simp
    then show ?thesis using True by (simp add: unat_add_nowrap)
  qed simp
  have chk: "agent \<longrightarrow> ?d \<le> lim_max_depth (lg_limits s) \<and> lg_live s < lim_max_agents_live (lg_limits s)
      \<and> lg_total s < lim_max_agents_total (lg_limits s)"
    "\<not> agent \<longrightarrow> lg_llm s < lim_max_llm_calls (lg_limits s)"
    using d(6) by (auto simp: limit_checks_def split: if_splits)
  have "inv_tree s'"
    using I(1) d(1,3) by (simp add: inv_tree_def scs wf_tree_append)
  moreover have "inv_shape s'"
  proof -
    have "?d \<le> lim_max_depth (lg_limits s)" using chk(1) pd(2) by (cases agent) simp_all
    moreover have plt: "p < ?len" if "i < ?len" "sc_parent (lg_scopes s ! i) = Some p" for i p
      using I(1) that unfolding inv_tree_def by (meson less_trans parent_less)
    ultimately show ?thesis
      using I(2) d(1) pd depth b
      by (auto simp: inv_shape_def scs s' admit_scopes nth_append less_Suc_eq
          simp del: not_less split: if_splits dest: plt)
  qed
  moreover have "inv_counts s'"
    using I(3) chk by (cases agent)
      (auto simp: inv_counts_def scs s' admit_scope_def Let_def unat_succ_less inc_le)
  moreover have "inv_reserved s'"
    using I(4) held_new_scope [OF I(6,1)]
    by (auto simp: inv_reserved_def scs s' admit_scopes nth_append less_Suc_eq)
  moreover have "inv_budget s'"
    using I(5) by (auto simp: inv_budget_def scs nth_append within_limit_def sat_add_def)
  moreover have "inv_attempts s'"
    using I(6) by (fastforce simp: inv_attempts_def s' admit_scopes)
  ultimately show ?thesis by (simp add: ledger_inv_def)
qed

section \<open>Reservation\<close>

lemma reserve_InrD:
  assumes "reserve s node prompt requested = Some (Inr r, s')" "ledger_inv s"
  defines "pth \<equiv> anc (lg_scopes s) node"
  defines "cap \<equiv> output_cap (headroom (lg_scopes s) pth) prompt requested"
  shows "requested \<noteq> 0" "admissible (lg_scopes s) node"
    "\<not> cap < min MIN_OUTPUT_TOKENS requested" "\<not> headroom (lg_scopes s) pth < prompt"
    "r = \<lparr>rv_id = lg_next_attempt s, rv_tokens = prompt + ucast cap, rv_max_tokens = cap\<rparr>"
    "s' = s\<lparr>lg_scopes := update_path (hold (prompt + ucast cap)) pth (lg_scopes s),
       lg_next_attempt := lg_next_attempt s + 1,
       lg_attempts := AList.update (lg_next_attempt s) (node, prompt + ucast cap) (lg_attempts s)\<rparr>"
  using assms by (auto simp: reserve_def Let_def inv_path admissible_def split: if_splits option.splits)

lemma reserve_Inl_same: "reserve s node prompt requested = Some (Inl e, s') \<Longrightarrow> s' = s"
  by (auto simp: reserve_def Let_def split: if_splits option.splits)

lemma reserve_total:
  assumes "ledger_inv s"
  shows "\<exists>r s'. reserve s node prompt requested = Some (r, s')"
  using inv_path [OF assms, of node]
  by (auto simp: reserve_def Let_def admissible_def split: option.splits)

lemma hold_simps [simp]:
  "sc_parent (hold t x) = sc_parent x" "sc_depth (hold t x) = sc_depth x"
  "sc_agent (hold t x) = sc_agent x" "sc_alive (hold t x) = sc_alive x"
  "sc_admission_closed (hold t x) = sc_admission_closed x"
  "bs_limit (sc_budget (hold t x)) = bs_limit (sc_budget x)"
  "bs_used (sc_budget (hold t x)) = bs_used (sc_budget x)"
  "bs_closed (sc_budget (hold t x)) = bs_closed (sc_budget x)"
  "bs_reserved (sc_budget (hold t x)) = bs_reserved (sc_budget x) + t"
  "sc_usage (hold t x) = sc_usage x" "sc_own (hold t x) = sc_own x"
  by (simp_all add: hold_def)

lemma same_nodes_update_path:
  assumes "\<And>x. sc_parent (f x) = sc_parent x" "\<And>x. sc_depth (f x) = sc_depth x"
    "\<And>x. sc_agent (f x) = sc_agent x"
    "\<And>x. bs_limit (sc_budget (f x)) = bs_limit (sc_budget x)" "n < length scs"
  shows "same_nodes (update_path f (anc scs n) scs) scs"
  using assms by (simp add: same_nodes_def nth_update_anc)

text \<open>Nothing wraps when a reservation is granted, and every ancestor stays within its limit.\<close>

lemma reserve_budget:
  assumes inv: "ledger_inv s" and res: "reserve s node prompt requested = Some (Inr r, s')"
    and i: "i \<in> set (anc (lg_scopes s) node)"
  defines "b \<equiv> sc_budget (lg_scopes s ! i)"
  defines "b' \<equiv> sc_budget (lg_scopes s' ! i)"
  shows "unat (bs_reserved b') = unat (bs_reserved b) + unat (rv_tokens r)"
    and "bs_used b' = bs_used b" and "\<not> bs_closed b'" and "bs_limit b' = bs_limit b"
    and "unat (bs_used b') + unat (bs_reserved b') \<le> unat (bs_limit b')"
proof -
  note d = reserve_InrD [OF res inv]
  let ?cap = "output_cap (headroom (lg_scopes s) (anc (lg_scopes s) node)) prompt requested"
  note g = granted_fits [OF i d(1) refl d(3,4), folded b_def]
  have n: "node < length (lg_scopes s)" using d(2) by (simp add: admissible_def)
  have "i < length (lg_scopes s)" using anc_le [OF i] n by simp
  then have *: "lg_scopes s' ! i = hold (rv_tokens r) (lg_scopes s ! i)"
    using i n d(5,6) by (simp add: nth_update_anc)
  have tok: "unat (rv_tokens r) = unat prompt + unat ?cap" using g(1) d(5) by simp
  have "unat (bs_reserved b) + unat (rv_tokens r) < 2 ^ LENGTH(64)"
    using g(4) tok unat_less_pow [of "bs_limit b"] by linarith
  then show "unat (bs_reserved b') = unat (bs_reserved b) + unat (rv_tokens r)"
    by (simp add: b'_def b_def * unat_add_nowrap)
  then show "unat (bs_used b') + unat (bs_reserved b') \<le> unat (bs_limit b')"
    using g(4) tok by (simp add: b'_def b_def *)
  show "bs_used b' = bs_used b" "\<not> bs_closed b'" "bs_limit b' = bs_limit b"
    using g(3) by (simp_all add: b'_def b_def *)
qed

lemma reserve_inv:
  assumes inv: "ledger_inv s" and res: "reserve s node prompt requested = Some (r, s')"
    and nxt: "lg_next_attempt s \<noteq> - 1"
  shows "ledger_inv s'"
proof (cases r)
  case (Inl e)
  then show ?thesis using assms reserve_Inl_same by metis
next
  case (Inr r)
  note res = res [unfolded Inr]
  note I = ledger_invD [OF inv] and d = reserve_InrD [OF res inv]
  let ?scs = "lg_scopes s" and ?n = "lg_next_attempt s"
  have n: "node < length ?scs" using d(2) by (simp add: admissible_def)
  have scs: "lg_scopes s' = update_path (hold (rv_tokens r)) (anc ?scs node) ?scs"
    using d(5,6) by simp
  have same: "same_nodes (lg_scopes s') ?scs" unfolding scs
    using n by (intro same_nodes_update_path) simp_all
  have fresh: "map_of (lg_attempts s) ?n = None"
    using I(6) by (fastforce simp: inv_attempts_def map_of_eq_None_iff)
  have att: "lg_attempts s' = lg_attempts s @ [(?n, node, rv_tokens r)]"
    using d(5,6) fresh by (simp add: alist_update_fresh)
  have at: "lg_scopes s' ! i = (if i \<in> set (anc ?scs node) then hold (rv_tokens r) (?scs ! i) else ?scs ! i)"
    if "i < length ?scs" for i using that n by (simp add: scs nth_update_anc)
  have "inv_tree s'" using I(1) same by (rule inv_tree_same)
  moreover have "inv_shape s'" using I(1,2) same by (rule inv_shape_same) (simp add: d(6))
  moreover have "inv_counts s'" using I(3) same
    by (rule inv_counts_same) (simp_all add: d(6) at [simplified d(6)] nth_update_anc n)
  moreover have "inv_reserved s'"
    unfolding inv_reserved_def
  proof (intro allI impI)
    fix i assume "i < length (lg_scopes s')"
    then have i: "i < length ?scs" by (simp add: scs)
    have "held (lg_scopes s') (lg_attempts s') i =
        held ?scs (lg_attempts s) i + (if i \<in> set (anc ?scs node) then unat (rv_tokens r) else 0)"
      using held_same [OF I(6) same order_refl] same_nodes_anc [OF same n] by (simp add: att)
    then show "unat (bs_reserved (sc_budget (lg_scopes s' ! i))) = held (lg_scopes s') (lg_attempts s') i"
      using I(4) i reserve_budget(1) [OF inv res, of i] at [OF i] by (auto simp: inv_reserved_def)
  qed
  moreover have "inv_budget s'"
    unfolding inv_budget_def
  proof (intro allI impI)
    fix i assume "i < length (lg_scopes s')"
    then have i: "i < length ?scs" by (simp add: scs)
    show "within_limit (sc_budget (lg_scopes s' ! i))"
    proof (cases "i \<in> set (anc ?scs node)")
      case True
      then show ?thesis using reserve_budget(5) [OF inv res True]
        by (simp add: within_limit_def word_le_nat_alt sat_simps min.coboundedI2)
    next
      case False
      then show ?thesis using I(5) i by (simp add: at inv_budget_def)
    qed
  qed
  moreover have "inv_attempts s'"
  proof -
    have "?n < ?n + 1" using unat_succ_not_max [OF nxt] by (simp add: word_less_nat_alt)
    then show ?thesis
      using I(6) fresh n att by (fastforce simp: inv_attempts_def d(6) scs [simplified d(6)]
          map_of_eq_None_iff dest: order_less_trans)
  qed
  ultimately show ?thesis by (simp add: ledger_inv_def)
qed

section \<open>Settlement\<close>

lemma release_simps [simp]:
  "sc_parent (release t c u x) = sc_parent x" "sc_depth (release t c u x) = sc_depth x"
  "sc_agent (release t c u x) = sc_agent x" "sc_alive (release t c u x) = sc_alive x"
  "sc_admission_closed (release t c u x) = sc_admission_closed x"
  "bs_limit (sc_budget (release t c u x)) = bs_limit (sc_budget x)"
  "bs_used (sc_budget (release t c u x)) = bs_used (sc_budget x) + c"
  "bs_reserved (sc_budget (release t c u x)) = bs_reserved (sc_budget x) - t"
  "sc_usage (release t c u x) = usage_add (sc_usage x) u" "sc_own (release t c u x) = sc_own x"
  "bs_closed (sc_budget (release t c u x)) = (bs_closed (sc_budget x) \<or>
     bs_limit (sc_budget x) < sat_add (bs_used (sc_budget x) + c) (bs_reserved (sc_budget x) - t))"
  by (simp_all add: release_def Let_def)

lemma add_own_simps [simp]:
  "sc_parent (add_own u x) = sc_parent x" "sc_depth (add_own u x) = sc_depth x"
  "sc_agent (add_own u x) = sc_agent x" "sc_alive (add_own u x) = sc_alive x"
  "sc_admission_closed (add_own u x) = sc_admission_closed x"
  "sc_budget (add_own u x) = sc_budget x" "sc_usage (add_own u x) = sc_usage x"
  "sc_own (add_own u x) = usage_add (sc_own x) u"
  by (simp_all add: add_own_def)

text \<open>A settlement, scope by scope.\<close>

lemma settle_SomeD:
  assumes "settle s r c = Some (st, s')" "ledger_inv s"
  obtains node tokens where "map_of (lg_attempts s) (rv_id r) = Some (node, tokens)"
    "node < length (lg_scopes s)"
    "st = \<lparr>st_charged = fst (charge_of tokens c), st_excess = sat_sub (fst (charge_of tokens c)) tokens\<rparr>"
    "length (lg_scopes s') = length (lg_scopes s)"
    "\<And>i. i < length (lg_scopes s) \<Longrightarrow> sc_budget (lg_scopes s' ! i) =
       sc_budget (if i \<in> set (anc (lg_scopes s) node)
         then release tokens (fst (charge_of tokens c)) (snd (charge_of tokens c)) (lg_scopes s ! i)
         else lg_scopes s ! i)"
    "\<And>i. i < length (lg_scopes s) \<Longrightarrow> sc_usage (lg_scopes s' ! i) =
       (if i \<in> set (anc (lg_scopes s) node) then usage_add (sc_usage (lg_scopes s ! i)) (snd (charge_of tokens c))
        else sc_usage (lg_scopes s ! i))"
    "\<And>i. i < length (lg_scopes s) \<Longrightarrow> sc_own (lg_scopes s' ! i) =
       (if i = node then usage_add (sc_own (lg_scopes s ! i)) (snd (charge_of tokens c))
        else sc_own (lg_scopes s ! i))"
    "same_nodes (lg_scopes s') (lg_scopes s)"
    "\<And>i. i < length (lg_scopes s) \<Longrightarrow> sc_alive (lg_scopes s' ! i) = sc_alive (lg_scopes s ! i)"
    "\<And>i. i < length (lg_scopes s) \<Longrightarrow>
       sc_admission_closed (lg_scopes s' ! i) = sc_admission_closed (lg_scopes s ! i)"
    "s' = s\<lparr>lg_scopes := lg_scopes s', lg_attempts := AList.delete (rv_id r) (lg_attempts s)\<rparr>"
proof -
  obtain node tokens where m: "map_of (lg_attempts s) (rv_id r) = Some (node, tokens)"
    using assms(1) by (auto simp: settle_def split: option.splits)
  then have n: "node < length (lg_scopes s)"
    using ledger_invD(6) [OF assms(2)] by (fastforce simp: inv_attempts_def dest: map_of_SomeD)
  obtain ch u where cu: "charge_of tokens c = (ch, u)" by fastforce
  let ?up = "update_path (release tokens ch u) (anc (lg_scopes s) node) (lg_scopes s)"
  have eq: "st = \<lparr>st_charged = ch, st_excess = sat_sub ch tokens\<rparr>"
    "s' = s\<lparr>lg_scopes := ?up[node := add_own u (?up ! node)],
       lg_attempts := AList.delete (rv_id r) (lg_attempts s)\<rparr>"
    using assms(1) m cu inv_path [OF assms(2) n] by (simp_all add: settle_def Let_def)
  show thesis
    by (rule that [OF m n]) (use n in \<open>simp_all add: eq cu nth_update_anc nth_list_update same_nodes_def\<close>)
qed

lemma settle_total:
  assumes "ledger_inv s" "map_of (lg_attempts s) (rv_id r) \<noteq> None"
  shows "\<exists>st s'. settle s r c = Some (st, s')"
proof -
  obtain node tokens where m: "map_of (lg_attempts s) (rv_id r) = Some (node, tokens)"
    using assms(2) by auto
  then have "node < length (lg_scopes s)"
    using ledger_invD(6) [OF assms(1)] by (fastforce simp: inv_attempts_def dest: map_of_SomeD)
  then show ?thesis
    using m inv_path [OF assms(1)] by (auto simp: settle_def Let_def split: prod.splits)
qed

lemma settle_inv:
  assumes inv: "ledger_inv s" and set: "settle s r c = Some (st, s')"
  shows "ledger_inv s'"
proof (rule settle_SomeD [OF set inv])
  fix node tokens
  assume m: "map_of (lg_attempts s) (rv_id r) = Some (node, tokens)"
    and n: "node < length (lg_scopes s)"
    and len: "length (lg_scopes s') = length (lg_scopes s)"
    and bud: "\<And>i. i < length (lg_scopes s) \<Longrightarrow> sc_budget (lg_scopes s' ! i) =
       sc_budget (if i \<in> set (anc (lg_scopes s) node)
         then release tokens (fst (charge_of tokens c)) (snd (charge_of tokens c)) (lg_scopes s ! i)
         else lg_scopes s ! i)"
    and same: "same_nodes (lg_scopes s') (lg_scopes s)"
    and alive: "\<And>i. i < length (lg_scopes s) \<Longrightarrow> sc_alive (lg_scopes s' ! i) = sc_alive (lg_scopes s ! i)"
    and s': "s' = s\<lparr>lg_scopes := lg_scopes s', lg_attempts := AList.delete (rv_id r) (lg_attempts s)\<rparr>"
  note I = ledger_invD [OF inv]
  have att: "lg_attempts s' = AList.delete (rv_id r) (lg_attempts s)" by (subst s') simp
  have lim: "lg_limits s' = lg_limits s" "lg_live s' = lg_live s" "lg_total s' = lg_total s"
    "lg_llm s' = lg_llm s" "lg_next_attempt s' = lg_next_attempt s" by (subst s', simp)+
  have dis: "distinct (map fst (lg_attempts s))" using I(6) by (simp add: inv_attempts_def)
  have sub: "set (AList.delete (rv_id r) (lg_attempts s)) \<subseteq> set (lg_attempts s)"
    by (auto simp: AList.delete_eq)
  have "inv_tree s'" using I(1) same by (rule inv_tree_same)
  moreover have "inv_shape s'" using I(1,2) same lim(1) by (rule inv_shape_same)
  moreover have "inv_counts s'" using I(3) same lim(1) alive lim(2,3,4) by (rule inv_counts_same)
  moreover have "inv_reserved s'"
    unfolding inv_reserved_def len
  proof (intro allI impI)
    fix i assume i: "i < length (lg_scopes s)"
    let ?r = "bs_reserved (sc_budget (lg_scopes s ! i))"
    have h: "unat ?r = (if i \<in> set (anc (lg_scopes s) node) then unat tokens else 0)
        + held (lg_scopes s) (lg_attempts s') i"
      using I(4) i held_delete [OF dis m] by (simp add: inv_reserved_def att)
    moreover have "held (lg_scopes s') (lg_attempts s') i = held (lg_scopes s) (lg_attempts s') i"
      using held_same [OF I(6) same] sub by (simp add: att)
    ultimately show "unat (bs_reserved (sc_budget (lg_scopes s' ! i))) = held (lg_scopes s') (lg_attempts s') i"
      using bud [OF i] by (auto simp: unat_sub word_le_nat_alt)
  qed
  moreover have "inv_budget s'"
    using I(5) bud by (auto simp: inv_budget_def len within_limit_def not_less)
  moreover have "inv_attempts s'"
    using I(6) sub by (auto simp: inv_attempts_def att len lim distinct_delete)
  ultimately show "ledger_inv s'" by (simp add: ledger_inv_def)
qed

section \<open>Closing and shutdown\<close>

lemma same_nodes_flag:
  assumes "sc_parent x = sc_parent (scs ! n)" "sc_depth x = sc_depth (scs ! n)"
    "sc_agent x = sc_agent (scs ! n)" "sc_budget x = sc_budget (scs ! n)"
  shows "same_nodes (scs[n := x]) scs"
proof -
  have at: "scs[n := x] ! i = (if i = n then x else scs ! i)" if "i < length scs" for i
    using that by (cases "i = n") simp_all
  show ?thesis using assms by (simp add: same_nodes_def at)
qed

lemma flag_inv:
  assumes inv: "ledger_inv s" and n: "n < length (lg_scopes s)"
    and x: "sc_parent x = sc_parent (lg_scopes s ! n)" "sc_depth x = sc_depth (lg_scopes s ! n)"
      "sc_agent x = sc_agent (lg_scopes s ! n)" "sc_budget x = sc_budget (lg_scopes s ! n)"
    and s': "lg_scopes s' = (lg_scopes s)[n := x]" "lg_limits s' = lg_limits s"
      "lg_attempts s' = lg_attempts s" "lg_next_attempt s' = lg_next_attempt s"
    and counts: "inv_counts s'"
  shows "ledger_inv s'"
proof -
  note I = ledger_invD [OF inv] and same = same_nodes_flag [OF x, folded s'(1)]
  have "sc_budget (lg_scopes s' ! i) = sc_budget (lg_scopes s ! i)" for i
    using x(4) n by (cases "i = n") (simp_all add: s'(1))
  then have "inv_reserved s'" "inv_budget s'"
    using I(4,5) held_same [OF I(6) same order_refl] by (simp_all add: inv_reserved_def inv_budget_def s')
  moreover have "inv_attempts s'" using I(6) by (simp add: inv_attempts_def s')
  ultimately show ?thesis
    using inv_tree_same [OF I(1) same] inv_shape_same [OF I(1,2) same s'(2)] counts
    by (simp add: ledger_inv_def)
qed

lemma close_admission_inv:
  assumes "ledger_inv s" "close_admission s n = Some s'"
  shows "ledger_inv s'"
proof -
  from assms(2) have n: "n < length (lg_scopes s)"
    and s': "s' = s\<lparr>lg_scopes := (lg_scopes s)[n := (lg_scopes s ! n)\<lparr>sc_admission_closed := True\<rparr>]\<rparr>"
    by (auto simp: close_admission_def split: if_splits)
  have "inv_counts s'"
    using ledger_invD(3) [OF assms(1)]
    by (rule inv_counts_same) (auto simp: s' nth_list_update n intro!: same_nodes_flag)
  then show ?thesis by (intro flag_inv [OF assms(1) n]) (simp_all add: s')
qed

lemma shutdown_inv:
  assumes "ledger_inv s" "shutdown s n = Some s'"
  shows "ledger_inv s'"
proof (cases "sc_alive (lg_scopes s ! n)")
  case True
  let ?x = "lg_scopes s ! n" and ?P = "\<lambda>x. sc_agent x \<and> sc_alive x"
  from assms(2) True have n: "n < length (lg_scopes s)"
    and s': "s' = s\<lparr>lg_scopes := (lg_scopes s)[n := ?x\<lparr>sc_alive := False\<rparr>],
       lg_live := (if sc_agent ?x then lg_live s - 1 else lg_live s)\<rparr>"
    by (auto simp: shutdown_def split: if_splits)
  have c: "inv_counts s" using assms(1) by (rule ledger_invD)
  have live: "unat (lg_live s') = length (filter ?P (lg_scopes s'))"
  proof (cases "sc_agent ?x")
    case agent: True
    have len: "Suc (length (filter ?P (lg_scopes s'))) = length (filter ?P (lg_scopes s))"
      unfolding s' using n True agent by (simp add: length_filter_update)
    then have "unat (lg_live s) = Suc (length (filter ?P (lg_scopes s')))"
      using c by (simp add: inv_counts_def)
    moreover from this have "1 \<le> lg_live s" by (simp add: word_le_nat_alt)
    ultimately show ?thesis using agent by (simp add: s' unat_sub)
  next
    case False
    then show ?thesis using c n
      by (simp add: s' inv_counts_def length_filter_update_same)
  qed
  moreover have "lg_live s' \<le> lg_live s"
  proof (cases "sc_agent ?x")
    case agent: True
    have "Suc (length (filter ?P (lg_scopes s'))) = length (filter ?P (lg_scopes s))"
      unfolding s' using n True agent by (simp add: length_filter_update)
    then show ?thesis using live c by (simp add: word_le_nat_alt inv_counts_def)
  qed (simp add: s')
  ultimately have "inv_counts s'"
    using c n by (auto simp: inv_counts_def s' length_filter_update_same)
  then show ?thesis by (intro flag_inv [OF assms(1) n]) (simp_all add: s')
next
  case False
  with assms show ?thesis by (auto simp: shutdown_def split: if_splits)
qed

end
