(* ===== verification/Ledger_Props.thy ===== *)
theory Ledger_Props
  imports Ledger_Inv
begin

text \<open>
  Runs of the ledger and what they guarantee.  A run is a list of operations on a fresh ledger;
  the mutex of the code makes every interleaving of its callers such a list.  The identifiers of
  attempts are 64-bit, so the invariant is stated for runs of fewer than 2 to the 64 operations.
\<close>

section \<open>Runs\<close>

datatype ledger_op =
    Admit node_id bool "u64 option"
  | Reserve node_id u64 u32
  | Settle reservation charge
  | CloseAdmission node_id
  | Shutdown node_id

fun ledger_step :: "ledger \<Rightarrow> ledger_op \<Rightarrow> ledger option" where
  "ledger_step s (Admit p agent l) = map_option snd (admit s p agent l)"
| "ledger_step s (Reserve n prompt req) = map_option snd (reserve s n prompt req)"
| "ledger_step s (Settle r c) = map_option snd (settle s r c)"
| "ledger_step s (CloseAdmission n) = close_admission s n"
| "ledger_step s (Shutdown n) = shutdown s n"

fun ledger_steps :: "ledger \<Rightarrow> ledger_op list \<Rightarrow> ledger option" where
  "ledger_steps s [] = Some s"
| "ledger_steps s (op # ops) =
     (case ledger_step s op of None \<Rightarrow> None | Some s' \<Rightarrow> ledger_steps s' ops)"

definition ledger_run :: "(duration \<Rightarrow> bool) \<Rightarrow> limits \<Rightarrow> ledger_op list \<Rightarrow> ledger option" where
  "ledger_run fits l ops =
     (case ledger_new fits l of Inl _ \<Rightarrow> None | Inr s \<Rightarrow> ledger_steps s ops)"

text \<open>The arguments the callers pass: node identifiers come from `admit`, and a `Reservation`
  is consumed by `settle`, so it is settled once.\<close>

fun op_valid :: "ledger \<Rightarrow> ledger_op \<Rightarrow> bool" where
  "op_valid s (Settle r c) = (map_of (lg_attempts s) (rv_id r) \<noteq> None)"
| "op_valid s (CloseAdmission n) = (n < length (lg_scopes s))"
| "op_valid s (Shutdown n) = (n < length (lg_scopes s))"
| "op_valid s _ = True"

lemma reserve_next:
  "reserve s n p q = Some (r, s') \<Longrightarrow>
    lg_next_attempt s' = lg_next_attempt s \<or> lg_next_attempt s' = lg_next_attempt s + 1"
  by (auto simp: reserve_def Let_def split: if_splits option.splits)

lemma ledger_step_next:
  assumes "ledger_step s op = Some s'"
  shows "lg_next_attempt s' = lg_next_attempt s \<or> lg_next_attempt s' = lg_next_attempt s + 1"
proof (cases op)
  case (Admit p agent l)
  then show ?thesis using assms
    by (auto simp: admit_def Let_def admit_scopes split: if_splits option.splits)
next
  case (Reserve n p q)
  then show ?thesis using assms by (auto dest: reserve_next)
next
  case (Settle r c)
  then show ?thesis using assms
    by (auto simp: settle_def Let_def split: option.splits prod.splits)
qed (use assms in \<open>auto simp: close_admission_def shutdown_def split: if_splits\<close>)

lemma ledger_step_inv:
  assumes "ledger_inv s" "ledger_step s op = Some s'" "lg_next_attempt s \<noteq> - 1"
  shows "ledger_inv s'"
  using assms
  by (cases op) (auto intro: admit_inv reserve_inv settle_inv close_admission_inv shutdown_inv)

lemma ledger_steps_inv:
  assumes "ledger_inv s" "ledger_steps s ops = Some s'"
    "unat (lg_next_attempt s) + length ops < 2 ^ 64"
  shows "ledger_inv s' \<and> unat (lg_next_attempt s') + 0 \<le> unat (lg_next_attempt s) + length ops"
  using assms
proof (induction ops arbitrary: s)
  case (Cons op ops)
  obtain s1 where s1: "ledger_step s op = Some s1" "ledger_steps s1 ops = Some s'"
    using Cons.prems(2) by (auto split: option.splits)
  have nxt: "lg_next_attempt s \<noteq> - 1"
    using Cons.prems(3) by (auto simp: unat_minus_one_eq)
  have "unat (lg_next_attempt s1) \<le> unat (lg_next_attempt s) + 1"
    using ledger_step_next [OF s1(1)] unat_succ_not_max [OF nxt] by auto
  then show ?case
    using Cons.IH [OF ledger_step_inv [OF Cons.prems(1) s1(1) nxt] s1(2)] Cons.prems(3) by auto
qed simp

lemma ledger_run_inv:
  assumes "ledger_run fits l ops = Some s" "length ops < 2 ^ 64"
  shows "ledger_inv s"
proof -
  obtain s0 where s0: "ledger_new fits l = Inr s0" "ledger_steps s0 ops = Some s"
    using assms(1) by (auto simp: ledger_run_def split: sum.splits)
  then have "lg_next_attempt s0 = 0" by (auto simp: ledger_new_def split: sum.splits)
  then show ?thesis
    using ledger_steps_inv [OF ledger_new_inv [OF s0(1)] s0(2)] assms(2) by simp
qed

section \<open>Monotonicity\<close>

text \<open>What no operation undoes: a closed budget, a closed admission, a node that shut down.\<close>

definition ledger_le :: "ledger \<Rightarrow> ledger \<Rightarrow> bool" where
  "ledger_le s s' = (length (lg_scopes s) \<le> length (lg_scopes s') \<and>
     (\<forall>i < length (lg_scopes s).
        sc_parent (lg_scopes s' ! i) = sc_parent (lg_scopes s ! i) \<and>
        (bs_closed (sc_budget (lg_scopes s ! i)) \<longrightarrow> bs_closed (sc_budget (lg_scopes s' ! i))) \<and>
        (sc_alive (lg_scopes s' ! i) \<longrightarrow> sc_alive (lg_scopes s ! i)) \<and>
        (sc_admission_closed (lg_scopes s ! i) \<longrightarrow> sc_admission_closed (lg_scopes s' ! i))))"

lemma ledger_le_refl [simp]: "ledger_le s s"
  by (simp add: ledger_le_def)

lemma ledger_leD:
  assumes "ledger_le s s'" "i < length (lg_scopes s)"
  shows "i < length (lg_scopes s')" "sc_parent (lg_scopes s' ! i) = sc_parent (lg_scopes s ! i)"
    "bs_closed (sc_budget (lg_scopes s ! i)) \<Longrightarrow> bs_closed (sc_budget (lg_scopes s' ! i))"
    "sc_alive (lg_scopes s' ! i) \<Longrightarrow> sc_alive (lg_scopes s ! i)"
    "sc_admission_closed (lg_scopes s ! i) \<Longrightarrow> sc_admission_closed (lg_scopes s' ! i)"
  using assms by (auto simp: ledger_le_def)

lemma ledger_le_trans:
  assumes ab: "ledger_le a b" and bc: "ledger_le b c"
  shows "ledger_le a c"
  unfolding ledger_le_def
proof (intro conjI allI impI)
  show "length (lg_scopes a) \<le> length (lg_scopes c)" using assms by (simp add: ledger_le_def)
next
  fix i assume i: "i < length (lg_scopes a)"
  note 1 = ledger_leD [OF ab i] and 2 = ledger_leD [OF bc ledger_leD(1) [OF ab i]]
  show "sc_parent (lg_scopes c ! i) = sc_parent (lg_scopes a ! i)" using 1(2) 2(2) by simp
  show "bs_closed (sc_budget (lg_scopes a ! i)) \<Longrightarrow> bs_closed (sc_budget (lg_scopes c ! i))"
    by (rule 2(3) [OF 1(3)])
  show "sc_alive (lg_scopes c ! i) \<Longrightarrow> sc_alive (lg_scopes a ! i)" by (rule 1(4) [OF 2(4)])
  show "sc_admission_closed (lg_scopes a ! i) \<Longrightarrow> sc_admission_closed (lg_scopes c ! i)"
    by (rule 2(5) [OF 1(5)])
qed

lemma ledger_le_flag:
  assumes "lg_scopes s' = (lg_scopes s)[n := x]" "n < length (lg_scopes s)"
    "sc_parent x = sc_parent (lg_scopes s ! n)" "sc_budget x = sc_budget (lg_scopes s ! n)"
    "sc_alive x \<longrightarrow> sc_alive (lg_scopes s ! n)"
    "sc_admission_closed (lg_scopes s ! n) \<longrightarrow> sc_admission_closed x"
  shows "ledger_le s s'"
  using assms by (auto simp: ledger_le_def nth_list_update)

lemma ledger_step_le:
  assumes inv: "ledger_inv s" and step: "ledger_step s op = Some s'"
  shows "ledger_le s s'"
proof (cases op)
  case (Admit p agent l)
  then have "s' = s \<or> (\<exists>d b. s' = admit_scope s p d agent b)"
    using step by (auto simp: admit_def Let_def split: if_splits option.splits)
  then show ?thesis by (auto simp: ledger_le_def admit_scopes nth_append)
next
  case (Reserve n p q)
  then obtain r where r: "reserve s n p q = Some (r, s')" using step by auto
  show ?thesis
  proof (cases r)
    case (Inl e)
    then show ?thesis using r reserve_Inl_same by fastforce
  next
    case (Inr v)
    note d = reserve_InrD [OF r [unfolded Inr] inv]
    then show ?thesis by (simp add: ledger_le_def nth_update_anc admissible_def)
  qed
next
  case (Settle r c)
  then obtain st where st: "settle s r c = Some (st, s')" using step by auto
  show ?thesis
    by (rule settle_SomeD [OF st inv]) (simp add: ledger_le_def same_nodes_def)
next
  case (CloseAdmission n)
  then show ?thesis using step
    by (auto simp: close_admission_def split: if_splits intro!: ledger_le_flag)
next
  case (Shutdown n)
  then show ?thesis using step
    by (auto simp: shutdown_def split: if_splits intro!: ledger_le_flag)
qed

lemma ledger_steps_le:
  assumes "ledger_inv s" "ledger_steps s ops = Some s'"
    "unat (lg_next_attempt s) + length ops < 2 ^ 64"
  shows "ledger_le s s'"
  using assms
proof (induction ops arbitrary: s)
  case (Cons op ops)
  obtain s1 where s1: "ledger_step s op = Some s1" "ledger_steps s1 ops = Some s'"
    using Cons.prems(2) by (auto split: option.splits)
  have nxt: "lg_next_attempt s \<noteq> - 1"
    using Cons.prems(3) by (auto simp: unat_minus_one_eq)
  have "unat (lg_next_attempt s1) \<le> unat (lg_next_attempt s) + 1"
    using ledger_step_next [OF s1(1)] unat_succ_not_max [OF nxt] by auto
  then have "ledger_le s1 s'"
    using Cons.IH [OF ledger_step_inv [OF Cons.prems(1) s1(1) nxt] s1(2)] Cons.prems(3) by auto
  then show ?case using ledger_step_le [OF Cons.prems(1) s1(1)] ledger_le_trans by blast
qed simp

text \<open>A closed scope on the path leaves no headroom.\<close>

lemma closed_blocks_reserve:
  assumes "ledger_inv s" "i \<in> set (anc (lg_scopes s) n)" "bs_closed (sc_budget (lg_scopes s ! i))"
    "reserve s n prompt req = Some (r, s')"
  shows "isl r"
proof (cases r)
  case (Inr v)
  then show ?thesis using reserve_budget(3) [OF assms(1) assms(4) [unfolded Inr] assms(2)]
      reserve_InrD(6) [OF assms(4) [unfolded Inr] assms(1)]
      reserve_InrD(2) [OF assms(4) [unfolded Inr] assms(1)] anc_le [OF assms(2)] assms(2,3)
    by (auto simp: admissible_def nth_update_anc)
qed simp

lemma closed_blocks_admit:
  assumes "ledger_inv s" "i \<in> set (anc (lg_scopes s) p)" "bs_closed (sc_budget (lg_scopes s ! i))"
    "admit s p agent lim = Some (r, s')"
  shows "isl r"
proof (cases r)
  case (Inr v)
  then show ?thesis using admit_InrD(8) [OF assms(4) [unfolded Inr] assms(1)] assms(2,3)
    by (auto simp: remaining_def)
qed simp

lemma ledger_le_anc:
  assumes "ledger_le s s'" "n < length (lg_scopes s)"
  shows "anc (lg_scopes s') n = anc (lg_scopes s) n"
  using assms by (intro anc_cong) (auto simp: ledger_le_def)

section \<open>Properties\<close>

text \<open>A sample tree for the witnesses: an agent with a child of a smaller budget and a request
  in flight below it.\<close>

definition sample_limits :: limits where
  "sample_limits = limits_default"

definition sample_ops :: "ledger_op list" where
  "sample_ops = [Admit 0 True (Some 10000), Reserve 1 100 4096]"

definition sample_child :: "bool \<Rightarrow> u64 \<Rightarrow> u64 \<Rightarrow> scope" where
  "sample_child closed u r = (fresh_scope (Some 0) 1 True 10000)
     \<lparr>sc_budget := \<lparr>bs_limit = 10000, bs_used = u, bs_reserved = r, bs_closed = closed\<rparr>\<rparr>"

lemma sample_new: "ledger_new (\<lambda>_. True) sample_limits = Inr \<lparr>lg_limits = sample_limits,
    lg_scopes = [fresh_scope None 0 True 20000000], lg_total = 1, lg_live = 1, lg_llm = 0,
    lg_next_attempt = 0, lg_attempts = []\<rparr>"
  by (simp add: ledger_new_def validate_limits_def sample_limits_def limits_default_def
      limits_counts_def limits_durations_def from_secs_def MAILBOX_CAPACITY_def
      MESSAGE_CHARS_def DELIVERY_CHARS_def)

definition sample_ledger :: ledger where
  "sample_ledger = \<lparr>lg_limits = sample_limits,
     lg_scopes = [(fresh_scope None 0 True 20000000)\<lparr>sc_budget :=
         \<lparr>bs_limit = 20000000, bs_used = 0, bs_reserved = 4196, bs_closed = False\<rparr>\<rparr>,
       sample_child False 0 4196],
     lg_total = 2, lg_live = 2, lg_llm = 0, lg_next_attempt = 1, lg_attempts = [(0, 1, 4196)]\<rparr>"

lemmas ledger_eval = ledger_run_def admit_def reserve_def admit_scope_def Let_def limit_checks_def
  path_def path_from.simps headroom_def min_or_zero_def remaining_def sat_sub_def sat_add_def
  output_cap_def admissible_def MIN_OUTPUT_TOKENS_def update_path_def hold_def fresh_scope_def
  fresh_budget_def

lemma sample_run: "ledger_run (\<lambda>_. True) sample_limits sample_ops = Some sample_ledger"
  by (simp add: sample_ops_def sample_ledger_def sample_child_def sample_new ledger_eval)
    (simp add: sample_limits_def limits_default_def word_le_nat_alt)

text \<open>
  C1. In every state the ledger reaches from a validated configuration, whatever operations its
  callers interleave, the invariant holds: the scopes form a tree, each scope holds exactly the
  tokens of the unsettled attempts of its subtree, an open scope has not used and reserved more
  than its limit, the live, total and leaf counters count the nodes and stay within the limits.
\<close>
theorem ledger_reachable_inv:
  assumes "ledger_run fits l ops = Some s" "length ops < 2 ^ 64"
  shows "ledger_inv s"
  using assms by (rule ledger_run_inv)

theorem ledger_reachable_inv_witness: "ledger_inv sample_ledger"
  using ledger_reachable_inv [OF sample_run] by (simp add: sample_ops_def)

lemma sample_inv: "ledger_inv sample_ledger"
  using ledger_run_inv [OF sample_run] by (simp add: sample_ops_def)

lemma sample_wf: "wf_tree (lg_scopes sample_ledger)"
  using ledger_invD(1) [OF sample_inv] by (simp add: inv_tree_def)

lemma sample_anc: "anc (lg_scopes sample_ledger) 1 = [1, 0]"
  by (simp add: sample_ledger_def sample_child_def fresh_scope_def anc_parent anc_root)

text \<open>
  C2. No operation panics or loops in a state where the invariant holds, for any arguments the
  callers can build: every parent walk ends, every index is in range, every reservation that
  is still held can be settled.
\<close>
theorem ledger_no_panic:
  assumes "ledger_inv s" "op_valid s op"
  shows "ledger_step s op \<noteq> None"
proof (cases op)
  case (Admit p a l)
  then show ?thesis using admit_total [OF assms(1), of p a l] by auto
next
  case (Reserve n p q)
  then show ?thesis using reserve_total [OF assms(1), of n p q] by auto
next
  case (Settle r c)
  then show ?thesis using settle_total [OF assms(1), of r c] assms(2) by auto
qed (use assms(2) in \<open>auto simp: close_admission_def shutdown_def\<close>)

theorem ledger_no_panic_witness:
  "ledger_step sample_ledger (Settle \<lparr>rv_id = 0, rv_tokens = 4196, rv_max_tokens = 4096\<rparr>
     (ChargeFailed Zero)) \<noteq> None"
  by (rule ledger_no_panic [OF sample_inv]) (simp add: sample_ledger_def)

text \<open>
  C3. A granted reservation is the prompt estimate plus an output cap between the smaller of
  4096 and the request, and the request; it adds exactly that amount to every ancestor without
  wrap-around, and leaves every one of them open and within its limit.
\<close>
theorem reserve_within_every_limit:
  assumes "ledger_inv s" "reserve s node prompt requested = Some (Inr r, s')"
    "i \<in> set (anc (lg_scopes s) node)"
  shows "unat (rv_tokens r) = unat prompt + unat (rv_max_tokens r)
    \<and> min 4096 (unat requested) \<le> unat (rv_max_tokens r) \<and> rv_max_tokens r \<le> requested
    \<and> unat (bs_reserved (sc_budget (lg_scopes s' ! i)))
        = unat (bs_reserved (sc_budget (lg_scopes s ! i))) + unat (rv_tokens r)
    \<and> \<not> bs_closed (sc_budget (lg_scopes s' ! i))
    \<and> unat (bs_used (sc_budget (lg_scopes s' ! i))) + unat (bs_reserved (sc_budget (lg_scopes s' ! i)))
        \<le> unat (bs_limit (sc_budget (lg_scopes s ! i)))"
proof -
  note d = reserve_InrD [OF assms(2,1)] and b = reserve_budget [OF assms]
  note g = granted_fits [OF assms(3) d(1) refl d(3,4)]
  have cap: "unat (rv_max_tokens r) \<le> unat requested"
    using d(5) by (simp add: unat_output_cap)
  have "min 4096 (unat requested) \<le> unat (rv_max_tokens r)"
    using d(3) unfolding d(5) word_less_nat_alt
    by (auto simp: unat_min MIN_OUTPUT_TOKENS_def)
  then show ?thesis using g(1) d(5) b cap by (simp add: word_le_nat_alt)
qed

definition sample_reserved :: ledger where
  "sample_reserved = (case reserve sample_ledger 1 200 5000 of Some (_, s) \<Rightarrow> s | None \<Rightarrow> sample_ledger)"

lemma sample_reserve:
  "reserve sample_ledger 1 200 5000
     = Some (Inr \<lparr>rv_id = 1, rv_tokens = 5200, rv_max_tokens = 5000\<rparr>, sample_reserved)"
  by (simp add: sample_reserved_def sample_ledger_def sample_child_def ledger_eval)

theorem reserve_within_every_limit_witness:
  "unat (bs_reserved (sc_budget (lg_scopes sample_reserved ! 0)))
     = unat (bs_reserved (sc_budget (lg_scopes sample_ledger ! 0))) + 5200"
  using reserve_within_every_limit [OF sample_inv sample_reserve, of 0] by (simp add: sample_anc [simplified])

text \<open>
  C4. `reserve` grants exactly when the output cap asked for is positive, the node still admits
  requests and the smallest headroom on its path covers the prompt estimate and the smaller of
  4096 and the cap; otherwise it reports which of the three failed, and a refusal leaves the
  ledger as it was.
\<close>
theorem reserve_outcome:
  assumes "ledger_inv s"
  shows "\<exists>r s'. reserve s node prompt requested = Some (r, s') \<and>
    (let room = headroom (lg_scopes s) (anc (lg_scopes s) node) in
      (if requested = 0 then r = Inl MaxTokensZero
       else if \<not> admissible (lg_scopes s) node then r = Inl NodeShutDown
       else if unat room < unat prompt + min 4096 (unat requested) then r = Inl BudgetExhausted
       else \<not> isl r) \<and>
      (if isl r then s' = s else length (lg_attempts s') = length (lg_attempts s) + 1))"
proof -
  let ?room = "headroom (lg_scopes s) (anc (lg_scopes s) node)"
  let ?cap = "output_cap ?room prompt requested"
  have fresh: "map_of (lg_attempts s) (lg_next_attempt s) = None"
    using ledger_invD(6) [OF assms] by (fastforce simp: inv_attempts_def map_of_eq_None_iff)
  have guard: "(?cap < min MIN_OUTPUT_TOKENS requested \<or> ?room < prompt) \<longleftrightarrow>
      unat ?room < unat prompt + min 4096 (unat requested)" if "requested \<noteq> 0"
  proof -
    have "0 < unat requested" using that unat_eq_zero_iff by (metis neq0_conv)
    then show ?thesis unfolding word_less_nat_alt unat_output_cap
      by (auto simp: unat_min MIN_OUTPUT_TOKENS_def)
  qed
  show ?thesis
    using inv_path [OF assms, of node] guard fresh
    by (auto simp: reserve_def Let_def admissible_def alist_update_fresh)
qed

theorem reserve_outcome_witness:
  "\<exists>r s'. reserve sample_ledger 1 6000 4096 = Some (r, s') \<and> r = Inl BudgetExhausted \<and> s' = sample_ledger"
proof -
  have "admissible (lg_scopes sample_ledger) 1"
    "unat (headroom (lg_scopes sample_ledger) (anc (lg_scopes sample_ledger) 1)) = 5804"
    unfolding sample_anc by (simp_all add: sample_ledger_def sample_child_def ledger_eval)
  with reserve_outcome [OF sample_inv, of 1 6000 4096] show ?thesis by (auto simp: Let_def)
qed

text \<open>
  C5. A settlement takes the attempt's tokens back from exactly the node and its ancestors, adds
  the charge and the usage there and nowhere else, books the node's own usage, and closes a
  scope exactly when what it has used and still holds exceeds its limit; the attempt is gone.
\<close>
theorem settle_exact:
  assumes "ledger_inv s" "settle s r c = Some (st, s')"
    "map_of (lg_attempts s) (rv_id r) = Some (node, tokens)" "i < length (lg_scopes s)"
  shows "(let (charged, u) = charge_of tokens c;
             b = sc_budget (lg_scopes s ! i); b' = sc_budget (lg_scopes s' ! i);
             on = i \<in> set (anc (lg_scopes s) node) in
           st = \<lparr>st_charged = charged, st_excess = sat_sub charged tokens\<rparr>
         \<and> unat (bs_reserved b') + (if on then unat tokens else 0) = unat (bs_reserved b)
         \<and> bs_used b' = bs_used b + (if on then charged else 0)
         \<and> bs_closed b' = (bs_closed b \<or> on \<and> bs_limit b < sat_add (bs_used b') (bs_reserved b'))
         \<and> sc_usage (lg_scopes s' ! i)
             = usage_add (sc_usage (lg_scopes s ! i)) (if on then u else usage_default)
         \<and> sc_own (lg_scopes s' ! i)
             = usage_add (sc_own (lg_scopes s ! i)) (if i = node then u else usage_default)
         \<and> map_of (lg_attempts s') (rv_id r) = None)"
proof (rule settle_SomeD [OF assms(2,1)])
  fix n t
  assume m: "map_of (lg_attempts s) (rv_id r) = Some (n, t)"
    and st: "st = \<lparr>st_charged = fst (charge_of t c), st_excess = sat_sub (fst (charge_of t c)) t\<rparr>"
    and b: "\<And>i. i < length (lg_scopes s) \<Longrightarrow> sc_budget (lg_scopes s' ! i) =
       sc_budget (if i \<in> set (anc (lg_scopes s) n)
         then release t (fst (charge_of t c)) (snd (charge_of t c)) (lg_scopes s ! i)
         else lg_scopes s ! i)"
    and u: "\<And>i. i < length (lg_scopes s) \<Longrightarrow> sc_usage (lg_scopes s' ! i) =
       (if i \<in> set (anc (lg_scopes s) n) then usage_add (sc_usage (lg_scopes s ! i)) (snd (charge_of t c))
        else sc_usage (lg_scopes s ! i))"
    and o: "\<And>i. i < length (lg_scopes s) \<Longrightarrow> sc_own (lg_scopes s' ! i) =
       (if i = n then usage_add (sc_own (lg_scopes s ! i)) (snd (charge_of t c))
        else sc_own (lg_scopes s ! i))"
    and s': "s' = s\<lparr>lg_scopes := lg_scopes s', lg_attempts := AList.delete (rv_id r) (lg_attempts s)\<rparr>"
  have nt: "n = node" "t = tokens" using m assms(3) by simp_all
  have dis: "distinct (map fst (lg_attempts s))"
    using ledger_invD(6) [OF assms(1)] by (simp add: inv_attempts_def)
  have "unat tokens \<le> unat (bs_reserved (sc_budget (lg_scopes s ! i)))" if "i \<in> set (anc (lg_scopes s) node)"
    using ledger_invD(4) [OF assms(1)] assms(4) held_delete [OF dis assms(3), of "lg_scopes s" i] that
    by (simp add: inv_reserved_def)
  then have r: "unat (bs_reserved (sc_budget (lg_scopes s' ! i)))
      + (if i \<in> set (anc (lg_scopes s) node) then unat tokens else 0)
      = unat (bs_reserved (sc_budget (lg_scopes s ! i)))"
    using b [OF assms(4)] nt by (simp add: unat_sub word_le_nat_alt)
  have att: "map_of (lg_attempts s') (rv_id r) = None"
    by (subst s') (simp add: delete_conv)
  show ?thesis
    using r att st b [OF assms(4)] u [OF assms(4)] o [OF assms(4)] nt
    by (cases "charge_of tokens c") auto
qed

definition sample_reservation :: reservation where
  "sample_reservation = \<lparr>rv_id = 0, rv_tokens = 4196, rv_max_tokens = 4096\<rparr>"

definition sample_usage :: usage where
  "sample_usage = \<lparr>input_tokens = 9000, output_tokens = 2000, cache_creation_input_tokens = 0,
     cache_read_input_tokens = 0\<rparr>"

definition sample_settled :: ledger where
  "sample_settled = (case settle sample_ledger sample_reservation (ChargeUsage sample_usage) of
     Some (_, s) \<Rightarrow> s | None \<Rightarrow> sample_ledger)"

lemma sample_settle: "settle sample_ledger sample_reservation (ChargeUsage sample_usage)
    = Some (\<lparr>st_charged = 11000, st_excess = 6804\<rparr>, sample_settled)"
  by (simp add: sample_settled_def sample_ledger_def sample_child_def settle_def sample_reservation_def
      sample_usage_def usage_total_def ledger_eval)

text \<open>The charge above its estimate closes the child's scope and leaves the root open.\<close>

theorem settle_exact_witness:
  "bs_closed (sc_budget (lg_scopes sample_settled ! 1))
    \<and> map_of (lg_attempts sample_settled) 0 = None"
proof -
  have "map_of (lg_attempts sample_ledger) (rv_id sample_reservation) = Some (1, 4196)"
    "1 < length (lg_scopes sample_ledger)" "bs_limit (sc_budget (lg_scopes sample_ledger ! 1)) = 10000"
    "bs_used (sc_budget (lg_scopes sample_ledger ! 1)) = 0"
    "bs_reserved (sc_budget (lg_scopes sample_ledger ! 1)) = 4196"
    "charge_of 4196 (ChargeUsage sample_usage) = (11000, sample_usage)"
    "rv_id sample_reservation = 0"
    by (simp_all add: sample_ledger_def sample_reservation_def sample_child_def sample_usage_def
        usage_total_def)
  with settle_exact [OF sample_inv sample_settle this(1,2)] show ?thesis
    by (auto simp: Let_def word_less_nat_alt sat_simps)
qed

text \<open>
  C6. A reservation that is settled with a zero charge leaves no trace: every scope and the table
  of attempts are what they were before the reservation, and settling it again is a panic.
\<close>
theorem reserve_settle_zero_restores:
  assumes "ledger_inv s" "lg_next_attempt s \<noteq> - 1"
    "reserve s node prompt requested = Some (Inr r, s1)"
  shows "\<exists>st s2. settle s1 r (ChargeFailed Zero) = Some (st, s2) \<and> st_charged st = 0
    \<and> lg_scopes s2 = lg_scopes s \<and> lg_attempts s2 = lg_attempts s
    \<and> (\<forall>c. settle s2 r c = None)"
proof -
  note d = reserve_InrD [OF assms(3,1)] and I = ledger_invD [OF assms(1)]
  have inv1: "ledger_inv s1" using reserve_inv assms by blast
  have n: "node < length (lg_scopes s)" using d(2) by (simp add: admissible_def)
  have fresh: "map_of (lg_attempts s) (lg_next_attempt s) = None"
    using I(6) by (fastforce simp: inv_attempts_def map_of_eq_None_iff)
  have att: "lg_attempts s1 = lg_attempts s @ [(rv_id r, node, rv_tokens r)]"
    using d(5,6) fresh by (simp add: alist_update_fresh)
  then have m: "map_of (lg_attempts s1) (rv_id r) = Some (node, rv_tokens r)"
    using fresh d(5) by (simp add: map_add_def)
  then obtain st s2 where s2: "settle s1 r (ChargeFailed Zero) = Some (st, s2)"
    using settle_total [OF inv1, of r "ChargeFailed Zero"] by auto
  have scs1: "lg_scopes s1 = update_path (hold (rv_tokens r)) (anc (lg_scopes s) node) (lg_scopes s)"
    using d(5,6) by simp
  have same1: "same_nodes (lg_scopes s1) (lg_scopes s)" unfolding scs1
    using n by (intro same_nodes_update_path) simp_all
  have anc1: "anc (lg_scopes s1) node = anc (lg_scopes s) node" using same1 n by (rule same_nodes_anc)
  have up: "lg_scopes s2 = (let scs = update_path (release (rv_tokens r) 0 usage_default)
      (anc (lg_scopes s) node) (lg_scopes s1) in scs[node := add_own usage_default (scs ! node)])"
    and att2: "lg_attempts s2 = AList.delete (rv_id r) (lg_attempts s1)"
    and st: "st_charged st = 0"
    using s2 m inv_path [OF inv1, of node] n scs1 anc1 by (auto simp: settle_def Let_def)
  have own: "add_own usage_default x = x" for x by (simp add: add_own_def)
  have undo: "release (rv_tokens r) 0 usage_default (hold (rv_tokens r) (lg_scopes s ! i)) = lg_scopes s ! i"
    if i: "i \<in> set (anc (lg_scopes s) node)" for i
  proof -
    let ?b = "sc_budget (lg_scopes s ! i)"
    have "i < length (lg_scopes s)" using anc_le [OF i] n by simp
    then have "lg_scopes s1 ! i = hold (rv_tokens r) (lg_scopes s ! i)"
      using i n by (simp add: scs1 nth_update_anc)
    with reserve_budget [OF assms(1,3) i]
    have "\<not> bs_limit ?b < sat_add (bs_used ?b) (bs_reserved ?b)"
      unfolding word_less_nat_alt unat_sat_add by auto
    then show ?thesis by (simp add: release_def hold_def Let_def)
  qed
  have "lg_scopes s2 = lg_scopes s"
  proof (rule nth_equalityI)
    fix i assume "i < length (lg_scopes s2)"
    then have i: "i < length (lg_scopes s)" by (simp add: up Let_def scs1)
    have "lg_scopes s2 ! i = update_path (release (rv_tokens r) 0 usage_default)
        (anc (lg_scopes s1) node) (lg_scopes s1) ! i"
      by (simp add: up Let_def own anc1)
    also have "\<dots> = lg_scopes s ! i"
      using i n by (subst nth_update_anc) (simp_all add: scs1 nth_update_anc anc1 [unfolded scs1] undo)
    finally show "lg_scopes s2 ! i = lg_scopes s ! i" .
  qed (simp add: up Let_def scs1)
  moreover have "lg_attempts s2 = lg_attempts s"
    using fresh d(5) by (force simp: att2 att AList.delete_eq map_of_eq_None_iff intro!: filter_True)
  moreover have "settle s2 r c = None" for c
    by (simp add: settle_def att2 delete_conv)
  ultimately show ?thesis using s2 st by blast
qed

theorem reserve_settle_zero_restores_witness:
  "\<exists>st s2. settle sample_reserved \<lparr>rv_id = 1, rv_tokens = 5200, rv_max_tokens = 5000\<rparr>
     (ChargeFailed Zero) = Some (st, s2) \<and> lg_scopes s2 = lg_scopes sample_ledger"
  using reserve_settle_zero_restores [OF sample_inv _ sample_reserve]
  by (auto simp: sample_ledger_def)

text \<open>
  C7. Exhaustion is final: whatever operations follow, a scope that a settlement closed stays
  closed, and from then on every reservation and every admission below it is refused.
\<close>
theorem closed_scope_stays_closed:
  assumes "ledger_inv s" "ledger_steps s ops = Some s'"
    "unat (lg_next_attempt s) + length ops < 2 ^ 64"
    "n < length (lg_scopes s)" "i \<in> set (anc (lg_scopes s) n)" "bs_closed (sc_budget (lg_scopes s ! i))"
  shows "bs_closed (sc_budget (lg_scopes s' ! i))
    \<and> (\<exists>e. reserve s' n prompt requested = Some (Inl e, s'))
    \<and> (\<exists>e. admit s' n agent limit = Some (Inl e, s'))"
proof -
  have le: "ledger_le s s'" by (rule ledger_steps_le [OF assms(1,2,3)])
  have inv: "ledger_inv s'" using ledger_steps_inv [OF assms(1,2,3)] by simp
  have i: "i < length (lg_scopes s)" using anc_le [OF assms(5)] assms(4) by simp
  have cl: "bs_closed (sc_budget (lg_scopes s' ! i))" using ledger_leD(3) [OF le i assms(6)] .
  have anc: "i \<in> set (anc (lg_scopes s') n)" using assms(5) ledger_le_anc [OF le assms(4)] by simp
  obtain r t where r: "reserve s' n prompt requested = Some (r, t)" using reserve_total [OF inv] by blast
  obtain q u where q: "admit s' n agent limit = Some (q, u)" using admit_total [OF inv] by blast
  from closed_blocks_reserve [OF inv anc cl r] obtain e where "r = Inl e" by (cases r) auto
  moreover from closed_blocks_admit [OF inv anc cl q] obtain e where "q = Inl e" by (cases q) auto
  ultimately show ?thesis using cl r q reserve_Inl_same admit_Inl_same by blast
qed

theorem closed_scope_stays_closed_witness:
  "\<exists>e. reserve sample_settled 1 0 1 = Some (Inl e, sample_settled)"
proof -
  have inv: "ledger_inv sample_settled" by (rule settle_inv [OF sample_inv sample_settle])
  have ev: "1 < length (lg_scopes sample_settled)"
    "bs_closed (sc_budget (lg_scopes sample_settled ! 1))" "lg_next_attempt sample_settled = 1"
    by (simp_all add: sample_settled_def sample_ledger_def sample_child_def settle_def
        sample_reservation_def sample_usage_def usage_total_def ledger_eval release_def add_own_def)
  show ?thesis
    using closed_scope_stays_closed [OF inv, of "[]" _ 1 1 0 1 True None] ev by simp
qed

end
