(* ===== verification/Mailbox.thy ===== *)
theory Mailbox
  imports Ledger
begin

text \<open>
  Agent mailboxes of `crates/core/src/messages.rs`: envelopes and their rendering, the delivery
  scan `take`, and every operation of a mailbox on its locked state.  A `BTreeSet` is a set, the
  per-sender counters of a batch are a map, and the watch counter that only wakes waiters is
  left out.  A subtraction of `usize` that would underflow is a panic, `None`.
\<close>

section \<open>Envelopes\<close>

datatype status =
    Completed | MaxTurns | BudgetExhaustedStatus | Timeout | ContextExhausted | CancelledStatus
  | Refused | Failed | Interrupted

fun status_str :: "status \<Rightarrow> string" where
  "status_str Completed = ''completed''"
| "status_str MaxTurns = ''max_turns''"
| "status_str BudgetExhaustedStatus = ''budget_exhausted''"
| "status_str Timeout = ''timeout''"
| "status_str ContextExhausted = ''context_exhausted''"
| "status_str CancelledStatus = ''cancelled''"
| "status_str Refused = ''refused''"
| "status_str Failed = ''failed''"
| "status_str Interrupted = ''interrupted''"

datatype message_kind = KMessage | KResult | KError | KCancelled

fun for_status :: "status \<Rightarrow> message_kind" where
  "for_status Completed = KResult"
| "for_status CancelledStatus = KCancelled"
| "for_status _ = KError"

fun kind_str :: "message_kind \<Rightarrow> string" where
  "kind_str KMessage = ''message''"
| "kind_str KResult = ''result''"
| "kind_str KError = ''error''"
| "kind_str KCancelled = ''cancelled''"

datatype delivery = Turn | Receive | Wait | CancelCall

record envelope =
  env_id :: u64
  env_from :: node_id
  env_to :: node_id
  env_kind :: message_kind
  env_body :: string
  env_sent_at :: nat
  env_spawn :: "node_id option"
  env_status :: "status option"

definition render_with :: "message_kind \<Rightarrow> node_id \<Rightarrow> string \<Rightarrow> status option \<Rightarrow> string \<Rightarrow> string" where
  "render_with kind from sender status body =
     ''['' @ kind_str kind @ '' from agent '' @ show_nat from
     @ (if sender = [] then [] else '' ('' @ sender @ '')'')
     @ (case status of None \<Rightarrow> [] | Some st \<Rightarrow> '': '' @ status_str st)
     @ '']''
     @ (if body = [] then [] else CHR 0x0A # body)"

definition render :: "envelope \<Rightarrow> string \<Rightarrow> string" where
  "render e sender = render_with (env_kind e) (env_from e) sender (env_status e) (env_body e)"

definition more_note :: "nat \<Rightarrow> string" where
  "more_note count =
     (if count = 1 then ''1 more message waiting; it follows at your next turn''
      else show_nat count @ '' more messages waiting; they follow at your next turn'')"

definition deferred_note :: "node_id \<Rightarrow> nat \<Rightarrow> string \<Rightarrow> string" where
  "deferred_note agent count lst =
     (if count = 1
      then ''agent '' @ show_nat agent @ '' finished, but its '' @ lst
        @ '' did not fit; it follows at your next turn''
      else ''agent '' @ show_nat agent @ '' finished, but '' @ show_nat count
        @ '' of its messages, its '' @ lst
        @ '' last, did not fit; they follow at your next turn'')"

section \<open>State\<close>

record mailbox =
  mb_queue :: "envelope list"
  mb_plain :: nat
  mb_reserved :: nat
  mb_awaiting :: "node_id set"
  mb_closed :: bool
  mb_turn :: nat
  mb_concluded :: "node_id set"
  mb_seen :: "node_id set"

definition mailbox_new :: mailbox where
  "mailbox_new = \<lparr>mb_queue = [], mb_plain = 0, mb_reserved = 0, mb_awaiting = {},
     mb_closed = False, mb_turn = 0, mb_concluded = {}, mb_seen = {}\<rparr>"

record batch =
  bt_taken :: "envelope list"
  bt_left :: "node_id \<rightharpoonup> nat"
  bt_queued :: nat

datatype refusal_mb = Full | Closed

datatype idle = Deliver batch | IdleWait | Done

definition usize_sub :: "nat \<Rightarrow> nat \<Rightarrow> nat option" where
  "usize_sub a b = (if b \<le> a then Some (a - b) else None)"

section \<open>The delivery scan\<close>

record scan =
  sn_taken :: "envelope list"
  sn_left :: "node_id \<rightharpoonup> nat"
  sn_rest :: "envelope list"
  sn_used :: nat
  sn_full :: bool

definition bump :: "node_id \<Rightarrow> (node_id \<rightharpoonup> nat) \<Rightarrow> (node_id \<rightharpoonup> nat)" where
  "bump n m = m(n \<mapsto> (case m n of None \<Rightarrow> 1 | Some k \<Rightarrow> k + 1))"

definition scan_step ::
    "bool \<Rightarrow> nat \<Rightarrow> (envelope \<Rightarrow> bool) \<Rightarrow> (envelope \<Rightarrow> nat) \<Rightarrow> envelope \<Rightarrow> scan \<Rightarrow> scan" where
  "scan_step fresh budget pick sz e sc =
     (if pick e then
        if \<not> sn_full sc \<and> (fresh \<and> sn_taken sc = [] \<or> sn_used sc + sz e \<le> budget)
        then sc\<lparr>sn_used := sn_used sc + sz e, sn_taken := sn_taken sc @ [e]\<rparr>
        else sc\<lparr>sn_full := True, sn_left := bump (env_from e) (sn_left sc), sn_rest := sn_rest sc @ [e]\<rparr>
      else sc\<lparr>sn_rest := sn_rest sc @ [e]\<rparr>)"

definition scan_queue ::
    "mailbox \<Rightarrow> nat \<Rightarrow> (envelope \<Rightarrow> bool) \<Rightarrow> (envelope \<Rightarrow> nat) \<Rightarrow> scan" where
  "scan_queue mb budget pick sz =
     fold (scan_step (mb_turn mb = 0) budget pick sz) (mb_queue mb)
       \<lparr>sn_taken = [], sn_left = Map.empty, sn_rest = [], sn_used = mb_turn mb, sn_full = False\<rparr>"

definition is_plain :: "envelope \<Rightarrow> bool" where
  "is_plain e = (env_kind e = KMessage)"

definition take_batch ::
    "mailbox \<Rightarrow> nat \<Rightarrow> (envelope \<Rightarrow> bool) \<Rightarrow> (envelope \<Rightarrow> nat) \<Rightarrow> (batch \<times> mailbox) option" where
  "take_batch mb budget pick sz =
     (let sc = scan_queue mb budget pick sz in
      case usize_sub (mb_plain mb) (length (filter is_plain (sn_taken sc))) of
        None \<Rightarrow> None
      | Some plain \<Rightarrow>
          Some (\<lparr>bt_taken = sn_taken sc, bt_left = sn_left sc, bt_queued = length (sn_rest sc)\<rparr>,
            mb\<lparr>mb_queue := sn_rest sc, mb_turn := sn_used sc, mb_plain := plain,
              mb_seen := mb_seen mb \<union> env_from ` set (filter (\<lambda>e. \<not> is_plain e) (sn_taken sc))\<rparr>))"

section \<open>Operations\<close>

definition mb_reserve :: "mailbox \<Rightarrow> nat \<Rightarrow> (refusal_mb + unit) \<times> mailbox" where
  "mb_reserve mb capacity =
     (if mb_closed mb then (Inl Closed, mb)
      else if capacity \<le> mb_plain mb + mb_reserved mb then (Inl Full, mb)
      else (Inr (), mb\<lparr>mb_reserved := mb_reserved mb + 1\<rparr>))"

definition mb_expect :: "mailbox \<Rightarrow> node_id \<Rightarrow> mailbox" where
  "mb_expect mb child = mb\<lparr>mb_awaiting := insert child (mb_awaiting mb)\<rparr>"

definition mb_push :: "mailbox \<Rightarrow> envelope \<Rightarrow> ((envelope + unit) \<times> mailbox) option" where
  "mb_push mb e =
     (let cleared = (if is_plain e
            then map_option (\<lambda>r. mb\<lparr>mb_reserved := r\<rparr>) (usize_sub (mb_reserved mb) 1)
            else Some (mb\<lparr>mb_awaiting := mb_awaiting mb - {env_from e},
                          mb_concluded := insert (env_from e) (mb_concluded mb)\<rparr>))
      in case cleared of
           None \<Rightarrow> None
         | Some mb' \<Rightarrow>
             if mb_closed mb' then Some (Inl e, mb')
             else Some (Inr (), mb'\<lparr>mb_plain := mb_plain mb' + of_bool (is_plain e),
                                   mb_queue := mb_queue mb' @ [e]\<rparr>))"

definition mb_is_concluded :: "mailbox \<Rightarrow> node_id \<Rightarrow> bool" where
  "mb_is_concluded mb child = (child \<in> mb_concluded mb)"

definition mb_stage :: "mailbox \<Rightarrow> node_id \<Rightarrow> bool \<times> mailbox" where
  "mb_stage mb agent =
     (if mb_closed mb \<or> agent \<in> mb_awaiting mb \<or> agent \<in> mb_concluded mb then (False, mb)
      else (True, mb\<lparr>mb_concluded := insert agent (mb_concluded mb),
                     mb_awaiting := insert agent (mb_awaiting mb)\<rparr>))"

definition mb_has_seen :: "mailbox \<Rightarrow> node_id \<Rightarrow> bool" where
  "mb_has_seen mb agent = (agent \<in> mb_seen mb)"

definition mb_saw :: "mailbox \<Rightarrow> node_id \<Rightarrow> mailbox" where
  "mb_saw mb agent = mb\<lparr>mb_seen := insert agent (mb_seen mb)\<rparr>"

definition mb_charge :: "mailbox \<Rightarrow> nat \<Rightarrow> nat \<Rightarrow> bool \<times> mailbox" where
  "mb_charge mb cost budget =
     (if 0 < mb_turn mb \<and> budget < mb_turn mb + cost then (False, mb)
      else (True, mb\<lparr>mb_turn := mb_turn mb + cost\<rparr>))"

definition mb_new_turn :: "mailbox \<Rightarrow> mailbox" where
  "mb_new_turn mb = mb\<lparr>mb_turn := 0\<rparr>"

definition mb_idle :: "mailbox \<Rightarrow> bool \<Rightarrow> nat \<Rightarrow> (envelope \<Rightarrow> nat) \<Rightarrow> (idle \<times> mailbox) option" where
  "mb_idle mb close budget sz =
     (if mb_queue mb \<noteq> []
      then map_option (\<lambda>(b, mb'). (Deliver b, mb')) (take_batch mb budget (\<lambda>_. True) sz)
      else if mb_awaiting mb = {} \<and> mb_reserved mb = 0
      then Some (Done, mb\<lparr>mb_closed := (mb_closed mb \<or> close)\<rparr>)
      else Some (IdleWait, mb))"

definition mb_close :: "mailbox \<Rightarrow> envelope list \<times> mailbox" where
  "mb_close mb = (mb_queue mb, mb\<lparr>mb_closed := True, mb_plain := 0, mb_queue := []\<rparr>)"

definition mb_is_closed :: "mailbox \<Rightarrow> bool" where
  "mb_is_closed mb = mb_closed mb"

definition mb_len :: "mailbox \<Rightarrow> nat" where
  "mb_len mb = length (mb_queue mb)"

definition mb_is_awaiting :: "mailbox \<Rightarrow> node_id \<Rightarrow> bool" where
  "mb_is_awaiting mb child = (child \<in> mb_awaiting mb)"

definition mb_outstanding :: "mailbox \<Rightarrow> node_id set" where
  "mb_outstanding mb =
     env_from ` set (filter (\<lambda>e. \<not> is_plain e) (mb_queue mb)) \<union> mb_awaiting mb"

end
