(* ===== verification/Fifo_Store.thy ===== *)
theory Fifo_Store
  imports Prelude "HOL-Library.Multiset"
begin

text \<open>
  The interface between agents and what they queue: a store accepts items and hands items out,
  keeps the order of the items of each key, and never gets stuck on a valid operation.  The
  lemmas proved from the three laws hold for every run of every store; the mailbox interprets
  the locale with the sender as key.
\<close>

fun run_ops ::
    "('s \<Rightarrow> 'o \<Rightarrow> ('e list \<times> 'e list \<times> 's) option) \<Rightarrow> ('s \<Rightarrow> 'o \<Rightarrow> bool) \<Rightarrow> 's \<Rightarrow> 'o list
      \<Rightarrow> ('e list \<times> 'e list \<times> 's) option" where
  "run_ops step valid s [] = Some ([], [], s)"
| "run_ops step valid s (x # xs) =
     (if valid s x then
        case step s x of
          None \<Rightarrow> None
        | Some (ins, outs, s') \<Rightarrow>
            map_option (\<lambda>(is, os, t). (ins @ is, outs @ os, t)) (run_ops step valid s' xs)
      else None)"

lemma same_filters_mset:
  assumes "\<And>k. filter (\<lambda>e. key e = k) xs = filter (\<lambda>e. key e = k) ys"
  shows "mset xs = mset ys"
proof (rule multiset_eqI)
  fix x
  have "count (mset zs) x = count (mset (filter (\<lambda>e. key e = key x) zs)) x" for zs by simp
  then show "count (mset xs) x = count (mset ys) x" using assms by metis
qed

locale fifo_store =
  fixes items :: "'s \<Rightarrow> 'e list"
    and key :: "'e \<Rightarrow> 'k"
    and ok :: "'s \<Rightarrow> bool"
    and valid :: "'s \<Rightarrow> 'o \<Rightarrow> bool"
    and step :: "'s \<Rightarrow> 'o \<Rightarrow> ('e list \<times> 'e list \<times> 's) option"
  assumes ok_step: "ok s \<Longrightarrow> valid s x \<Longrightarrow> step s x = Some (ins, outs, s') \<Longrightarrow> ok s'"
    and progress: "ok s \<Longrightarrow> valid s x \<Longrightarrow> step s x \<noteq> None"
    and order: "ok s \<Longrightarrow> valid s x \<Longrightarrow> step s x = Some (ins, outs, s') \<Longrightarrow>
      filter (\<lambda>e. key e = k) (items s @ ins) = filter (\<lambda>e. key e = k) (outs @ items s')"
begin

lemma run_ok: "run_ops step valid s xs = Some (ins, outs, s') \<Longrightarrow> ok s \<Longrightarrow> ok s'"
proof (induction xs arbitrary: s ins outs)
  case (Cons x xs)
  then show ?case by (fastforce split: if_splits option.splits intro: ok_step)
qed simp

lemma run_order:
  "run_ops step valid s xs = Some (ins, outs, s') \<Longrightarrow> ok s \<Longrightarrow>
    filter (\<lambda>e. key e = k) (items s @ ins) = filter (\<lambda>e. key e = k) (outs @ items s')"
proof (induction xs arbitrary: s ins outs)
  case (Cons x xs)
  from Cons.prems obtain i1 o1 s1 i2 o2 where v: "valid s x" and s: "step s x = Some (i1, o1, s1)"
    and r: "run_ops step valid s1 xs = Some (i2, o2, s')" and io: "ins = i1 @ i2" "outs = o1 @ o2"
    by (auto split: if_splits option.splits)
  have "filter (\<lambda>e. key e = k) (items s1 @ i2) = filter (\<lambda>e. key e = k) (o2 @ items s')"
    by (rule Cons.IH [OF r ok_step [OF Cons.prems(2) v s]])
  moreover have "filter (\<lambda>e. key e = k) (items s @ i1) = filter (\<lambda>e. key e = k) (o1 @ items s1)"
    by (rule order [OF Cons.prems(2) v s])
  ultimately show ?case unfolding io filter_append by (metis append.assoc)
qed simp

lemma run_conserves:
  assumes "run_ops step valid s xs = Some (ins, outs, s')" "ok s"
  shows "mset (items s) + mset ins = mset outs + mset (items s')"
  using same_filters_mset [where key = key, OF run_order [OF assms]] by simp

end

end
