(* ===== verification/Mailbox_Inv.thy ===== *)
theory Mailbox_Inv
  imports Mailbox Fifo_Store
begin

text \<open>
  Lemmas about the mailbox: the delivery scan hands over the longest affordable prefix of what
  was selected and keeps the rest in order; the invariant of the counters; and the locale
  `fifo_store` of stores that conserve what they accept in order per key, with its
  interpretation on the mailbox.
\<close>

section \<open>What a delivery takes\<close>

text \<open>Specification: the longest affordable prefix; the first message of a turn always goes.\<close>

fun fit :: "bool \<Rightarrow> nat \<Rightarrow> (envelope \<Rightarrow> nat) \<Rightarrow> nat \<Rightarrow> envelope list \<Rightarrow> envelope list" where
  "fit fresh budget sz used [] = []"
| "fit fresh budget sz used (e # es) =
     (if fresh \<or> used + sz e \<le> budget then e # fit False budget sz (used + sz e) es else [])"

lemma fit_prefix: "prefix (fit fresh budget sz used es) es"
  by (induction es arbitrary: fresh used) auto

lemma fit_split: "\<exists>rest. es = fit fresh budget sz used es @ rest"
  using fit_prefix [of fresh budget sz used es] by (auto simp: prefix_def)

lemma fit_take: "fit fresh budget sz used es = take (length (fit fresh budget sz used es)) es"
  using fit_split [of es fresh budget sz used] by (metis append_eq_conv_conj)

lemma fit_budget:
  "\<not> fresh \<Longrightarrow> used \<le> budget \<Longrightarrow> used + sum_list (map sz (fit fresh budget sz used es)) \<le> budget"
proof (induction es arbitrary: fresh used)
  case (Cons e es)
  then show ?case using Cons.IH [of False "used + sz e"] by (simp add: add.assoc)
qed simp

lemma fit_empty_over: "\<not> fresh \<Longrightarrow> budget < used \<Longrightarrow> fit fresh budget sz used es = []"
  by (cases es) auto

lemma fit_maximal:
  "length (fit fresh budget sz used es) < length es \<Longrightarrow>
    budget < used + sum_list (map sz (take (length (fit fresh budget sz used es) + 1) es))
    \<and> (fresh \<longrightarrow> fit fresh budget sz used es \<noteq> [])"
proof (induction es arbitrary: fresh used)
  case (Cons e es)
  then show ?case using Cons.IH [of False "used + sz e"] by (auto simp: add.assoc)
qed simp

definition left_count :: "(node_id \<rightharpoonup> nat) \<Rightarrow> node_id \<Rightarrow> nat" where
  "left_count m n = (case m n of None \<Rightarrow> 0 | Some k \<Rightarrow> k)"

lemma left_count_bump [simp]:
  "left_count (bump a m) n = left_count m n + (if n = a then 1 else 0)"
  by (simp add: left_count_def bump_def split: option.splits)

lemma left_count_empty [simp]: "left_count Map.empty n = 0"
  by (simp add: left_count_def)

lemma scan_fold_full:
  assumes "sn_full sc"
  shows "sn_taken (fold (scan_step fresh budget pick sz) q sc) = sn_taken sc"
    "sn_used (fold (scan_step fresh budget pick sz) q sc) = sn_used sc"
    "sn_rest (fold (scan_step fresh budget pick sz) q sc) = sn_rest sc @ q"
    "left_count (sn_left (fold (scan_step fresh budget pick sz) q sc)) n =
       left_count (sn_left sc) n + length (filter (\<lambda>e. pick e \<and> env_from e = n) q)"
  using assms by (induction q arbitrary: sc) (auto simp: scan_step_def)

text \<open>The scan over a whole queue, against the specification `fit`.\<close>

lemma scan_fold:
  fixes fresh budget pick sz sc n
  assumes "\<not> sn_full sc"
  defines "r \<equiv> \<lambda>q. fold (scan_step fresh budget pick sz) q sc"
  defines "f \<equiv> \<lambda>q. fit (fresh \<and> sn_taken sc = []) budget sz (sn_used sc) (filter pick q)"
  shows "sn_taken (r q) = sn_taken sc @ f q
    \<and> sn_used (r q) = sn_used sc + sum_list (map sz (f q))
    \<and> filter pick (sn_rest (r q)) = filter pick (sn_rest sc) @ drop (length (f q)) (filter pick q)
    \<and> filter (\<lambda>e. \<not> pick e) (sn_rest (r q)) =
        filter (\<lambda>e. \<not> pick e) (sn_rest sc) @ filter (\<lambda>e. \<not> pick e) q
    \<and> left_count (sn_left (r q)) n = left_count (sn_left sc) n
        + length (filter (\<lambda>e. env_from e = n) (drop (length (f q)) (filter pick q)))"
  unfolding r_def f_def using assms(1)
proof (induction q arbitrary: sc)
  case (Cons e q)
  consider (skip) "\<not> pick e"
    | (go) "pick e" "(fresh \<and> sn_taken sc = []) \<or> sn_used sc + sz e \<le> budget"
    | (stop) "pick e" "\<not> ((fresh \<and> sn_taken sc = []) \<or> sn_used sc + sz e \<le> budget)" by blast
  then show ?case
  proof cases
    case skip
    let ?sc = "sc\<lparr>sn_rest := sn_rest sc @ [e]\<rparr>"
    have "scan_step fresh budget pick sz e sc = ?sc" using skip by (simp add: scan_step_def)
    then show ?thesis using Cons.IH [of ?sc] Cons.prems skip by simp
  next
    case go
    let ?sc = "sc\<lparr>sn_used := sn_used sc + sz e, sn_taken := sn_taken sc @ [e]\<rparr>"
    have "scan_step fresh budget pick sz e sc = ?sc" using go Cons.prems by (simp add: scan_step_def)
    then show ?thesis using Cons.IH [of ?sc] Cons.prems go by simp
  next
    case stop
    let ?sc = "sc\<lparr>sn_full := True, sn_left := bump (env_from e) (sn_left sc), sn_rest := sn_rest sc @ [e]\<rparr>"
    have "scan_step fresh budget pick sz e sc = ?sc" using stop by (auto simp: scan_step_def)
    then show ?thesis using stop scan_fold_full [of ?sc fresh budget pick sz q] by (auto simp: conj_commute)
  qed
qed simp

definition delivered ::
    "mailbox \<Rightarrow> nat \<Rightarrow> (envelope \<Rightarrow> bool) \<Rightarrow> (envelope \<Rightarrow> nat) \<Rightarrow> envelope list" where
  "delivered mb budget pick sz =
     fit (mb_turn mb = 0) budget sz (mb_turn mb) (filter pick (mb_queue mb))"

lemma scan_queue_spec:
  fixes mb budget pick sz
  defines "sc \<equiv> scan_queue mb budget pick sz" and "t \<equiv> delivered mb budget pick sz"
  shows "sn_taken sc = t" "sn_used sc = mb_turn mb + sum_list (map sz t)"
    "filter pick (mb_queue mb) = t @ filter pick (sn_rest sc)"
    "filter (\<lambda>e. \<not> pick e) (sn_rest sc) = filter (\<lambda>e. \<not> pick e) (mb_queue mb)"
    "left_count (sn_left sc) n = length (filter (\<lambda>e. env_from e = n) (filter pick (sn_rest sc)))"
proof -
  let ?sc = "\<lparr>sn_taken = [], sn_left = Map.empty, sn_rest = [], sn_used = mb_turn mb, sn_full = False\<rparr>"
  note s = scan_fold [of ?sc "mb_turn mb = 0" budget pick sz "mb_queue mb" n]
  show "sn_taken sc = t" "sn_used sc = mb_turn mb + sum_list (map sz t)"
    "filter (\<lambda>e. \<not> pick e) (sn_rest sc) = filter (\<lambda>e. \<not> pick e) (mb_queue mb)"
    using s by (simp_all add: sc_def scan_queue_def t_def delivered_def)
  have rest: "filter pick (sn_rest sc) = drop (length t) (filter pick (mb_queue mb))"
    using s by (simp add: sc_def scan_queue_def t_def delivered_def)
  moreover have "t = take (length t) (filter pick (mb_queue mb))"
    unfolding t_def delivered_def by (rule fit_take)
  ultimately show "filter pick (mb_queue mb) = t @ filter pick (sn_rest sc)"
    by (metis append_take_drop_id)
  show "left_count (sn_left sc) n = length (filter (\<lambda>e. env_from e = n) (filter pick (sn_rest sc)))"
    unfolding rest using s by (simp add: sc_def scan_queue_def t_def delivered_def)
qed

lemma filter_mset_split: "mset xs = mset (filter P xs) + mset (filter (\<lambda>x. \<not> P x) xs)"
  by (induction xs) auto

lemma scan_conserves:
  "mset (delivered mb budget pick sz) + mset (sn_rest (scan_queue mb budget pick sz)) = mset (mb_queue mb)"
proof -
  note s = scan_queue_spec(3,4) [of pick mb budget sz]
  have "mset (mb_queue mb) = mset (filter pick (mb_queue mb)) + mset (filter (\<lambda>e. \<not> pick e) (mb_queue mb))"
    by (rule filter_mset_split)
  also have "\<dots> = mset (delivered mb budget pick sz)
      + (mset (filter pick (sn_rest (scan_queue mb budget pick sz)))
      + mset (filter (\<lambda>e. \<not> pick e) (sn_rest (scan_queue mb budget pick sz))))"
    using s by simp
  also have "\<dots> = mset (delivered mb budget pick sz) + mset (sn_rest (scan_queue mb budget pick sz))"
    using filter_mset_split [of "sn_rest (scan_queue mb budget pick sz)" pick] by simp
  finally show ?thesis by simp
qed

section \<open>The invariant\<close>

definition notices :: "mailbox \<Rightarrow> node_id list" where
  "notices mb = map env_from (filter (\<lambda>e. \<not> is_plain e) (mb_queue mb))"

definition mailbox_inv :: "nat \<Rightarrow> mailbox \<Rightarrow> bool" where
  "mailbox_inv cap mb = (
     mb_plain mb = length (filter is_plain (mb_queue mb)) \<and> mb_plain mb + mb_reserved mb \<le> cap \<and>
     distinct (notices mb) \<and> set (notices mb) \<inter> mb_awaiting mb = {} \<and>
     set (notices mb) \<subseteq> mb_concluded mb)"

lemma notices_update [simp]:
  "notices (mb\<lparr>mb_plain := p\<rparr>) = notices mb" "notices (mb\<lparr>mb_reserved := r\<rparr>) = notices mb"
  "notices (mb\<lparr>mb_awaiting := a\<rparr>) = notices mb" "notices (mb\<lparr>mb_closed := c\<rparr>) = notices mb"
  "notices (mb\<lparr>mb_turn := t\<rparr>) = notices mb" "notices (mb\<lparr>mb_concluded := d\<rparr>) = notices mb"
  "notices (mb\<lparr>mb_seen := e\<rparr>) = notices mb" "notices (mb\<lparr>mb_queue := []\<rparr>) = []"
  by (simp_all add: notices_def)

lemma mailbox_new_inv [simp]: "mailbox_inv cap mailbox_new"
  by (simp add: mailbox_inv_def mailbox_new_def notices_def)

lemma length_filter_mset: "length (filter P xs) = size (filter_mset P (mset xs))"
  by (metis mset_filter size_mset)

lemma count_taken:
  "length (filter P (mb_queue mb)) =
     length (filter P (delivered mb budget pick sz)) + length (filter P (sn_rest (scan_queue mb budget pick sz)))"
  unfolding length_filter_mset scan_conserves [symmetric, of mb budget pick sz] by simp

lemma take_batch_total:
  assumes "mailbox_inv cap mb"
  shows "\<exists>b mb'. take_batch mb budget pick sz = Some (b, mb')"
  using assms count_taken [of is_plain mb budget pick sz]
  by (auto simp: take_batch_def usize_sub_def scan_queue_spec(1) mailbox_inv_def Let_def split: option.splits)

lemma take_batch_SomeD:
  assumes "take_batch mb budget pick sz = Some (b, mb')"
  shows "bt_taken b = delivered mb budget pick sz"
    "mb_queue mb' = sn_rest (scan_queue mb budget pick sz)" "bt_queued b = length (mb_queue mb')"
    "bt_left b = sn_left (scan_queue mb budget pick sz)"
    "mb_turn mb' = mb_turn mb + sum_list (map sz (delivered mb budget pick sz))"
    "mb_plain mb = length (filter is_plain (delivered mb budget pick sz)) + mb_plain mb'"
    "mb_reserved mb' = mb_reserved mb" "mb_awaiting mb' = mb_awaiting mb" "mb_closed mb' = mb_closed mb"
    "mb_concluded mb' = mb_concluded mb"
    "mb_seen mb' = mb_seen mb \<union> env_from ` set (filter (\<lambda>e. \<not> is_plain e) (delivered mb budget pick sz))"
  using assms by (auto simp: take_batch_def usize_sub_def scan_queue_spec(1,2) Let_def
      split: option.splits if_splits)

lemma take_batch_inv:
  assumes inv: "mailbox_inv cap mb" and take: "take_batch mb budget pick sz = Some (b, mb')"
  shows "mailbox_inv cap mb'"
proof -
  note d = take_batch_SomeD [OF take]
  have p: "mb_plain mb' = length (filter is_plain (mb_queue mb'))"
    using inv count_taken [of is_plain mb budget pick sz] d(2,6) by (simp add: mailbox_inv_def)
  let ?t = "map env_from (filter (\<lambda>e. \<not> is_plain e) (bt_taken b))"
  have "mset (notices mb' @ ?t) = image_mset env_from (filter_mset (\<lambda>e. \<not> is_plain e) (mset (mb_queue mb)))"
    unfolding scan_conserves [symmetric, of mb budget pick sz]
    by (simp add: notices_def d(1,2) add.commute)
  then have n: "mset (notices mb' @ ?t) = mset (notices mb)" by (simp add: notices_def)
  then have "distinct (notices mb' @ ?t)"
    using inv mset_eq_imp_distinct_iff [OF n] by (simp add: mailbox_inv_def)
  then have "distinct (notices mb')" by simp
  moreover have "set (notices mb') \<subseteq> set (notices mb)"
    using mset_eq_setD [OF n] by auto
  ultimately show ?thesis
    using inv p d(6,7,8,10) unfolding mailbox_inv_def by auto
qed

section \<open>Runs of a mailbox\<close>

text \<open>The operations the runtime performs on one mailbox.  A delivery picks everything, or the
  messages of a set of senders; `sz` is the size of a message as rendered.\<close>

datatype mailbox_op =
    MReserve
  | MExpect node_id
  | MPush envelope
  | MStage node_id
  | MCharge nat
  | MSaw node_id
  | MNewTurn
  | MTake "node_id set option"
  | MIdle bool
  | MClose

definition picks :: "node_id set option \<Rightarrow> envelope \<Rightarrow> bool" where
  "picks who e = (case who of None \<Rightarrow> True | Some ids \<Rightarrow> env_from e \<in> ids)"

fun mb_step ::
    "nat \<Rightarrow> nat \<Rightarrow> (envelope \<Rightarrow> nat) \<Rightarrow> mailbox \<Rightarrow> mailbox_op
      \<Rightarrow> (envelope list \<times> envelope list \<times> mailbox) option" where
  "mb_step cap budget sz mb MReserve = Some ([], [], snd (mb_reserve mb cap))"
| "mb_step cap budget sz mb (MExpect c) = Some ([], [], mb_expect mb c)"
| "mb_step cap budget sz mb (MPush e) =
     (case mb_push mb e of None \<Rightarrow> None
      | Some (Inl _, mb') \<Rightarrow> Some ([], [], mb') | Some (Inr _, mb') \<Rightarrow> Some ([e], [], mb'))"
| "mb_step cap budget sz mb (MStage a) = Some ([], [], snd (mb_stage mb a))"
| "mb_step cap budget sz mb (MCharge cost) = Some ([], [], snd (mb_charge mb cost budget))"
| "mb_step cap budget sz mb (MSaw a) = Some ([], [], mb_saw mb a)"
| "mb_step cap budget sz mb MNewTurn = Some ([], [], mb_new_turn mb)"
| "mb_step cap budget sz mb (MTake who) =
     map_option (\<lambda>(b, mb'). ([], bt_taken b, mb')) (take_batch mb budget (picks who) sz)"
| "mb_step cap budget sz mb (MIdle close) =
     map_option (\<lambda>(i, mb'). ([], case i of Deliver b \<Rightarrow> bt_taken b | _ \<Rightarrow> [], mb'))
       (mb_idle mb close budget sz)"
| "mb_step cap budget sz mb MClose = (let (es, mb') = mb_close mb in Some ([], es, mb'))"

text \<open>Callers reserve before they push a plain message, expect or stage a child before they push
  its notice, and expect a child once, when it is spawned.\<close>

fun mb_valid :: "mailbox \<Rightarrow> mailbox_op \<Rightarrow> bool" where
  "mb_valid mb (MPush e) =
     (if is_plain e then 0 < mb_reserved mb else env_from e \<in> mb_awaiting mb)"
| "mb_valid mb (MExpect c) = (c \<notin> mb_awaiting mb \<and> c \<notin> mb_concluded mb)"
| "mb_valid mb _ = True"

lemma delivered_order:
  "filter (\<lambda>e. env_from e = k) (mb_queue mb) =
     filter (\<lambda>e. env_from e = k) (delivered mb budget (picks who) sz @ sn_rest (scan_queue mb budget (picks who) sz))"
proof -
  let ?k = "\<lambda>e. env_from e = k" and ?p = "picks who"
  let ?rest = "sn_rest (scan_queue mb budget ?p sz)" and ?t = "delivered mb budget ?p sz"
  note s = scan_queue_spec(3,4) [of ?p mb budget sz]
  have same: "?p e = ?p e'" if "?k e" "?k e'" for e e'
    using that by (simp add: picks_def split: option.splits)
  show ?thesis
  proof (cases "\<exists>e. ?k e \<and> ?p e")
    case True
    then have kp: "?k e \<Longrightarrow> ?p e" for e using same by blast
    have "filter ?k xs = filter ?k (filter ?p xs)" for xs using kp by (induction xs) auto
    then show ?thesis using s(1) by (metis filter_append)
  next
    case False
    then have kp: "?k e \<Longrightarrow> \<not> ?p e" for e by blast
    have np: "filter ?k xs = filter ?k (filter (\<lambda>e. \<not> ?p e) xs)" for xs using kp by (induction xs) auto
    have "set ?t \<subseteq> set (filter ?p (mb_queue mb))" by (subst s(1)) auto
    then have "filter ?k ?t = []" using kp by (auto simp: filter_empty_conv)
    then show ?thesis using s(2) np by (metis filter_append append_Nil)
  qed
qed

lemma mb_step_inv:
  assumes inv: "mailbox_inv cap mb" and v: "mb_valid mb x"
    and step: "mb_step cap budget sz mb x = Some (ins, outs, mb')"
  shows "mailbox_inv cap mb'"
proof (cases x)
  case (MPush e)
  show ?thesis
  proof (cases "is_plain e")
    case True
    have "mb_plain mb = length (filter is_plain (mb_queue mb))" using inv by (simp add: mailbox_inv_def)
    with True v step MPush have "notices mb' = notices mb \<and> mb_awaiting mb' = mb_awaiting mb
        \<and> mb_concluded mb' = mb_concluded mb \<and> mb_plain mb' + mb_reserved mb' \<le> mb_plain mb + mb_reserved mb
        \<and> mb_plain mb' = length (filter is_plain (mb_queue mb'))"
      by (auto simp: mb_push_def Let_def usize_sub_def notices_def split: if_splits)
    then show ?thesis using inv by (simp add: mailbox_inv_def)
  next
    case False
    then have "env_from e \<in> mb_awaiting mb" using v MPush by simp
    then have new: "env_from e \<notin> set (notices mb)" using inv by (auto simp: mailbox_inv_def)
    from False step MPush have "mb_awaiting mb' = mb_awaiting mb - {env_from e}
        \<and> mb_concluded mb' = insert (env_from e) (mb_concluded mb)
        \<and> mb_plain mb' = mb_plain mb \<and> mb_reserved mb' = mb_reserved mb
        \<and> length (filter is_plain (mb_queue mb')) = length (filter is_plain (mb_queue mb))
        \<and> notices mb' = notices mb @ (if mb_closed mb then [] else [env_from e])"
      by (auto simp: mb_push_def notices_def split: if_splits)
    then show ?thesis using inv new by (auto simp: mailbox_inv_def)
  qed
next
  case (MTake who)
  then show ?thesis using inv step by (auto intro: take_batch_inv)
next
  case (MIdle close)
  then show ?thesis using inv step
    by (auto simp: mb_idle_def split: if_splits dest: take_batch_inv)
      (simp_all add: mailbox_inv_def)
qed (use inv v step in \<open>fastforce simp: mailbox_inv_def mb_reserve_def mb_expect_def mb_stage_def
      mb_charge_def mb_saw_def mb_new_turn_def mb_close_def split: if_splits\<close>)+

lemma mb_step_progress:
  assumes "mailbox_inv cap mb" "mb_valid mb x"
  shows "mb_step cap budget sz mb x \<noteq> None"
proof (cases x)
  case (MPush e)
  then show ?thesis using assms by (auto simp: mb_push_def Let_def usize_sub_def)
next
  case (MTake who)
  then show ?thesis using take_batch_total [OF assms(1), of budget "picks who" sz] by auto
next
  case (MIdle close)
  then show ?thesis using take_batch_total [OF assms(1), of budget "\<lambda>_. True" sz]
    by (auto simp: mb_idle_def)
qed (simp_all add: mb_close_def)

lemma picks_all: "picks None = (\<lambda>_. True)"
  by (rule ext) (simp add: picks_def)

lemma mb_step_order:
  assumes step: "mb_step cap budget sz mb x = Some (ins, outs, mb')"
  shows "filter (\<lambda>e. env_from e = k) (mb_queue mb @ ins) = filter (\<lambda>e. env_from e = k) (outs @ mb_queue mb')"
proof (cases x)
  case (MPush e)
  then show ?thesis using step
    by (auto simp: mb_push_def Let_def usize_sub_def split: if_splits option.splits)
next
  case (MTake who)
  with step show ?thesis
    using take_batch_SomeD(1,2) delivered_order [of k mb budget who sz] by fastforce
next
  case (MIdle close)
  with step show ?thesis
    using take_batch_SomeD(1,2) [of mb budget "\<lambda>_. True" sz] delivered_order [of k mb budget None sz]
    by (fastforce simp: mb_idle_def picks_all split: if_splits)
qed (use step in \<open>auto simp: mb_reserve_def mb_expect_def mb_stage_def mb_charge_def mb_saw_def
      mb_new_turn_def mb_close_def\<close>)

interpretation mb: fifo_store mb_queue env_from "mailbox_inv cap" mb_valid "mb_step cap budget sz"
  by unfold_locales (auto simp: mb_step_progress dest: mb_step_inv mb_step_order)

end
