(* ===== verification/Mailbox_Props.thy ===== *)
theory Mailbox_Props
  imports Mailbox_Inv
begin

text \<open>
  What the mailbox promises to the agents that use it: the capacity bound, conservation and
  order of everything it accepts, what one delivery hands over, one terminal notice per child,
  and the atomic end of an idle agent.
\<close>

section \<open>Samples\<close>

definition msg :: "node_id \<Rightarrow> message_kind \<Rightarrow> string \<Rightarrow> envelope" where
  "msg from kind body = \<lparr>env_id = 0, env_from = from, env_to = 0, env_kind = kind, env_body = body,
     env_sent_at = 0, env_spawn = Some from, env_status = None\<rparr>"

definition body_size :: "envelope \<Rightarrow> nat" where
  "body_size e = length (env_body e)"

definition sample_mb_ops :: "mailbox_op list" where
  "sample_mb_ops = [MExpect 1, MReserve, MPush (msg 1 KMessage ''ab''), MReserve,
     MPush (msg 2 KMessage ''c''), MPush (msg 1 KResult ''d''), MTake (Some {1})]"

definition sample_mb :: mailbox where
  "sample_mb = mailbox_new\<lparr>mb_queue := [msg 2 KMessage ''c'', msg 1 KResult ''d''], mb_plain := 1,
     mb_turn := 2, mb_concluded := {1}\<rparr>"

lemmas mb_eval = mailbox_new_def msg_def body_size_def mb_expect_def mb_reserve_def mb_push_def
  usize_sub_def is_plain_def take_batch_def scan_queue_def scan_step_def picks_def bump_def Let_def

lemma sample_mb_run: "run_ops (mb_step 2 2 body_size) mb_valid mailbox_new sample_mb_ops
    = Some ([msg 1 KMessage ''ab'', msg 2 KMessage ''c'', msg 1 KResult ''d''],
        [msg 1 KMessage ''ab''], sample_mb)"
  by (simp add: sample_mb_ops_def sample_mb_def mb_eval)

section \<open>Runs\<close>

text \<open>
  C8. In every state a mailbox reaches, through any interleaving of its callers, the queued plain
  messages and the accepted sends still being recorded never exceed the capacity, the counter
  is the number of queued plain messages, and no child has two notices queued or one queued
  while it is still awaited.
\<close>
theorem mailbox_capacity_invariant:
  assumes "run_ops (mb_step cap budget sz) mb_valid mailbox_new ops = Some (accepted, removed, s)"
  shows "length (filter is_plain (mb_queue s)) + mb_reserved s \<le> cap
    \<and> mb_plain s = length (filter is_plain (mb_queue s))
    \<and> distinct (notices s) \<and> set (notices s) \<inter> mb_awaiting s = {}"
  using mb.run_ok [OF assms mailbox_new_inv] by (simp add: mailbox_inv_def)

theorem mailbox_capacity_invariant_witness:
  "length (filter is_plain (mb_queue sample_mb)) + mb_reserved sample_mb \<le> 2"
  using mailbox_capacity_invariant [OF sample_mb_run] by simp

text \<open>
  C9. Nothing is lost, duplicated or reordered: whatever is run on a mailbox, the accepted
  envelopes of each sender are, in order, the ones of that sender that were handed over or
  dropped by closing, followed by the ones still queued.
\<close>
theorem mailbox_fifo_per_sender:
  assumes "run_ops (mb_step cap budget sz) mb_valid mailbox_new ops = Some (accepted, removed, s)"
  shows "filter (\<lambda>e. env_from e = k) accepted
      = filter (\<lambda>e. env_from e = k) removed @ filter (\<lambda>e. env_from e = k) (mb_queue s)
    \<and> mset accepted = mset removed + mset (mb_queue s)"
  using mb.run_order [OF assms mailbox_new_inv, of k] mb.run_conserves [OF assms mailbox_new_inv]
  by (simp add: mailbox_new_def)

theorem mailbox_fifo_per_sender_witness:
  "filter (\<lambda>e. env_from e = 1) [msg 1 KMessage ''ab'', msg 2 KMessage ''c'', msg 1 KResult ''d'']
     = [msg 1 KMessage ''ab''] @ filter (\<lambda>e. env_from e = 1) (mb_queue sample_mb)"
  using mailbox_fifo_per_sender [OF sample_mb_run, of 1] by (simp add: msg_def)

section \<open>One terminal notice per child\<close>

definition concluded_by :: "node_id set \<Rightarrow> mailbox \<Rightarrow> bool" where
  "concluded_by A s = (A \<inter> mb_awaiting s = {} \<and> A \<subseteq> mb_concluded s)"

definition notice_senders :: "envelope list \<Rightarrow> node_id list" where
  "notice_senders es = map env_from (filter (\<lambda>e. \<not> is_plain e) es)"

lemma step_concluded:
  assumes "concluded_by A s" "mb_valid s x" "mb_step cap budget sz s x = Some (ins, outs, s')"
  shows "concluded_by (A \<union> set (notice_senders ins)) s' \<and> distinct (notice_senders ins)
    \<and> A \<inter> set (notice_senders ins) = {}"
proof (cases x)
  case (MPush e)
  then show ?thesis using assms
    by (auto simp: concluded_by_def notice_senders_def mb_push_def Let_def usize_sub_def
        split: if_splits option.splits)
next
  case (MTake who)
  then show ?thesis using assms
    by (auto simp: concluded_by_def notice_senders_def take_batch_SomeD)
next
  case (MIdle close)
  then show ?thesis using assms
    by (auto simp: concluded_by_def notice_senders_def mb_idle_def take_batch_SomeD split: if_splits)
qed (use assms in \<open>fastforce simp: concluded_by_def notice_senders_def mb_reserve_def mb_expect_def
      mb_stage_def mb_charge_def mb_saw_def mb_new_turn_def mb_close_def split: if_splits\<close>)+

lemma run_concluded:
  assumes "concluded_by A s" "run_ops (mb_step cap budget sz) mb_valid s ops = Some (ins, outs, s')"
  shows "distinct (notice_senders ins) \<and> A \<inter> set (notice_senders ins) = {}
    \<and> concluded_by (A \<union> set (notice_senders ins)) s'"
  using assms
proof (induction ops arbitrary: A s ins outs)
  case Nil
  then show ?case by (simp add: notice_senders_def)
next
  case (Cons x ops)
  from Cons.prems obtain i1 o1 s1 i2 o2 where v: "mb_valid s x"
    and st: "mb_step cap budget sz s x = Some (i1, o1, s1)"
    and r: "run_ops (mb_step cap budget sz) mb_valid s1 ops = Some (i2, o2, s')" and io: "ins = i1 @ i2"
    by (auto split: if_splits option.splits)
  note a = step_concluded [OF Cons.prems(1) v st]
  have "notice_senders ins = notice_senders i1 @ notice_senders i2"
    by (simp add: io notice_senders_def)
  then show ?case using a Cons.IH [OF a [THEN conjunct1] r] by (auto simp: Un_assoc)
qed

text \<open>
  C10. Over the whole life of a mailbox at most one terminal notice of each child is ever queued,
  whether the child posts it itself or the runtime stages it on the child's behalf, and once it
  is queued the child counts as concluded and is no longer awaited.
\<close>
theorem one_notice_per_child:
  assumes "run_ops (mb_step cap budget sz) mb_valid mailbox_new ops = Some (accepted, removed, s)"
  shows "distinct (notice_senders accepted)
    \<and> set (notice_senders accepted) \<subseteq> mb_concluded s
    \<and> set (notice_senders accepted) \<inter> mb_awaiting s = {}"
proof -
  have "concluded_by {} mailbox_new" by (simp add: concluded_by_def)
  from run_concluded [OF this assms] show ?thesis by (simp add: concluded_by_def)
qed

theorem one_notice_per_child_witness:
  "distinct (notice_senders [msg 1 KMessage ''ab'', msg 2 KMessage ''c'', msg 1 KResult ''d''])"
  using one_notice_per_child [OF sample_mb_run] by blast

section \<open>One delivery\<close>

text \<open>
  C11. One delivery hands over exactly the longest prefix of the selected messages that fits what
  is left of the turn's budget, the first message of a turn always included, and never skips
  ahead to a later message; it leaves the other messages in order, counts by sender the
  selected ones that stayed, and stays within the budget unless it is the single first message.
\<close>
theorem delivery_is_longest_affordable_prefix:
  assumes "take_batch mb budget pick sz = Some (b, mb')"
  shows "bt_taken b = fit (mb_turn mb = 0) budget sz (mb_turn mb) (filter pick (mb_queue mb))
    \<and> filter pick (mb_queue mb) = bt_taken b @ filter pick (mb_queue mb')
    \<and> filter (\<lambda>e. \<not> pick e) (mb_queue mb') = filter (\<lambda>e. \<not> pick e) (mb_queue mb)
    \<and> left_count (bt_left b) n = length (filter (\<lambda>e. env_from e = n) (filter pick (mb_queue mb')))
    \<and> bt_queued b = length (mb_queue mb')
    \<and> mb_turn mb' = mb_turn mb + sum_list (map sz (bt_taken b))
    \<and> (mb_turn mb' \<le> budget \<or> bt_taken b = [] \<or> (mb_turn mb = 0 \<and> length (bt_taken b) = 1))
    \<and> (mb_turn mb = 0 \<and> filter pick (mb_queue mb) \<noteq> [] \<longrightarrow> bt_taken b \<noteq> [])"
proof -
  note d = take_batch_SomeD [OF assms] and s = scan_queue_spec [where mb = mb and pick = pick and budget = budget and sz = sz]
  let ?sel = "filter pick (mb_queue mb)"
  have bound: "mb_turn mb + sum_list (map sz (fit (mb_turn mb = 0) budget sz (mb_turn mb) es)) \<le> budget
      \<or> fit (mb_turn mb = 0) budget sz (mb_turn mb) es = []
      \<or> mb_turn mb = 0 \<and> length (fit (mb_turn mb = 0) budget sz (mb_turn mb) es) = 1" for es
  proof (cases es)
    case (Cons e es')
    show ?thesis
    proof (cases "mb_turn mb + sz e \<le> budget")
      case True
      then show ?thesis
        using Cons fit_budget [of False "mb_turn mb + sz e" budget sz es'] by (simp add: add.assoc)
    next
      case False
      then show ?thesis using Cons fit_empty_over [of False budget "mb_turn mb + sz e" sz es']
        by (cases "mb_turn mb = 0") simp_all
    qed
  qed simp
  have "fit True budget sz 0 es \<noteq> []" if "es \<noteq> []" for es
    using that by (cases es) auto
  then have first: "mb_turn mb = 0 \<and> ?sel \<noteq> [] \<longrightarrow> bt_taken b \<noteq> []"
    by (simp add: d(1) delivered_def)
  have t: "bt_taken b = fit (mb_turn mb = 0) budget sz (mb_turn mb) ?sel"
    unfolding d(1) delivered_def ..
  have turn: "mb_turn mb' = mb_turn mb + sum_list (map sz (bt_taken b))"
    using d(5) by (simp only: d(1))
  have within: "mb_turn mb' \<le> budget \<or> bt_taken b = [] \<or> mb_turn mb = 0 \<and> length (bt_taken b) = 1"
    using bound [of ?sel] unfolding turn t .
  show ?thesis
  proof (intro conjI)
    show "filter pick (mb_queue mb) = bt_taken b @ filter pick (mb_queue mb')"
      using s(3) by (simp only: d(1,2))
    show "filter (\<lambda>e. \<not> pick e) (mb_queue mb') = filter (\<lambda>e. \<not> pick e) (mb_queue mb)"
      using s(4) by (simp only: d(2))
    show "left_count (bt_left b) n = length (filter (\<lambda>e. env_from e = n) (filter pick (mb_queue mb')))"
      using s(5) by (simp only: d(2,4))
  qed (fact t d(3) turn within first)+
qed

theorem delivery_is_longest_affordable_prefix_witness:
  "\<exists>b mb'. take_batch sample_mb 2 (\<lambda>_. True) body_size = Some (b, mb') \<and> bt_taken b = []
     \<and> bt_queued b = 2"
proof -
  have "mailbox_inv 2 sample_mb" using mb.run_ok [OF sample_mb_run mailbox_new_inv] .
  from take_batch_total [OF this] obtain b mb'
    where t: "take_batch sample_mb 2 (\<lambda>_. True) body_size = Some (b, mb')" by blast
  have p: "bt_taken b = fit (mb_turn sample_mb = 0) 2 body_size (mb_turn sample_mb)
      (filter (\<lambda>_. True) (mb_queue sample_mb))"
    "filter (\<lambda>_. True) (mb_queue sample_mb) = bt_taken b @ filter (\<lambda>_. True) (mb_queue mb')"
    "bt_queued b = length (mb_queue mb')"
    using delivery_is_longest_affordable_prefix [OF t] by blast+
  have none: "bt_taken b = []" unfolding p(1) by (simp add: sample_mb_def msg_def body_size_def)
  then have "bt_queued b = length (mb_queue sample_mb)" using p(2,3) by simp
  then show ?thesis using t none by (simp add: sample_mb_def)
qed

section \<open>The end of an idle agent\<close>

text \<open>A mailbox that is closed with nothing awaited or reserved.\<close>

definition ended :: "mailbox \<Rightarrow> bool" where
  "ended s = (mb_closed s \<and> mb_queue s = [] \<and> mb_awaiting s = {} \<and> mb_reserved s = 0)"

fun spawns :: "mailbox_op \<Rightarrow> bool" where
  "spawns (MExpect _) = True"
| "spawns _ = False"

lemma ended_step:
  assumes "ended s" "mb_valid s x" "\<not> spawns x" "mb_step cap budget sz s x = Some (ins, outs, s')"
  shows "ended s' \<and> ins = [] \<and> outs = []"
proof (cases x)
  case (MPush e)
  then show ?thesis using assms by (simp add: ended_def split: if_splits)
qed (use assms in \<open>auto simp: ended_def mb_reserve_def mb_stage_def mb_charge_def mb_saw_def
      mb_new_turn_def mb_close_def mb_idle_def take_batch_def scan_queue_def usize_sub_def
      split: if_splits\<close>)

lemma ended_run:
  assumes "ended s" "list_all (\<lambda>x. \<not> spawns x) ops"
    "run_ops (mb_step cap budget sz) mb_valid s ops = Some (ins, outs, s')"
  shows "ended s' \<and> ins = [] \<and> outs = []"
  using assms
proof (induction ops arbitrary: s ins outs)
  case (Cons x ops)
  from Cons.prems obtain i1 o1 s1 i2 o2 where v: "mb_valid s x"
    and st: "mb_step cap budget sz s x = Some (i1, o1, s1)"
    and r: "run_ops (mb_step cap budget sz) mb_valid s1 ops = Some (i2, o2, s')"
    and io: "ins = i1 @ i2" "outs = o1 @ o2"
    by (auto split: if_splits option.splits)
  have "ended s1 \<and> i1 = [] \<and> o1 = []" using ended_step [OF Cons.prems(1) v _ st] Cons.prems(2) by simp
  then show ?case using Cons.IH [OF _ _ r] Cons.prems(2) io by simp
qed simp

text \<open>
  C12. An agent that finds nothing to do at the end of a turn ends only when no message is queued,
  no send is in flight and no child is awaited, and closes its mailbox in the same step: from
  then on every send is refused, nothing is accepted or dropped, whatever the other agents do,
  as long as the ended agent itself spawns no child.  Otherwise it delivers or waits.
\<close>
theorem idle_ends_atomically:
  assumes "mb_idle s True budget sz = Some (i, s')"
  shows "(i = Done \<longleftrightarrow> mb_queue s = [] \<and> mb_awaiting s = {} \<and> mb_reserved s = 0)
    \<and> (i = IdleWait \<longleftrightarrow> mb_queue s = [] \<and> (mb_awaiting s \<noteq> {} \<or> mb_reserved s \<noteq> 0))
    \<and> (i = Done \<longrightarrow> (\<forall>ops ins outs t. list_all (\<lambda>x. \<not> spawns x) ops \<longrightarrow>
         run_ops (mb_step cap budget sz) mb_valid s' ops = Some (ins, outs, t) \<longrightarrow>
         ins = [] \<and> outs = [] \<and> fst (mb_reserve t cap) = Inl Closed))"
proof -
  have "ended s'" if "i = Done"
    using assms that by (auto simp: mb_idle_def ended_def split: if_splits)
  then have "ins = [] \<and> outs = [] \<and> fst (mb_reserve t cap) = Inl Closed"
    if "i = Done" "list_all (\<lambda>x. \<not> spawns x) ops"
      "run_ops (mb_step cap budget sz) mb_valid s' ops = Some (ins, outs, t)" for ops ins outs t
    using ended_run [OF _ that(2,3)] that(1) by (auto simp: ended_def mb_reserve_def)
  then show ?thesis using assms by (auto simp: mb_idle_def split: if_splits)
qed

theorem idle_ends_atomically_witness:
  "fst (mb_reserve (mailbox_new\<lparr>mb_closed := True\<rparr>) 5) = Inl Closed"
proof -
  have "mb_idle mailbox_new True 2 body_size = Some (Done, mailbox_new\<lparr>mb_closed := True\<rparr>)"
    by (simp add: mb_idle_def mailbox_new_def)
  from idle_ends_atomically [OF this, of 5] show ?thesis by (auto dest: spec [of _ "[]"])
qed

section \<open>Draining\<close>

text \<open>What an idle agent is handed in its next turns when nothing else arrives: a fresh budget,
  then one delivery, once per turn.\<close>

fun drain :: "nat \<Rightarrow> nat \<Rightarrow> (envelope \<Rightarrow> nat) \<Rightarrow> mailbox \<Rightarrow> (envelope list list \<times> mailbox) option" where
  "drain 0 budget sz mb = Some ([], mb)"
| "drain (Suc n) budget sz mb =
     (case take_batch (mb_new_turn mb) budget (\<lambda>_. True) sz of
        None \<Rightarrow> None
      | Some (b, mb') \<Rightarrow> map_option (\<lambda>(bs, t). (bt_taken b # bs, t)) (drain n budget sz mb'))"

lemma new_turn_inv: "mailbox_inv cap mb \<Longrightarrow> mailbox_inv cap (mb_new_turn mb)"
  by (simp add: mailbox_inv_def mb_new_turn_def)

lemma drain_spec:
  assumes "mailbox_inv cap mb" "length (mb_queue mb) \<le> n"
  shows "\<exists>bs t. drain n budget sz mb = Some (bs, t) \<and> concat bs = mb_queue mb \<and> mb_queue t = []"
  using assms
proof (induction n arbitrary: mb)
  case (Suc n)
  let ?m = "mb_new_turn mb"
  have inv: "mailbox_inv cap ?m" by (rule new_turn_inv [OF Suc.prems(1)])
  from take_batch_total [OF inv] obtain b mb'
    where t: "take_batch ?m budget (\<lambda>_. True) sz = Some (b, mb')" by blast
  note d = take_batch_SomeD(1,2) [OF t] scan_queue_spec(3) [of "\<lambda>_. True" ?m budget sz]
  have q: "mb_queue mb = bt_taken b @ mb_queue mb'" using d by (simp add: mb_new_turn_def)
  have "mb_queue mb \<noteq> [] \<longrightarrow> bt_taken b \<noteq> []"
    using d(1) by (cases "mb_queue mb") (simp_all add: delivered_def mb_new_turn_def)
  then have "length (mb_queue mb') \<le> n"
    using q Suc.prems(2) by (cases "mb_queue mb = []") (auto simp: neq_Nil_conv)
  from Suc.IH [OF take_batch_inv [OF inv t] this] show ?case using q t by auto
qed simp

text \<open>
  C13. Nothing stays queued for ever: an agent that gets a fresh budget every turn is handed its
  whole queue, in arrival order, within as many turns as there are messages, however large the
  messages and however small the budget.
\<close>
theorem queue_drains:
  assumes "mailbox_inv cap mb"
  shows "\<exists>bs t. drain (length (mb_queue mb)) budget sz mb = Some (bs, t)
    \<and> concat bs = mb_queue mb \<and> mb_queue t = []"
  using drain_spec [OF assms order_refl] .

theorem queue_drains_witness:
  "\<exists>bs t. drain (length (mb_queue sample_mb)) 0 body_size sample_mb = Some (bs, t)
    \<and> concat bs = mb_queue sample_mb \<and> mb_queue t = []"
  by (rule queue_drains) (rule mb.run_ok [OF sample_mb_run mailbox_new_inv])

end
