(* ===== verification/Provider.thy ===== *)
theory Provider
  imports Complex_Main Ledger
begin

text \<open>
  Provider errors of `crates/providers/src/lib.rs` with what they cost and whether they are
  retried, and the retry policy of `retry.rs`.  A `Duration` is a number of nanoseconds up to
  `DURATION_MAX`; the jitter factor, an `f64` in the code, is a rational number, and the product
  `mul_f64` is rounded to the nearest nanosecond.
\<close>

section \<open>Errors\<close>

datatype provider_error =
    Http nat string "duration option"
  | NotSent string
  | Transport string
  | Stream string string
  | IdleTimeout
  | Protocol string
  | ProviderCancelled
  | ContextTooLarge string
  | ProviderOther string

definition provider_cancelled :: "bool \<Rightarrow> provider_error" where
  "provider_cancelled may_have_been_sent =
     (if may_have_been_sent then ProviderCancelled else NotSent ''cancelled before sending'')"

fun is_retryable :: "provider_error \<Rightarrow> bool" where
  "is_retryable (NotSent _) = True"
| "is_retryable (Transport _) = True"
| "is_retryable IdleTimeout = True"
| "is_retryable (Http status _ _) = (status \<in> set [408, 409, 429, 500, 502, 503, 504, 529])"
| "is_retryable (Stream kind _) = (kind = ''overloaded_error'' \<or> kind = ''api_error'')"
| "is_retryable (Protocol _) = False"
| "is_retryable ProviderCancelled = False"
| "is_retryable (ContextTooLarge _) = False"
| "is_retryable (ProviderOther _) = False"

fun error_charge :: "provider_error \<Rightarrow> attempt_charge" where
  "error_charge (NotSent _) = Zero"
| "error_charge (ContextTooLarge _) = Zero"
| "error_charge (Http status _ _) =
     (if 400 \<le> status \<and> status < 500 \<or> status = 529 then Zero else Reserved)"
| "error_charge _ = Reserved"

fun error_retry_after :: "provider_error \<Rightarrow> duration option" where
  "error_retry_after (Http _ _ d) = d"
| "error_retry_after _ = None"

text \<open>The error messages, as `thiserror` derives them from the attributes.\<close>

fun provider_error_display :: "provider_error \<Rightarrow> string" where
  "provider_error_display (Http status message _) = ''HTTP '' @ show_nat status @ '': '' @ message"
| "provider_error_display (NotSent m) = ''not sent: '' @ m"
| "provider_error_display (Transport m) = ''transport: '' @ m"
| "provider_error_display (Stream kind message) = ''stream error '' @ kind @ '': '' @ message"
| "provider_error_display IdleTimeout = ''stream idle timeout''"
| "provider_error_display (Protocol m) = ''protocol: '' @ m"
| "provider_error_display ProviderCancelled = ''cancelled''"
| "provider_error_display (ContextTooLarge m) = ''context too large: '' @ m"
| "provider_error_display (ProviderOther m) = m"

section \<open>Retry policy\<close>

definition DURATION_MAX :: duration where
  "DURATION_MAX = (2 ^ 64 - 1) * 1000000000 + 999999999"

record retry_policy =
  rp_max_retries :: nat
  rp_base :: duration
  rp_cap :: duration
  rp_max_unhinted_429_retries :: nat

definition retry_default :: retry_policy where
  "retry_default = \<lparr>rp_max_retries = 4, rp_base = from_secs 1, rp_cap = from_secs 60,
     rp_max_unhinted_429_retries = 1\<rparr>"

definition duration_saturating_mul :: "duration \<Rightarrow> nat \<Rightarrow> duration" where
  "duration_saturating_mul d k = min DURATION_MAX (d * k)"

definition clamp01 :: "rat \<Rightarrow> rat" where
  "clamp01 r = max 0 (min 1 r)"

definition mul_f64 :: "duration \<Rightarrow> rat \<Rightarrow> duration" where
  "mul_f64 d r = nat (round (of_nat d * r))"

definition backoff_ceiling :: "retry_policy \<Rightarrow> nat \<Rightarrow> duration" where
  "backoff_ceiling p failures =
     min (duration_saturating_mul (rp_base p) (2 ^ min (failures - 1) 30)) (rp_cap p)"

fun is_http_429 :: "provider_error \<Rightarrow> bool" where
  "is_http_429 (Http status _ _) = (status = 429)"
| "is_http_429 _ = False"

definition next_delay ::
    "retry_policy \<Rightarrow> provider_error \<Rightarrow> nat \<Rightarrow> nat \<Rightarrow> rat \<Rightarrow> duration option" where
  "next_delay p e failures unhinted random =
     (if \<not> is_retryable e \<or> rp_max_retries p < failures then None
      else
        case error_retry_after e of
          Some d \<Rightarrow> Some (min d (rp_cap p))
        | None \<Rightarrow>
            if is_http_429 e \<and> rp_max_unhinted_429_retries p < unhinted then None
            else Some (mul_f64 (backoff_ceiling p failures) (clamp01 random)))"

lemma mul_f64_le: "mul_f64 d (clamp01 r) \<le> d"
proof -
  have "of_nat d * clamp01 r \<le> of_nat d * (1 :: rat)"
    by (rule mult_left_mono) (simp_all add: clamp01_def)
  then have "round (of_nat d * clamp01 r) \<le> round (of_nat d :: rat)"
    by (intro round_mono) simp
  then show ?thesis by (simp add: mul_f64_def nat_le_iff)
qed

lemma mul_f64_one: "mul_f64 d 1 = d"
  by (simp add: mul_f64_def)

lemma next_delay_le_cap:
  "next_delay p e f u r = Some d \<Longrightarrow> d \<le> rp_cap p"
  using mul_f64_le [of "backoff_ceiling p f" r]
  by (auto simp: next_delay_def backoff_ceiling_def split: if_splits option.splits)

lemma next_delay_SomeD:
  assumes "next_delay p e f u r = Some d"
  shows "is_retryable e" "f \<le> rp_max_retries p"
    "error_retry_after e = None \<Longrightarrow> is_http_429 e \<Longrightarrow> u \<le> rp_max_unhinted_429_retries p"
  using assms by (auto simp: next_delay_def split: if_splits option.splits)

text \<open>
  C18. The wait before a retry never exceeds the policy's cap; it honours the provider's
  `retry-after` up to the cap, is otherwise at most the base delay doubled once per earlier
  failure, is granted only for retryable errors within the retry budget, and a 429 without a
  hint is retried at most as often as the policy allows.
\<close>
theorem retry_delay_bounded:
  assumes "next_delay p e failures unhinted random = Some d"
  shows "d \<le> rp_cap p \<and> is_retryable e \<and> failures \<le> rp_max_retries p
    \<and> (case error_retry_after e of
         Some h \<Rightarrow> d = min h (rp_cap p)
       | None \<Rightarrow> d \<le> rp_base p * 2 ^ min (failures - 1) 30
           \<and> (is_http_429 e \<longrightarrow> unhinted \<le> rp_max_unhinted_429_retries p))"
proof -
  note c = mul_f64_le [of "backoff_ceiling p failures" random]
  have "backoff_ceiling p failures \<le> rp_base p * 2 ^ min (failures - 1) 30"
    by (simp add: backoff_ceiling_def duration_saturating_mul_def)
  then show ?thesis
    using assms next_delay_le_cap [OF assms] c next_delay_SomeD [OF assms]
    by (auto simp: next_delay_def split: if_splits option.splits)
qed

theorem retry_delay_bounded_witness:
  "next_delay retry_default (Http 529 ''overloaded'' (Some (from_secs 600))) 1 0 0 = Some (from_secs 60)
    \<and> from_secs 60 \<le> rp_cap retry_default"
proof -
  have n: "next_delay retry_default (Http 529 ''overloaded'' (Some (from_secs 600))) 1 0 0
    = Some (from_secs 60)"
    by (simp add: next_delay_def retry_default_def from_secs_def)
  then show ?thesis using retry_delay_bounded [OF n] by blast
qed

end
