(* ===== verification/Accumulator.thy ===== *)
theory Accumulator
  imports Provider
begin

text \<open>
  The stream accumulator of `crates/providers/src/accumulator.rs` and the fake provider of
  `fake.rs`.  The JSON parser and printer (serde_json, not under src/) are the arguments
  `parse` and `print`; whether the caller has cancelled is sampled before each item of the fake
  stream and is the argument `cancelled`.
\<close>

section \<open>The accumulator\<close>

record pending_block =
  pb_content :: content_block
  pb_partial_json :: string
  pb_closed :: bool

record accumulator =
  ac_header :: "(string option \<times> string) option"
  ac_blocks :: "(nat \<times> pending_block) list"
  ac_usage :: usage
  ac_usage_iterations :: "usage_iteration list"
  ac_stop_reason :: "stop_reason option"
  ac_stopped :: bool
  ac_invalid_tool_inputs :: "nat list"

definition accumulator_new :: accumulator where
  "accumulator_new = \<lparr>ac_header = None, ac_blocks = [], ac_usage = usage_default,
     ac_usage_iterations = [], ac_stop_reason = None, ac_stopped = False,
     ac_invalid_tool_inputs = []\<rparr>"

fun initial_content :: "block_start \<Rightarrow> content_block" where
  "initial_content StartText = Text []"
| "initial_content StartThinking = Thinking [] None"
| "initial_content (StartToolUse i n) = ToolUse i n JNull"
| "initial_content (StartOpaque p k r) = Opaque p k r"

definition open_block :: "accumulator \<Rightarrow> nat \<Rightarrow> provider_error + pending_block" where
  "open_block ac index =
     (case map_of (ac_blocks ac) index of
        None \<Rightarrow> Inl (Protocol (''unknown block index '' @ show_nat index))
      | Some b \<Rightarrow>
          if pb_closed b then Inl (Protocol (''block '' @ show_nat index @ '' is already stopped''))
          else Inr b)"

definition put_block :: "accumulator \<Rightarrow> nat \<Rightarrow> pending_block \<Rightarrow> accumulator" where
  "put_block ac index b = ac\<lparr>ac_blocks := bt_insert index b (ac_blocks ac)\<rparr>"

definition with_open ::
    "accumulator \<Rightarrow> nat \<Rightarrow> (pending_block \<Rightarrow> provider_error + pending_block) \<Rightarrow> provider_error + accumulator" where
  "with_open ac index f =
     (case open_block ac index of
        Inl e \<Rightarrow> Inl e
      | Inr b \<Rightarrow> (case f b of Inl e \<Rightarrow> Inl e | Inr b' \<Rightarrow> Inr (put_block ac index b')))"

definition block_start_event :: "accumulator \<Rightarrow> nat \<Rightarrow> block_start \<Rightarrow> provider_error + accumulator" where
  "block_start_event ac index start =
     (case map_of (ac_blocks ac) index of
        Some _ \<Rightarrow> Inl (Protocol (''duplicate block index '' @ show_nat index))
      | None \<Rightarrow> Inr (put_block ac index
          \<lparr>pb_content = initial_content start, pb_partial_json = [], pb_closed = False\<rparr>))"

definition text_delta :: "nat \<Rightarrow> string \<Rightarrow> pending_block \<Rightarrow> provider_error + pending_block" where
  "text_delta index t b =
     (case pb_content b of
        Text old \<Rightarrow> Inr (b\<lparr>pb_content := Text (old @ t)\<rparr>)
      | _ \<Rightarrow> Inl (Protocol (''text delta for non-text block '' @ show_nat index)))"

definition thinking_delta :: "nat \<Rightarrow> string \<Rightarrow> pending_block \<Rightarrow> provider_error + pending_block" where
  "thinking_delta index t b =
     (case pb_content b of
        Thinking old s \<Rightarrow> Inr (b\<lparr>pb_content := Thinking (old @ t) s\<rparr>)
      | _ \<Rightarrow> Inl (Protocol (''thinking delta for non-thinking block '' @ show_nat index)))"

definition signature_delta :: "nat \<Rightarrow> string \<Rightarrow> pending_block \<Rightarrow> provider_error + pending_block" where
  "signature_delta index t b =
     (case pb_content b of
        Thinking th s \<Rightarrow>
          Inr (b\<lparr>pb_content := Thinking th (Some ((case s of None \<Rightarrow> [] | Some old \<Rightarrow> old) @ t))\<rparr>)
      | _ \<Rightarrow> Inl (Protocol (''signature delta for non-thinking block '' @ show_nat index)))"

definition tool_input_delta :: "nat \<Rightarrow> string \<Rightarrow> pending_block \<Rightarrow> provider_error + pending_block" where
  "tool_input_delta index t b =
     (case pb_content b of
        ToolUse _ _ _ \<Rightarrow> Inr (b\<lparr>pb_partial_json := pb_partial_json b @ t\<rparr>)
      | _ \<Rightarrow> Inl (Protocol (''tool input delta for non-tool block '' @ show_nat index)))"

definition block_stop :: "(string \<Rightarrow> json option) \<Rightarrow> accumulator \<Rightarrow> nat \<Rightarrow> provider_error + accumulator" where
  "block_stop parse ac index =
     (case open_block ac index of
        Inl e \<Rightarrow> Inl e
      | Inr b \<Rightarrow>
          (case pb_content b of
             ToolUse i n _ \<Rightarrow>
               (let (input, invalid) =
                  (if pb_partial_json b = [] then (JObj [], False)
                   else case parse (pb_partial_json b) of
                     Some v \<Rightarrow> (v, False) | None \<Rightarrow> (JStr (pb_partial_json b), True));
                  ac' = put_block ac index (b\<lparr>pb_content := ToolUse i n input, pb_closed := True\<rparr>)
                in Inr (if invalid
                     then ac'\<lparr>ac_invalid_tool_inputs := ac_invalid_tool_inputs ac' @ [index]\<rparr>
                     else ac'))
           | _ \<Rightarrow> Inr (put_block ac index (b\<lparr>pb_closed := True\<rparr>))))"

definition latest :: "u64 \<Rightarrow> u64 \<Rightarrow> u64" where
  "latest current new = (if new \<noteq> 0 then new else current)"

definition update_counters :: "usage \<Rightarrow> usage \<Rightarrow> usage" where
  "update_counters u v = \<lparr>input_tokens = latest (input_tokens u) (input_tokens v),
     output_tokens = latest (output_tokens u) (output_tokens v),
     cache_creation_input_tokens =
       latest (cache_creation_input_tokens u) (cache_creation_input_tokens v),
     cache_read_input_tokens = latest (cache_read_input_tokens u) (cache_read_input_tokens v)\<rparr>"

fun is_message_start :: "stream_event \<Rightarrow> bool" where
  "is_message_start (MessageStart _ _ _) = True"
| "is_message_start _ = False"

fun push_event ::
    "(string \<Rightarrow> json option) \<Rightarrow> accumulator \<Rightarrow> stream_event \<Rightarrow> provider_error + accumulator" where
  "push_event parse ac (MessageStart i m u) =
     (if ac_header ac \<noteq> None then Inl (Protocol ''duplicate message start'')
      else Inr (ac\<lparr>ac_header := Some (i, m), ac_usage := u\<rparr>))"
| "push_event parse ac (BlockStart index start) = block_start_event ac index start"
| "push_event parse ac (TextDelta index t) = with_open ac index (text_delta index t)"
| "push_event parse ac (ThinkingDelta index t) = with_open ac index (thinking_delta index t)"
| "push_event parse ac (SignatureDelta index t) = with_open ac index (signature_delta index t)"
| "push_event parse ac (ToolInputDelta index t) = with_open ac index (tool_input_delta index t)"
| "push_event parse ac (BlockStop index) = block_stop parse ac index"
| "push_event parse ac (MessageDelta reason u) =
     Inr (ac\<lparr>ac_stop_reason := (case reason of None \<Rightarrow> ac_stop_reason ac | Some _ \<Rightarrow> reason),
            ac_usage := update_counters (ac_usage ac) u\<rparr>)"
| "push_event parse ac (UsageSnapshot m u its) =
     Inr (ac\<lparr>ac_header := map_option (\<lambda>(i, _). (i, m)) (ac_header ac), ac_usage := u,
            ac_usage_iterations := its\<rparr>)"
| "push_event parse ac MessageStop =
     (if list_ex (\<lambda>(_, b). \<not> pb_closed b) (ac_blocks ac)
      then Inl (Protocol ''message stopped with open blocks'')
      else Inr (ac\<lparr>ac_stopped := True\<rparr>))"

definition push :: "(string \<Rightarrow> json option) \<Rightarrow> accumulator \<Rightarrow> stream_event \<Rightarrow> provider_error + accumulator" where
  "push parse ac e =
     (if ac_stopped ac then Inl (Protocol ''event after message stop'')
      else if ac_header ac = None \<and> \<not> is_message_start e
      then Inl (Protocol ''event before message start'')
      else push_event parse ac e)"

definition finish :: "accumulator \<Rightarrow> provider_error + model_response" where
  "finish ac =
     (if \<not> ac_stopped ac then Inl (Protocol ''stream ended before message stop'')
      else case ac_header ac of
        None \<Rightarrow> Inl (Protocol ''missing message start'')
      | Some (i, m) \<Rightarrow>
          (case ac_stop_reason ac of
             None \<Rightarrow> Inl (Protocol ''missing stop reason'')
           | Some r \<Rightarrow> Inr \<lparr>rs_id = i, rs_model = m,
               rs_content = map (\<lambda>(_, b). pb_content b) (ac_blocks ac), rs_stop_reason = r,
               rs_usage = ac_usage ac, rs_usage_iterations = ac_usage_iterations ac\<rparr>))"

fun push_all ::
    "(string \<Rightarrow> json option) \<Rightarrow> accumulator \<Rightarrow> (provider_error + stream_event) list
      \<Rightarrow> provider_error + accumulator" where
  "push_all parse ac [] = Inr ac"
| "push_all parse ac (Inl e # es) = Inl e"
| "push_all parse ac (Inr e # es) =
     (case push parse ac e of Inl err \<Rightarrow> Inl err | Inr ac' \<Rightarrow> push_all parse ac' es)"

definition collect ::
    "(string \<Rightarrow> json option) \<Rightarrow> (provider_error + stream_event) list \<Rightarrow> provider_error + model_response" where
  "collect parse es =
     (case push_all parse accumulator_new es of Inl e \<Rightarrow> Inl e | Inr ac \<Rightarrow> finish ac)"

section \<open>The fake provider\<close>

definition DEFAULT_CHUNK_SIZE :: nat where
  "DEFAULT_CHUNK_SIZE = 16"

definition str_contains :: "string \<Rightarrow> string \<Rightarrow> bool" where
  "str_contains text needle = list_ex (prefix needle) (suffixes text)"

record matcher =
  mt_depth :: "u32 option"
  mt_first_user_contains :: "string option"
  mt_last_user_contains :: "string option"
  mt_system_contains :: "string option"

record rule =
  ru_matcher :: "matcher option"
  ru_responses :: "model_response list"

datatype which = First | Last

definition user_text_of :: "model_request \<Rightarrow> which \<Rightarrow> string option" where
  "user_text_of req w =
     (let users = filter (\<lambda>m. msg_role m = User) (mr_messages req)
      in if users = [] then None
         else Some (message_text (case w of First \<Rightarrow> hd users | Last \<Rightarrow> last users)))"

fun is_none_or :: "('a \<Rightarrow> bool) \<Rightarrow> 'a option \<Rightarrow> bool" where
  "is_none_or f None = True"
| "is_none_or f (Some x) = f x"

fun is_some_and :: "('a \<Rightarrow> bool) \<Rightarrow> 'a option \<Rightarrow> bool" where
  "is_some_and f None = False"
| "is_some_and f (Some x) = f x"

definition matches :: "matcher \<Rightarrow> model_request \<Rightarrow> bool" where
  "matches m req = (
     is_none_or (\<lambda>d. d = rm_depth (mr_metadata req)) (mt_depth m) \<and>
     is_none_or (\<lambda>needle. is_some_and (\<lambda>t. str_contains t needle) (user_text_of req First))
       (mt_first_user_contains m) \<and>
     is_none_or (\<lambda>needle. is_some_and (\<lambda>t. str_contains t needle) (user_text_of req Last))
       (mt_last_user_contains m) \<and>
     is_none_or (\<lambda>needle. is_some_and (\<lambda>t. str_contains t needle) (mr_system req))
       (mt_system_contains m))"

fun list_get :: "'a list \<Rightarrow> nat \<Rightarrow> 'a option" where
  "list_get [] n = None"
| "list_get (x # xs) 0 = Some x"
| "list_get (x # xs) (Suc n) = list_get xs n"

fun find_map :: "('a \<Rightarrow> 'b option) \<Rightarrow> 'a list \<Rightarrow> 'b option" where
  "find_map f [] = None"
| "find_map f (x # xs) = (case f x of Some y \<Rightarrow> Some y | None \<Rightarrow> find_map f xs)"

text \<open>The error quotes the request's texts in Rust's debug format, the argument `debug`.\<close>

definition respond :: "(string \<Rightarrow> string) \<Rightarrow> rule list \<Rightarrow> model_request \<Rightarrow> provider_error + model_response" where
  "respond debug rules req =
     (let turn = length (filter (\<lambda>m. msg_role m = Assistant) (mr_messages req))
      in case find_map (\<lambda>r. list_get (ru_responses r) turn)
           (filter (\<lambda>r. is_none_or (\<lambda>m. matches m req) (ru_matcher r)) rules) of
           Some r \<Rightarrow> Inr r
         | None \<Rightarrow> Inl (ProviderOther
             (''fake provider: no scripted response for turn '' @ show_nat turn
              @ '' at depth '' @ show_nat (unat (rm_depth (mr_metadata req)))
              @ '', first user text '' @ debug (case user_text_of req First of None \<Rightarrow> [] | Some t \<Rightarrow> t)
              @ '', last user text '' @ debug (case user_text_of req Last of None \<Rightarrow> [] | Some t \<Rightarrow> t))))"

fun chunk_loop :: "nat \<Rightarrow> string \<Rightarrow> string list \<Rightarrow> string list" where
  "chunk_loop n cur [] = [cur]"
| "chunk_loop n cur (c # cs) =
     (if cur \<noteq> [] \<and> n < length cur + length c then cur # chunk_loop n c cs
      else chunk_loop n (cur @ c) cs)"

definition chunks :: "string \<Rightarrow> nat \<Rightarrow> string list" where
  "chunks text n = chunk_loop n [] (utf8_chars text)"

definition fill_response :: "model_response \<Rightarrow> model_request \<Rightarrow> model_response" where
  "fill_response r req =
     (let r1 = (if rs_model r = [] then r\<lparr>rs_model := mr_model req\<rparr> else r)
      in if rs_usage r1 = usage_default
         then
           let input_bytes = (case mr_system req of None \<Rightarrow> 0 | Some s \<Rightarrow> length s)
                 + sum_list (map (\<lambda>m. length (message_text m)) (mr_messages req));
               output_bytes = sum_list (map (\<lambda>b. case b of Text t \<Rightarrow> length t | _ \<Rightarrow> 0) (rs_content r1))
           in r1\<lparr>rs_usage := usage_default\<lparr>input_tokens := max (of_nat input_bytes div 4) 1,
                output_tokens := max (of_nat output_bytes div 4) 1\<rparr>\<rparr>
         else r1)"

fun block_events ::
    "(json \<Rightarrow> string) \<Rightarrow> nat \<Rightarrow> nat \<Rightarrow> content_block \<Rightarrow> provider_error + stream_event list" where
  "block_events print n index (Text t) =
     Inr (BlockStart index StartText # map (TextDelta index) (chunks t n) @ [BlockStop index])"
| "block_events print n index (Thinking t s) =
     Inr (BlockStart index StartThinking # map (ThinkingDelta index) (chunks t n)
       @ (case s of None \<Rightarrow> [] | Some sg \<Rightarrow> map (SignatureDelta index) (chunks sg n))
       @ [BlockStop index])"
| "block_events print n index (ToolUse i nm v) =
     Inr (BlockStart index (StartToolUse i nm) # map (ToolInputDelta index) (chunks (print v) n)
       @ [BlockStop index])"
| "block_events print n index (Opaque p k r) = Inr [BlockStart index (StartOpaque p k r), BlockStop index]"
| "block_events print n index (ToolResult _ _ _) =
     Inl (Protocol ''tool results cannot be streamed as model output'')"

fun content_events ::
    "(json \<Rightarrow> string) \<Rightarrow> nat \<Rightarrow> nat \<Rightarrow> content_block list \<Rightarrow> provider_error + stream_event list" where
  "content_events print n index [] = Inr []"
| "content_events print n index (b # bs) =
     (case block_events print n index b of
        Inl e \<Rightarrow> Inl e
      | Inr es \<Rightarrow> (case content_events print n (index + 1) bs of Inl e \<Rightarrow> Inl e | Inr fs \<Rightarrow> Inr (es @ fs)))"

definition response_events ::
    "(json \<Rightarrow> string) \<Rightarrow> nat \<Rightarrow> model_response \<Rightarrow> model_request \<Rightarrow> provider_error + stream_event list" where
  "response_events print n resp req =
     (let r = fill_response resp req
      in case content_events print n 0 (rs_content r) of
           Inl e \<Rightarrow> Inl e
         | Inr es \<Rightarrow> Inr (
             MessageStart (rs_id r) (rs_model r) ((rs_usage r)\<lparr>output_tokens := 0\<rparr>) # es
             @ [MessageDelta (Some (rs_stop_reason r))
                 (usage_default\<lparr>output_tokens := output_tokens (rs_usage r)\<rparr>)]
             @ (if rs_usage_iterations r = [] then []
                else [UsageSnapshot (rs_model r) (rs_usage r) (rs_usage_iterations r)])
             @ [MessageStop]))"

text \<open>The items the stream yields; `cancelled i` is the token's state before item `i`.\<close>

fun stream_items :: "(nat \<Rightarrow> bool) \<Rightarrow> nat \<Rightarrow> stream_event list \<Rightarrow> (provider_error + stream_event) list" where
  "stream_items cancelled i [] = (if cancelled i then [Inl ProviderCancelled] else [])"
| "stream_items cancelled i (e # es) =
     (if cancelled i then [Inl ProviderCancelled] else Inr e # stream_items cancelled (i + 1) es)"

definition scripted_stream ::
    "(string \<Rightarrow> string) \<Rightarrow> (json \<Rightarrow> string) \<Rightarrow> rule list \<Rightarrow> nat \<Rightarrow> bool \<Rightarrow> (nat \<Rightarrow> bool) \<Rightarrow> model_request
      \<Rightarrow> provider_error + (provider_error + stream_event) list" where
  "scripted_stream debug print rules n cancelled_before cancelled req =
     (if cancelled_before then Inl (provider_cancelled False)
      else case respond debug rules req of
        Inl e \<Rightarrow> Inl e
      | Inr r \<Rightarrow> (case response_events print n r req of
          Inl e \<Rightarrow> Inl e | Inr es \<Rightarrow> Inr (stream_items cancelled 0 es)))"

definition with_chunk_size :: "nat \<Rightarrow> nat" where
  "with_chunk_size n = max n 1"

end
