(* ===== verification/Accumulator_Props.thy ===== *)
theory Accumulator_Props
  imports Accumulator
begin

text \<open>
  What the stream collector guarantees: a response streamed by the fake provider in chunks of
  any size is collected back, a chunk never splits a character, and only a well-formed stream
  is accepted.
\<close>

section \<open>Chunks\<close>

lemma concat_chunk_loop: "concat (chunk_loop n cur cs) = cur @ concat cs"
  by (induction n cur cs rule: chunk_loop.induct) auto

lemma concat_chunks [simp]: "concat (chunks t n) = t"
  by (simp add: chunks_def concat_chunk_loop)

lemma chunks_not_Nil [simp]: "chunks t n \<noteq> []"
proof -
  have "chunk_loop n cur cs \<noteq> []" for cur cs
    by (induction n cur cs rule: chunk_loop.induct) auto
  then show ?thesis by (simp add: chunks_def)
qed

lemma chunk_loop_bound:
  assumes "c \<in> set (chunk_loop n cur cs)"
    "\<exists>xs. cur = concat xs \<and> (length cur \<le> n \<or> length xs \<le> 1) \<and> set xs \<subseteq> A" "set cs \<subseteq> A"
  shows "\<exists>xs. c = concat xs \<and> (length c \<le> n \<or> length xs \<le> 1) \<and> set xs \<subseteq> A"
  using assms
proof (induction n cur cs rule: chunk_loop.induct)
  case (1 n cur)
  then show ?case by simp
next
  case (2 n cur ch cs)
  show ?case
  proof (cases "cur \<noteq> [] \<and> n < length cur + length ch")
    case True
    have "\<exists>xs. ch = concat xs \<and> (length ch \<le> n \<or> length xs \<le> 1) \<and> set xs \<subseteq> A"
      using 2(5) by (intro exI [of _ "[ch]"]) simp
    with 2 True show ?thesis by auto
  next
    case False
    obtain xs where xs: "cur = concat xs" "length cur \<le> n \<or> length xs \<le> 1" "set xs \<subseteq> A"
      using 2(4) by blast
    have "\<exists>ys. cur @ ch = concat ys \<and> (length (cur @ ch) \<le> n \<or> length ys \<le> 1) \<and> set ys \<subseteq> A"
    proof (cases "cur = []")
      case True
      then show ?thesis using 2(5) by (intro exI [of _ "[ch]"]) simp
    next
      case c: False
      then have "length (cur @ ch) \<le> n" using False by simp
      then show ?thesis using xs 2(5) by (intro exI [of _ "xs @ [ch]"]) simp
    qed
    with 2 False show ?thesis by auto
  qed
qed

text \<open>
  Splitting a text into chunks loses nothing, and every chunk consists of whole characters
  and is at most the chunk size long, unless it is a single character longer than that.
\<close>
theorem chunks_whole_characters:
  "concat (chunks t n) = t
    \<and> (c \<in> set (chunks t n) \<longrightarrow> (\<exists>xs. c = concat xs \<and> set xs \<subseteq> set (utf8_chars t)
        \<and> (length c \<le> n \<or> length xs \<le> 1)))"
proof -
  have "\<exists>xs. ([] :: string) = concat xs \<and> (length ([] :: string) \<le> n \<or> length xs \<le> 1)
      \<and> set xs \<subseteq> set (utf8_chars t)"
    by (intro exI [of _ "[]"]) simp
  then show ?thesis using chunk_loop_bound [of c n "[]" "utf8_chars t" "set (utf8_chars t)"]
    by (auto simp: chunks_def concat_chunk_loop)
qed

theorem chunks_whole_characters_witness:
  "\<exists>xs. [CHR 0xC3, CHR 0xA9] = concat xs \<and> set xs \<subseteq> {[CHR 0xC3, CHR 0xA9], ''a''} \<and> length xs \<le> 1"
proof -
  have u: "utf8_chars [CHR 0xC3, CHR 0xA9, CHR ''a''] = [[CHR 0xC3, CHR 0xA9], ''a'']"
    by (simp add: utf8_cont_def)
  then have "[CHR 0xC3, CHR 0xA9] \<in> set (chunks [CHR 0xC3, CHR 0xA9, CHR ''a''] 1)"
    by (simp add: chunks_def)
  then show ?thesis
    using chunks_whole_characters [of "[CHR 0xC3, CHR 0xA9, CHR ''a'']" 1 "[CHR 0xC3, CHR 0xA9]"] u
    by (auto simp: insert_commute)
qed

section \<open>Collecting a streamed response\<close>

lemma push_all_append:
  "push_all parse ac (xs @ ys) =
     (case push_all parse ac xs of Inl e \<Rightarrow> Inl e | Inr ac' \<Rightarrow> push_all parse ac' ys)"
  by (induction parse ac xs rule: push_all.induct) (auto split: sum.splits)

definition ready :: "accumulator \<Rightarrow> bool" where
  "ready ac = (ac_header ac \<noteq> None \<and> \<not> ac_stopped ac)"

lemma push_ready: "ready ac \<Longrightarrow> push parse ac e = push_event parse ac e"
  by (auto simp: push_def ready_def)

lemma ready_update [simp]:
  "ready (ac\<lparr>ac_blocks := b\<rparr>) = ready ac" "ready (put_block ac i p) = ready ac"
  by (simp_all add: ready_def put_block_def)

text \<open>The accumulator while the block `index` is open, as the last one.\<close>

definition top_block :: "accumulator \<Rightarrow> nat \<Rightarrow> pending_block \<Rightarrow> accumulator" where
  "top_block ac index b = ac\<lparr>ac_blocks := ac_blocks ac @ [(index, b)]\<rparr>"

definition below :: "accumulator \<Rightarrow> nat \<Rightarrow> bool" where
  "below ac index = (\<forall>k \<in> set (map fst (ac_blocks ac)). k < index)"

lemma ready_top [simp]: "ready (top_block ac i b) = ready ac"
  by (simp add: ready_def top_block_def)

lemma top_block_inj [simp]: "top_block ac i a = top_block ac i b \<longleftrightarrow> a = b"
proof
  assume "top_block ac i a = top_block ac i b"
  then show "a = b" by (auto simp: top_block_def dest: arg_cong [where f = ac_blocks])
qed simp

lemma below_None: "below ac index \<Longrightarrow> map_of (ac_blocks ac) index = None"
  by (auto simp: below_def map_of_eq_None_iff)

lemma open_top:
  "below ac index \<Longrightarrow> \<not> pb_closed b \<Longrightarrow> open_block (top_block ac index b) index = Inr b"
  using below_None [of ac index] by (simp add: open_block_def top_block_def map_add_def)

lemma put_top: "below ac index \<Longrightarrow> put_block (top_block ac index b) index b' = top_block ac index b'"
  by (simp add: below_def put_block_def top_block_def bt_insert_update_last)

lemma with_open_top:
  assumes "below ac index" "\<not> pb_closed b" "f b = Inr b'"
  shows "with_open (top_block ac index b) index f = Inr (top_block ac index b')"
  using assms by (simp add: with_open_def open_top put_top)

lemma push_start:
  assumes "ready ac" "below ac index"
  shows "push parse ac (BlockStart index st) = Inr (top_block ac index
    \<lparr>pb_content = initial_content st, pb_partial_json = [], pb_closed = False\<rparr>)"
  using assms below_None [OF assms(2)]
  by (simp add: push_ready block_start_event_def put_block_def top_block_def below_def bt_insert_last)

lemma push_text_deltas:
  assumes "ready ac" "below ac index"
  shows "push_all parse (top_block ac index \<lparr>pb_content = Text t, pb_partial_json = p, pb_closed = False\<rparr>)
      (map Inr (map (TextDelta index) cs))
    = Inr (top_block ac index \<lparr>pb_content = Text (t @ concat cs), pb_partial_json = p, pb_closed = False\<rparr>)"
proof (induction cs arbitrary: t)
  case (Cons c cs)
  then show ?case using assms
    by (simp add: push_ready with_open_top text_delta_def)
qed simp

lemma push_thinking_deltas:
  assumes "ready ac" "below ac index"
  shows "push_all parse (top_block ac index \<lparr>pb_content = Thinking t s, pb_partial_json = p, pb_closed = False\<rparr>)
      (map Inr (map (ThinkingDelta index) cs))
    = Inr (top_block ac index \<lparr>pb_content = Thinking (t @ concat cs) s, pb_partial_json = p, pb_closed = False\<rparr>)"
proof (induction cs arbitrary: t)
  case (Cons c cs)
  then show ?case using assms
    by (simp add: push_ready with_open_top thinking_delta_def)
qed simp

lemma push_signature_deltas:
  assumes "ready ac" "below ac index"
  shows "push_all parse (top_block ac index \<lparr>pb_content = Thinking t (Some s), pb_partial_json = p, pb_closed = False\<rparr>)
      (map Inr (map (SignatureDelta index) cs))
    = Inr (top_block ac index \<lparr>pb_content = Thinking t (Some (s @ concat cs)), pb_partial_json = p, pb_closed = False\<rparr>)"
proof (induction cs arbitrary: s)
  case (Cons c cs)
  then show ?case using assms
    by (simp add: push_ready with_open_top signature_delta_def)
qed simp

lemma push_signature_first:
  assumes "ready ac" "below ac index" "cs \<noteq> []"
  shows "push_all parse (top_block ac index \<lparr>pb_content = Thinking t None, pb_partial_json = p, pb_closed = False\<rparr>)
      (map Inr (map (SignatureDelta index) cs))
    = Inr (top_block ac index \<lparr>pb_content = Thinking t (Some (concat cs)), pb_partial_json = p, pb_closed = False\<rparr>)"
proof (cases cs)
  case (Cons c cs')
  then show ?thesis using assms push_signature_deltas [OF assms(1,2), of parse t c p cs']
    by (simp add: push_ready with_open_top signature_delta_def)
qed (use assms in simp)

lemma push_tool_deltas:
  assumes "ready ac" "below ac index"
  shows "push_all parse (top_block ac index \<lparr>pb_content = ToolUse i n v, pb_partial_json = p, pb_closed = False\<rparr>)
      (map Inr (map (ToolInputDelta index) cs))
    = Inr (top_block ac index \<lparr>pb_content = ToolUse i n v, pb_partial_json = p @ concat cs, pb_closed = False\<rparr>)"
proof (induction cs arbitrary: p)
  case (Cons c cs)
  then show ?case using assms
    by (simp add: push_ready with_open_top tool_input_delta_def)
qed simp

lemma push_stop:
  assumes "ready ac" "below ac index" "\<not> pb_closed b"
  shows "push parse (top_block ac index b) (BlockStop index) = block_stop parse (top_block ac index b) index"
  using assms by (simp add: push_ready)

text \<open>The JSON text of a tool input parses back: the law of the serializer that is used.\<close>

fun prints_back :: "(string \<Rightarrow> json option) \<Rightarrow> (json \<Rightarrow> string) \<Rightarrow> content_block \<Rightarrow> bool" where
  "prints_back parse print (ToolUse _ _ v) = (print v \<noteq> [] \<and> parse (print v) = Some v)"
| "prints_back parse print (ToolResult _ _ _) = False"
| "prints_back parse print _ = True"

lemma push_block_events:
  assumes "ready ac" "below ac index" "prints_back parse print b"
  shows "\<exists>es blk. block_events print n index b = Inr es \<and> pb_content blk = b \<and> pb_closed blk
    \<and> push_all parse ac (map Inr es) = Inr (top_block ac index blk)"
proof (cases b)
  case (Text t)
  then show ?thesis using assms
    by (auto simp: push_start push_all_append push_text_deltas push_stop block_stop_def open_top put_top
        simp del: map_map)
next
  case (Thinking t s)
  then show ?thesis using assms
    by (cases s) (auto simp: push_start push_all_append push_thinking_deltas push_signature_first
        push_stop block_stop_def open_top put_top simp del: map_map)
next
  case (ToolUse i nm v)
  then show ?thesis using assms
    by (auto simp: push_start push_all_append push_tool_deltas push_stop block_stop_def open_top put_top
        simp del: map_map)
next
  case (Opaque p k r)
  then show ?thesis using assms
    by (auto simp: push_start push_stop block_stop_def open_top put_top)
qed (use assms in simp)

lemma push_content_events:
  assumes "ready ac" "below ac index" "list_all (prints_back parse print) bs"
    "list_all (\<lambda>(_, b). pb_closed b) (ac_blocks ac)"
  shows "\<exists>es blks. content_events print n index bs = Inr es
    \<and> push_all parse ac (map Inr es) = Inr (ac\<lparr>ac_blocks := ac_blocks ac @ blks\<rparr>)
    \<and> map (\<lambda>(_, b). pb_content b) blks = bs \<and> list_all (\<lambda>(_, b). pb_closed b) blks"
  using assms
proof (induction bs arbitrary: ac index)
  case Nil
  then show ?case by simp
next
  case (Cons b bs)
  then obtain es blk where b: "block_events print n index b = Inr es" "pb_content blk = b" "pb_closed blk"
      "push_all parse ac (map Inr es) = Inr (top_block ac index blk)"
    using push_block_events [of ac index parse print b n] by auto
  have "below (top_block ac index blk) (index + 1)"
    using Cons.prems(2) by (auto simp: below_def top_block_def)
  moreover have "list_all (\<lambda>(_, b). pb_closed b) (ac_blocks (top_block ac index blk))"
    using Cons.prems(4) b(3) by (simp add: top_block_def)
  ultimately obtain fs blks where "content_events print n (index + 1) bs = Inr fs"
      "push_all parse (top_block ac index blk) (map Inr fs)
        = Inr ((top_block ac index blk)\<lparr>ac_blocks := ac_blocks (top_block ac index blk) @ blks\<rparr>)"
      "map (\<lambda>(_, b). pb_content b) blks = bs" "list_all (\<lambda>(_, b). pb_closed b) blks"
    using Cons.IH [of "top_block ac index blk" "index + 1"] Cons.prems(1,3) by auto
  then show ?case using b
    by (intro exI [of _ "es @ fs"] exI [of _ "(index, blk) # blks"])
      (simp add: push_all_append top_block_def)
qed

lemma stream_items_live: "(\<And>i. \<not> cancelled i) \<Longrightarrow> stream_items cancelled i es = map Inr es"
  by (induction es arbitrary: i) auto

text \<open>
  C14. Streaming a response and collecting the stream gives the response back, whatever the chunk
  size: every text, thinking text, signature, tool input and opaque block, the stop reason, the
  usage and its iterations, with the model name and an estimated usage filled in where the
  script omits them.  The serializer is assumed to print each tool input as a non-empty text
  that parses back.
\<close>
theorem collect_response_stream:
  assumes "list_all (prints_back parse print) (rs_content r)"
  shows "\<exists>es. response_events print n r req = Inr es
    \<and> collect parse (map Inr es) = Inr (fill_response r req)"
proof -
  define f where "f = fill_response r req"
  have content: "rs_content f = rs_content r"
    by (simp add: f_def fill_response_def Let_def)
  let ?ac = "accumulator_new\<lparr>ac_header := Some (rs_id f, rs_model f),
    ac_usage := (rs_usage f)\<lparr>output_tokens := 0\<rparr>\<rparr>"
  have "ready ?ac" "below ?ac 0" "list_all (\<lambda>(_, b). pb_closed b) (ac_blocks ?ac)"
    by (simp_all add: ready_def below_def accumulator_new_def)
  then obtain es blks where e: "content_events print n 0 (rs_content f) = Inr es"
      "push_all parse ?ac (map Inr es) = Inr (?ac\<lparr>ac_blocks := ac_blocks ?ac @ blks\<rparr>)"
      "map (\<lambda>(_, b). pb_content b) blks = rs_content f" "list_all (\<lambda>(_, b). pb_closed b) blks"
    using push_content_events [of ?ac 0 parse print "rs_content f" n] assms content by auto
  have closed: "\<not> list_ex (\<lambda>(_, b). \<not> pb_closed b) blks"
    using e(4) by (auto simp: list_ex_iff list_all_iff)
  have first: "push parse accumulator_new
      (MessageStart (rs_id f) (rs_model f) ((rs_usage f)\<lparr>output_tokens := 0\<rparr>)) = Inr ?ac"
    by (simp add: push_def accumulator_new_def)
  have upd: "update_counters ((rs_usage f)\<lparr>output_tokens := 0\<rparr>)
      (usage_default\<lparr>output_tokens := output_tokens (rs_usage f)\<rparr>) = rs_usage f"
    by (simp add: update_counters_def usage_default_def latest_def)
  show ?thesis
    using e(1,2,3) closed first upd unfolding response_events_def collect_def f_def [symmetric]
    by (simp add: Let_def push_all_append push_def accumulator_new_def finish_def)
qed

definition sample_response :: model_response where
  "sample_response = \<lparr>rs_id = None, rs_model = [],
     rs_content = [Thinking ''hm'' (Some []), Text ''hello'', ToolUse ''t1'' ''wait'' (JObj [])],
     rs_stop_reason = ToolUseStop, rs_usage = usage_default, rs_usage_iterations = []\<rparr>"

definition sample_request :: model_request where
  "sample_request = \<lparr>mr_model = ''m'', mr_system = None, mr_messages = [user_text ''task''],
     mr_tools = [], mr_max_tokens = 100,
     mr_options = \<lparr>ro_effort = None, ro_thinking_display = None, ro_disable_cache = False,
       ro_task_budget_total = None\<rparr>,
     mr_metadata = \<lparr>rm_node_id = None, rm_depth = 0\<rparr>\<rparr>"

definition print_empty :: "json \<Rightarrow> string" where
  "print_empty v = (if v = JObj [] then ''{}'' else ''null'')"

definition parse_empty :: "string \<Rightarrow> json option" where
  "parse_empty s = (if s = ''{}'' then Some (JObj []) else None)"

theorem collect_response_stream_witness:
  "\<exists>es. response_events print_empty 2 sample_response sample_request = Inr es
    \<and> collect parse_empty (map Inr es) = Inr (fill_response sample_response sample_request)"
  by (rule collect_response_stream)
    (simp add: sample_response_def print_empty_def parse_empty_def)

section \<open>Accepted streams\<close>

fun starts :: "nat \<Rightarrow> stream_event \<Rightarrow> bool" where
  "starts k (BlockStart i _) = (i = k)"
| "starts k _ = False"

fun stops :: "nat \<Rightarrow> stream_event \<Rightarrow> bool" where
  "stops k (BlockStop i) = (i = k)"
| "stops k _ = False"

definition framing :: "stream_event \<Rightarrow> bool" where
  "framing e = (is_message_start e \<or> e = MessageStop)"

text \<open>The blocks record which indices were started and which of them were stopped.\<close>

definition seen_counts :: "stream_event list \<Rightarrow> nat \<Rightarrow> nat \<times> nat" where
  "seen_counts evs k = (length (filter (starts k) evs), length (filter (stops k) evs))"

fun expected_counts :: "pending_block option \<Rightarrow> nat \<times> nat" where
  "expected_counts None = (0, 0)"
| "expected_counts (Some b) = (1, of_bool (pb_closed b))"

definition blocks_match :: "stream_event list \<Rightarrow> accumulator \<Rightarrow> bool" where
  "blocks_match evs ac = (bt_wf (ac_blocks ac) \<and>
     (\<forall>k. seen_counts evs k = expected_counts (map_of (ac_blocks ac) k)))"

lemma seen_counts_snoc:
  "seen_counts (evs @ [e]) k = (fst (seen_counts evs k) + of_bool (starts k e),
     snd (seen_counts evs k) + of_bool (stops k e))"
  by (simp add: seen_counts_def)

lemma blocks_match_same:
  assumes "blocks_match evs ac" "ac_blocks ac' = ac_blocks ac" "\<And>k. \<not> starts k e" "\<And>k. \<not> stops k e"
  shows "blocks_match (evs @ [e]) ac'"
  using assms by (simp add: blocks_match_def seen_counts_snoc)

lemma blocks_match_put:
  assumes "blocks_match evs ac" "map_of (ac_blocks ac) index = Some b" "\<not> pb_closed b"
    "\<And>k. \<not> starts k e" "\<And>k. stops k e \<longleftrightarrow> k = index \<and> pb_closed b'"
    "ac_blocks ac' = bt_insert index b' (ac_blocks ac)"
  shows "blocks_match (evs @ [e]) ac'"
  using assms by (simp add: blocks_match_def seen_counts_snoc)

lemma open_block_InrD:
  "open_block ac index = Inr b \<Longrightarrow> map_of (ac_blocks ac) index = Some b \<and> \<not> pb_closed b"
  by (auto simp: open_block_def split: option.splits if_splits)

lemma with_open_match:
  assumes "blocks_match evs ac" "with_open ac index f = Inr ac'" "ready ac"
    "\<And>b b'. f b = Inr b' \<Longrightarrow> pb_closed b' = pb_closed b"
    "\<And>k. \<not> starts k e" "\<And>k. \<not> stops k e"
  shows "blocks_match (evs @ [e]) ac' \<and> ready ac'"
proof -
  obtain b b' where b: "open_block ac index = Inr b" "f b = Inr b'" "ac' = put_block ac index b'"
    using assms(2) by (auto simp: with_open_def split: sum.splits)
  note o = open_block_InrD [OF b(1)]
  have "blocks_match (evs @ [e]) ac'"
    by (rule blocks_match_put [OF assms(1) o [THEN conjunct1] o [THEN conjunct2]])
      (use assms(4) [OF b(2)] assms(5,6) o b(3) in \<open>auto simp: put_block_def\<close>)
  then show ?thesis using assms(3) b(3) by simp
qed

lemma delta_keeps_closed:
  "text_delta i t b = Inr b' \<Longrightarrow> pb_closed b' = pb_closed b"
  "thinking_delta i t b = Inr b' \<Longrightarrow> pb_closed b' = pb_closed b"
  "signature_delta i t b = Inr b' \<Longrightarrow> pb_closed b' = pb_closed b"
  "tool_input_delta i t b = Inr b' \<Longrightarrow> pb_closed b' = pb_closed b"
  by (auto simp: text_delta_def thinking_delta_def signature_delta_def tool_input_delta_def
      split: content_block.splits)

lemma block_stop_match:
  assumes "blocks_match evs ac" "block_stop parse ac index = Inr ac'" "ready ac"
  shows "blocks_match (evs @ [BlockStop index]) ac' \<and> ready ac'"
proof -
  obtain b where b: "open_block ac index = Inr b"
    using assms(2) by (auto simp: block_stop_def split: sum.splits)
  note o = open_block_InrD [OF b]
  have "\<exists>b'. pb_closed b' \<and> ac_blocks ac' = bt_insert index b' (ac_blocks ac) \<and> ready ac'"
    using assms(2,3) b
    by (auto simp: block_stop_def put_block_def ready_def Let_def
        split: content_block.splits prod.splits if_splits option.splits)
  then obtain b' where b': "pb_closed b'" "ac_blocks ac' = bt_insert index b' (ac_blocks ac)" "ready ac'"
    by blast
  have "blocks_match (evs @ [BlockStop index]) ac'"
    by (rule blocks_match_put [OF assms(1) o [THEN conjunct1] o [THEN conjunct2]]) (use b' in auto)
  then show ?thesis using b' by simp
qed

lemma block_start_match:
  assumes "blocks_match evs ac" "block_start_event ac index st = Inr ac'" "ready ac"
  shows "blocks_match (evs @ [BlockStart index st]) ac' \<and> ready ac'"
proof -
  have n: "map_of (ac_blocks ac) index = None"
    and a: "ac' = put_block ac index \<lparr>pb_content = initial_content st, pb_partial_json = [], pb_closed = False\<rparr>"
    using assms(2) by (auto simp: block_start_event_def split: option.splits)
  show ?thesis
    using assms(1,3) n unfolding a
    by (auto simp: blocks_match_def put_block_def ready_def seen_counts_snoc)
qed

lemma push_match:
  assumes "blocks_match evs ac" "ready ac" "\<not> framing e" "push parse ac e = Inr ac'"
  shows "blocks_match (evs @ [e]) ac' \<and> ready ac'"
proof (cases e)
  case (BlockStart i st)
  then show ?thesis using assms block_start_match by (simp add: push_ready)
next
  case (TextDelta i t)
  then have "with_open ac i (text_delta i t) = Inr ac'" using assms by (simp add: push_ready)
  then show ?thesis unfolding TextDelta
    by (rule with_open_match [OF assms(1) _ assms(2)]) (auto dest: delta_keeps_closed)
next
  case (ThinkingDelta i t)
  then have "with_open ac i (thinking_delta i t) = Inr ac'" using assms by (simp add: push_ready)
  then show ?thesis unfolding ThinkingDelta
    by (rule with_open_match [OF assms(1) _ assms(2)]) (auto dest: delta_keeps_closed)
next
  case (SignatureDelta i t)
  then have "with_open ac i (signature_delta i t) = Inr ac'" using assms by (simp add: push_ready)
  then show ?thesis unfolding SignatureDelta
    by (rule with_open_match [OF assms(1) _ assms(2)]) (auto dest: delta_keeps_closed)
next
  case (ToolInputDelta i t)
  then have "with_open ac i (tool_input_delta i t) = Inr ac'" using assms by (simp add: push_ready)
  then show ?thesis unfolding ToolInputDelta
    by (rule with_open_match [OF assms(1) _ assms(2)]) (auto dest: delta_keeps_closed)
next
  case (BlockStop i)
  then show ?thesis using assms block_stop_match by (simp add: push_ready)
next
  case (MessageDelta r u)
  then show ?thesis using assms
    by (auto simp: push_ready ready_def intro: blocks_match_same [OF assms(1)])
next
  case (UsageSnapshot m u its)
  then show ?thesis using assms
    by (auto simp: push_ready ready_def intro: blocks_match_same [OF assms(1)])
qed (use assms in \<open>simp_all add: framing_def\<close>)

lemma push_all_stopped: "ac_stopped ac \<Longrightarrow> push_all parse ac es = Inr ac' \<Longrightarrow> es = []"
  by (cases es rule: list.exhaust; cases "hd es") (auto simp: push_def)

lemma stop_all_closed:
  assumes "blocks_match evs ac" "push parse ac MessageStop = Inr ac'" "ready ac"
  shows "seen_counts evs k = (0, 0) \<or> seen_counts evs k = (1, 1)"
proof (cases "map_of (ac_blocks ac) k")
  case None
  then show ?thesis using assms(1) by (simp add: blocks_match_def)
next
  case (Some b)
  then have "(k, b) \<in> set (ac_blocks ac)" by (rule map_of_SomeD)
  then have "pb_closed b"
    using assms(2,3) by (auto simp: push_ready list_ex_iff split: if_splits)
  then show ?thesis using assms(1) Some by (simp add: blocks_match_def)
qed

text \<open>A stream that ends in the stopped state, from the state after the message start.\<close>

lemma accepted_rest:
  assumes "push_all parse ac items = Inr ac'" "ac_stopped ac'" "blocks_match evs ac" "ready ac"
  shows "\<exists>mid acm. items = map Inr (mid @ [MessageStop]) \<and> list_all (\<lambda>e. \<not> framing e) mid
    \<and> (\<forall>k. seen_counts (evs @ mid) k = (0, 0) \<or> seen_counts (evs @ mid) k = (1, 1))
    \<and> blocks_match (evs @ mid) acm \<and> ac' = acm\<lparr>ac_stopped := True\<rparr>"
  using assms
proof (induction parse ac items arbitrary: evs rule: push_all.induct)
  case (1 parse ac)
  then show ?case by (auto simp: ready_def)
next
  case (2 parse ac e es)
  then show ?case by simp
next
  case (3 parse ac e es)
  obtain ac1 where p: "push parse ac e = Inr ac1" "push_all parse ac1 es = Inr ac'"
    using 3(2) by (auto split: sum.splits)
  show ?case
  proof (cases "framing e")
    case True
    then have e: "e = MessageStop"
      using p(1) 3(5) by (cases e) (auto simp: framing_def push_ready ready_def)
    then have ac1: "ac1 = ac\<lparr>ac_stopped := True\<rparr>"
      using p(1) 3(5) by (auto simp: push_ready split: if_splits)
    then have "es = []" using push_all_stopped [OF _ p(2)] by simp
    then show ?thesis using e ac1 p 3(4) stop_all_closed [OF 3(4) p(1) [unfolded e] 3(5)]
      by (intro exI [of _ "[]"] exI [of _ ac]) simp
  next
    case False
    have m: "blocks_match (evs @ [e]) ac1" "ready ac1" using push_match [OF 3(4,5) False p(1)] by simp_all
    obtain mid acm where "es = map Inr (mid @ [MessageStop])" "list_all (\<lambda>e. \<not> framing e) mid"
      "\<forall>k. seen_counts ((evs @ [e]) @ mid) k = (0, 0) \<or> seen_counts ((evs @ [e]) @ mid) k = (1, 1)"
      "blocks_match ((evs @ [e]) @ mid) acm" "ac' = acm\<lparr>ac_stopped := True\<rparr>"
      using 3(1) [OF p(1) p(2) 3(3) m] by blast
    then show ?thesis using False by (intro exI [of _ "e # mid"] exI [of _ acm]) simp
  qed
qed

text \<open>
  C15. The collector accepts only well-formed streams: one message start first, one message stop
  last, nothing but events in between, every block index started at most once and stopped
  exactly as often; and the response has one content block per started index, in index order.
\<close>
theorem collect_accepts_wellformed:
  assumes "collect parse items = Inr r"
  shows "\<exists>i m u mid. \<exists>blocks :: (nat \<times> pending_block) list.
    items = map Inr (MessageStart i m u # mid @ [MessageStop])
    \<and> list_all (\<lambda>e. \<not> framing e) mid
    \<and> (\<forall>k. seen_counts mid k = (0, 0) \<or> seen_counts mid k = (1, 1))
    \<and> rs_content r = map (\<lambda>(_, b). pb_content b) blocks \<and> sorted_wrt (<) (map fst blocks)
    \<and> (\<forall>k. k \<in> fst ` set blocks \<longleftrightarrow> seen_counts mid k = (1, 1))"
proof -
  obtain ac' where ac': "push_all parse accumulator_new items = Inr ac'" "finish ac' = Inr r"
    using assms by (auto simp: collect_def split: sum.splits)
  have st: "ac_stopped ac'" and content: "rs_content r = map (\<lambda>(_, b). pb_content b) (ac_blocks ac')"
    using ac'(2) by (auto simp: finish_def split: if_splits option.splits prod.splits)
  obtain e rest ac1 where i: "items = Inr e # rest" "push parse accumulator_new e = Inr ac1"
      "push_all parse ac1 rest = Inr ac'"
    using ac'(1) st by (cases "(parse, accumulator_new, items)" rule: push_all.cases)
      (auto simp: accumulator_new_def split: sum.splits)
  have "is_message_start e" using i(2) by (auto simp: push_def accumulator_new_def split: if_splits)
  then obtain j mdl u where e: "e = MessageStart j mdl u" by (cases e) auto
  have ac1: "ready ac1" "blocks_match [] ac1"
    using i(2) e by (auto simp: push_def accumulator_new_def ready_def blocks_match_def bt_wf_def
        seen_counts_def split: if_splits)
  obtain mid acm where m: "rest = map Inr (mid @ [MessageStop])" "list_all (\<lambda>e. \<not> framing e) mid"
      "\<forall>k. seen_counts mid k = (0, 0) \<or> seen_counts mid k = (1, 1)"
      "blocks_match mid acm" "ac' = acm\<lparr>ac_stopped := True\<rparr>"
    using accepted_rest [OF i(3) st ac1(2,1)] by auto
  have "k \<in> fst ` set (ac_blocks acm) \<longleftrightarrow> seen_counts mid k = (1, 1)" for k
  proof (cases "map_of (ac_blocks acm) k")
    case None
    then have "seen_counts mid k = (0, 0)" using m(4) by (simp add: blocks_match_def)
    moreover have "k \<notin> fst ` set (ac_blocks acm)" using None by (simp add: map_of_eq_None_iff)
    ultimately show ?thesis by simp
  next
    case (Some b)
    then have "k \<in> fst ` set (ac_blocks acm)" by (force dest: map_of_SomeD)
    moreover have "seen_counts mid k \<noteq> (0, 0)" using Some m(4) by (simp add: blocks_match_def)
    ultimately show ?thesis using m(3) by auto
  qed
  then show ?thesis using i(1) e m content
    by - (rule exI [of _ j], rule exI [of _ mdl], rule exI [of _ u], rule exI [of _ mid],
      rule exI [of _ "ac_blocks acm"], simp add: blocks_match_def bt_wf_def)
qed

definition sample_items :: "(provider_error + stream_event) list" where
  "sample_items = map Inr [MessageStart None ''m'' usage_default, BlockStart 3 StartText, BlockStop 3,
     BlockStart 1 StartText, TextDelta 1 ''a'', BlockStop 1, MessageDelta (Some EndTurn) usage_default,
     MessageStop]"

lemma sample_collect: "collect parse_empty sample_items = Inr \<lparr>rs_id = None, rs_model = ''m'',
    rs_content = [Text ''a'', Text []], rs_stop_reason = EndTurn, rs_usage = usage_default,
    rs_usage_iterations = []\<rparr>"
  by (simp add: sample_items_def collect_def push_def accumulator_new_def block_start_event_def
      put_block_def block_stop_def open_block_def with_open_def text_delta_def finish_def
      update_counters_def latest_def usage_default_def)

theorem collect_accepts_wellformed_witness:
  "\<exists>i m u mid. sample_items = map Inr (MessageStart i m u # mid @ [MessageStop])
    \<and> list_all (\<lambda>e. \<not> framing e) mid"
  using collect_accepts_wellformed [OF sample_collect] by blast

end
