(* ===== verification/Sse.thy ===== *)
theory Sse
  imports Provider
begin

text \<open>
  The server-sent-events parser of `crates/providers/src/anthropic/sse.rs`, byte by byte, and
  what its framing guarantees: which of the three line endings is used makes no difference, and
  data lines are joined.  `Sse_Props` compares the parser with the event-stream format.
\<close>

section \<open>The parser\<close>

record sse_event =
  ev_event :: string
  ev_data :: string
  ev_id :: string
  ev_retry :: "u64 option"

definition sse_event_default :: sse_event where
  "sse_event_default = \<lparr>ev_event = [], ev_data = [], ev_id = [], ev_retry = None\<rparr>"

record sse_parser =
  sp_line :: string
  sp_skip_lf :: bool
  sp_first_line :: bool
  sp_current :: sse_event
  sp_has_data :: bool
  sp_last_id :: string
  sp_retry :: "u64 option"

definition sse_new :: sse_parser where
  "sse_new = \<lparr>sp_line = [], sp_skip_lf = False, sp_first_line = True,
     sp_current = sse_event_default, sp_has_data = False, sp_last_id = [], sp_retry = None\<rparr>"

definition BOM :: string where
  "BOM = [CHR 0xEF, CHR 0xBB, CHR 0xBF]"

definition strip_or :: "string \<Rightarrow> string \<Rightarrow> string" where
  "strip_or p s = (case strip_prefix p s of Some t \<Rightarrow> t | None \<Rightarrow> s)"

text \<open>A field line: `field`, or `field:value` with one optional space.\<close>

definition sse_field :: "sse_parser \<Rightarrow> string \<Rightarrow> sse_parser" where
  "sse_field p line =
     (let (field, raw) = (case split_once CHR '':'' line of Some fv \<Rightarrow> fv | None \<Rightarrow> (line, []));
          val = strip_or '' '' raw
      in if field = ''event'' then p\<lparr>sp_current := (sp_current p)\<lparr>ev_event := val\<rparr>\<rparr>
         else if field = ''data''
         then p\<lparr>sp_current := (sp_current p)\<lparr>ev_data := ev_data (sp_current p) @ val @ [CHR 0x0A]\<rparr>,
                sp_has_data := True\<rparr>
         else if field = ''id'' \<and> CHR 0x00 \<notin> set val then p\<lparr>sp_last_id := val\<rparr>
         else if field = ''retry'' \<and> val \<noteq> [] \<and> list_all is_digit val
         then (case parse_digits (2 ^ 64) val of
                 Some n \<Rightarrow> p\<lparr>sp_retry := Some (of_nat n)\<rparr> | None \<Rightarrow> p)
         else p)"

text \<open>A blank line dispatches the event that has data.\<close>

definition sse_dispatch :: "sse_parser \<Rightarrow> sse_event list \<times> sse_parser" where
  "sse_dispatch p =
     (let c = sp_current p;
          fresh = p\<lparr>sp_current := sse_event_default, sp_has_data := False\<rparr>
      in if sp_has_data p
         then ([\<lparr>ev_event = (if ev_event c = [] then ''message'' else ev_event c),
                 ev_data = butlast (ev_data c), ev_id = sp_last_id p, ev_retry = sp_retry p\<rparr>], fresh)
         else ([], fresh))"

definition sse_line :: "sse_parser \<Rightarrow> provider_error + (sse_event list \<times> sse_parser)" where
  "sse_line p0 =
     (let bytes = sp_line p0; p1 = p0\<lparr>sp_line := []\<rparr> in
      if \<not> utf8_valid bytes then Inl (Protocol ''invalid SSE UTF-8'')
      else
        let (line, p) = (if sp_first_line p1 then (strip_or BOM bytes, p1\<lparr>sp_first_line := False\<rparr>)
                         else (bytes, p1))
        in if line = [] then Inr (sse_dispatch p)
           else if prefix '':'' line then Inr ([], p)
           else Inr ([], sse_field p line))"

definition sse_byte :: "sse_parser \<Rightarrow> char \<Rightarrow> provider_error + (sse_event list \<times> sse_parser)" where
  "sse_byte p c =
     (let p' = p\<lparr>sp_skip_lf := False\<rparr> in
      if sp_skip_lf p \<and> c = CHR 0x0A then Inr ([], p')
      else if c = CHR 0x0D \<or> c = CHR 0x0A
      then (case sse_line p' of
              Inl e \<Rightarrow> Inl e
            | Inr (evs, q) \<Rightarrow> Inr (evs, q\<lparr>sp_skip_lf := (c = CHR 0x0D)\<rparr>))
      else Inr ([], p'\<lparr>sp_line := sp_line p' @ [c]\<rparr>))"

fun sse_feed :: "sse_parser \<Rightarrow> string \<Rightarrow> provider_error + (sse_event list \<times> sse_parser)" where
  "sse_feed p [] = Inr ([], p)"
| "sse_feed p (c # cs) =
     (case sse_byte p c of
        Inl e \<Rightarrow> Inl e
      | Inr (evs, q) \<Rightarrow>
          (case sse_feed q cs of Inl e \<Rightarrow> Inl e | Inr (evs', r) \<Rightarrow> Inr (evs @ evs', r)))"

text \<open>The response as it arrives (`response_stream` in `stream.rs`): the events of a chunk go out
  before the next chunk is fed, and a chunk that fails gives none.\<close>

fun sse_feed_chunks :: "sse_parser \<Rightarrow> string list \<Rightarrow> sse_event list \<times> (provider_error + sse_parser)" where
  "sse_feed_chunks p [] = ([], Inr p)"
| "sse_feed_chunks p (x # xs) =
     (case sse_feed p x of
        Inl e \<Rightarrow> ([], Inl e)
      | Inr (evs, q) \<Rightarrow> (let (more_evs, r) = sse_feed_chunks q xs in (evs @ more_evs, r)))"

section \<open>Chunking\<close>

lemma sse_feed_append:
  "sse_feed p (xs @ ys) =
     (case sse_feed p xs of
        Inl e \<Rightarrow> Inl e
      | Inr (evs, q) \<Rightarrow>
          (case sse_feed q ys of Inl e \<Rightarrow> Inl e | Inr (evs', r) \<Rightarrow> Inr (evs @ evs', r)))"
  by (induction xs arbitrary: p) (auto split: sum.splits prod.splits)

section \<open>Line endings\<close>

datatype ending = LF | CR | CRLF

fun ending_bytes :: "ending \<Rightarrow> string" where
  "ending_bytes LF = [CHR 0x0A]"
| "ending_bytes CR = [CHR 0x0D]"
| "ending_bytes CRLF = [CHR 0x0D, CHR 0x0A]"

definition plain_line :: "string \<Rightarrow> bool" where
  "plain_line l = (CHR 0x0A \<notin> set l \<and> CHR 0x0D \<notin> set l)"

definition render_lines :: "ending \<Rightarrow> string list \<Rightarrow> string" where
  "render_lines en ls = concat (map (\<lambda>l. l @ ending_bytes en) ls)"

text \<open>The parser line by line: the reference semantics of the framing.\<close>

fun sse_lines :: "sse_parser \<Rightarrow> string list \<Rightarrow> provider_error + (sse_event list \<times> sse_parser)" where
  "sse_lines p [] = Inr ([], p)"
| "sse_lines p (l # ls) =
     (case sse_line (p\<lparr>sp_line := l\<rparr>) of
        Inl e \<Rightarrow> Inl e
      | Inr (evs, q) \<Rightarrow>
          (case sse_lines q ls of Inl e \<Rightarrow> Inl e | Inr (evs', r) \<Rightarrow> Inr (evs @ evs', r)))"

lemma sse_field_line [simp]:
  "sp_line (sse_field p l) = sp_line p" "sp_skip_lf (sse_field p l) = sp_skip_lf p"
  by (auto simp: sse_field_def Let_def split: prod.splits option.splits)

lemma sse_field_skip: "sse_field (p\<lparr>sp_skip_lf := b\<rparr>) l = (sse_field p l)\<lparr>sp_skip_lf := b\<rparr>"
  by (auto simp: sse_field_def Let_def split: prod.splits option.splits)

lemma sse_dispatch_skip:
  "sse_dispatch (p\<lparr>sp_skip_lf := b\<rparr>) = map_prod id (\<lambda>q. q\<lparr>sp_skip_lf := b\<rparr>) (sse_dispatch p)"
  by (simp add: sse_dispatch_def Let_def)

text \<open>A line sees nothing of the pending line feed.\<close>

lemma sse_line_skip:
  "sse_line (p\<lparr>sp_skip_lf := b\<rparr>) = map_sum id (map_prod id (\<lambda>q. q\<lparr>sp_skip_lf := b\<rparr>)) (sse_line p)"
proof -
  have outer: "q\<lparr>sp_skip_lf := b, sp_line := l\<rparr> = q\<lparr>sp_line := l, sp_skip_lf := b\<rparr>"
    "q\<lparr>sp_skip_lf := b, sp_first_line := f\<rparr> = q\<lparr>sp_first_line := f, sp_skip_lf := b\<rparr>"
    for q :: sse_parser and l f by simp_all
  show ?thesis
    by (cases "sp_first_line p"; cases "utf8_valid (sp_line p)")
      (simp_all add: sse_line_def Let_def outer sse_field_skip sse_dispatch_skip)
qed

lemma sse_line_state:
  "sse_line p = Inr (evs, q) \<Longrightarrow> sp_line q = [] \<and> sp_skip_lf q = sp_skip_lf p"
  by (auto simp: sse_line_def Let_def sse_dispatch_def split: if_splits prod.splits)

lemma sse_feed_plain:
  assumes "plain_line l"
  shows "sse_feed p l = Inr ([], if l = [] then p else p\<lparr>sp_skip_lf := False, sp_line := sp_line p @ l\<rparr>)"
  using assms
proof (induction l arbitrary: p)
  case (Cons c l)
  then have "sse_byte p c = Inr ([], p\<lparr>sp_skip_lf := False, sp_line := sp_line p @ [c]\<rparr>)"
    by (auto simp: sse_byte_def Let_def plain_line_def)
  then show ?case using Cons by (auto simp: plain_line_def)
qed simp

lemma sse_feed_line:
  assumes "plain_line l" "sp_line p = []" "\<not> (sp_skip_lf p \<and> l = [] \<and> en = LF)"
  shows "sse_feed p (l @ ending_bytes en) =
    (case sse_line (p\<lparr>sp_skip_lf := False, sp_line := l\<rparr>) of
       Inl e \<Rightarrow> Inl e | Inr (evs, q) \<Rightarrow> Inr (evs, q\<lparr>sp_skip_lf := (en = CR)\<rparr>))"
proof -
  have p0: "p\<lparr>sp_skip_lf := False\<rparr> = p\<lparr>sp_skip_lf := False, sp_line := []\<rparr>" using assms(2) by simp
  show ?thesis
  proof (cases "l = []")
    case True
    then show ?thesis using assms
      by (cases en) (auto simp: p0 [symmetric] sse_byte_def Let_def split: sum.splits)
  next
    case False
    have comm: "p\<lparr>sp_line := l, sp_skip_lf := False\<rparr> = p\<lparr>sp_skip_lf := False, sp_line := l\<rparr>" by simp
    show ?thesis using False assms sse_feed_plain [OF assms(1), of p]
      by (cases en) (auto simp: comm sse_feed_append sse_byte_def Let_def split: sum.splits)
  qed
qed

text \<open>A result up to the pending line feed.\<close>

definition view_result ::
    "provider_error + (sse_event list \<times> sse_parser) \<Rightarrow> provider_error + (sse_event list \<times> sse_parser)" where
  "view_result r = map_sum id (map_prod id (\<lambda>q. q\<lparr>sp_skip_lf := False\<rparr>)) r"

lemma view_simps [simp]:
  "view_result (Inl e) = Inl e"
  "view_result (Inr (evs, q)) = Inr (evs, q\<lparr>sp_skip_lf := False\<rparr>)"
  by (simp_all add: view_result_def)

lemma view_lines_skip: "view_result (sse_lines (p\<lparr>sp_skip_lf := b\<rparr>) ls) = view_result (sse_lines p ls)"
proof (induction ls arbitrary: p b)
  case (Cons l ls)
  have "sse_line (p\<lparr>sp_skip_lf := b, sp_line := l\<rparr>)
      = map_sum id (map_prod id (\<lambda>q. q\<lparr>sp_skip_lf := b\<rparr>)) (sse_line (p\<lparr>sp_line := l\<rparr>))"
  proof -
    have "p\<lparr>sp_skip_lf := b, sp_line := l\<rparr> = (p\<lparr>sp_line := l\<rparr>)\<lparr>sp_skip_lf := b\<rparr>" by simp
    then show ?thesis by (simp only: sse_line_skip)
  qed
  then show ?case
  proof (cases "sse_line (p\<lparr>sp_line := l\<rparr>)")
    case (Inr r)
    obtain evs q where r: "r = (evs, q)" by (cases r)
    have "view_result (sse_lines (q\<lparr>sp_skip_lf := b\<rparr>) ls) = view_result (sse_lines q ls)" by (rule Cons.IH)
    then show ?thesis using Inr r \<open>sse_line (p\<lparr>sp_skip_lf := b, sp_line := l\<rparr>) = _\<close>
      by (auto split: sum.splits prod.splits)
  qed simp
qed simp

lemma view_bind:
  assumes "view_result a = view_result b"
  shows "view_result (case a of Inl e \<Rightarrow> Inl e | Inr (es, r) \<Rightarrow> Inr (evs @ es, r)) =
    view_result (case b of Inl e \<Rightarrow> Inl e | Inr (es, r) \<Rightarrow> Inr (evs @ es, r))"
  using assms by (auto split: sum.splits prod.splits)

lemma view_feed_lines:
  assumes "list_all plain_line ls" "sp_line p = []" "sp_skip_lf p \<longrightarrow> en \<noteq> LF"
  shows "view_result (sse_feed p (render_lines en ls)) = view_result (sse_lines p ls)"
  using assms
proof (induction ls arbitrary: p)
  case Nil
  then show ?case by (simp add: render_lines_def)
next
  case (Cons l ls)
  have f: "sse_feed p (l @ ending_bytes en) = (case sse_line (p\<lparr>sp_skip_lf := False, sp_line := l\<rparr>) of
       Inl e \<Rightarrow> Inl e | Inr (evs, q) \<Rightarrow> Inr (evs, q\<lparr>sp_skip_lf := (en = CR)\<rparr>))"
    using Cons.prems by (intro sse_feed_line) auto
  have split: "render_lines en (l # ls) = (l @ ending_bytes en) @ render_lines en ls"
    by (simp add: render_lines_def)
  have lines: "view_result (sse_lines (p\<lparr>sp_skip_lf := False\<rparr>) (l # ls)) = view_result (sse_lines p (l # ls))"
    by (rule view_lines_skip)
  show ?case
  proof (cases "sse_line (p\<lparr>sp_skip_lf := False, sp_line := l\<rparr>)")
    case (Inl e)
    have "sse_feed p (render_lines en (l # ls)) = Inl e"
      unfolding split by (subst sse_feed_append) (simp add: f Inl)
    moreover have "sse_lines (p\<lparr>sp_skip_lf := False\<rparr>) (l # ls) = Inl e" using Inl by simp
    ultimately show ?thesis using lines by metis
  next
    case (Inr r)
    obtain evs q where r: "r = (evs, q)" by (cases r)
    let ?q = "q\<lparr>sp_skip_lf := (en = CR)\<rparr>"
    have q: "sp_line q = []" using sse_line_state [OF Inr [unfolded r]] by simp
    have "view_result (sse_feed ?q (render_lines en ls)) = view_result (sse_lines ?q ls)"
      using Cons.prems(1) q by (intro Cons.IH) auto
    also have "\<dots> = view_result (sse_lines q ls)" by (rule view_lines_skip)
    finally have "view_result (sse_feed ?q (render_lines en ls)) = view_result (sse_lines q ls)" .
    note view_bind [OF this, of evs]
    moreover have "sse_feed p (render_lines en (l # ls)) = (case sse_feed ?q (render_lines en ls) of
        Inl e \<Rightarrow> Inl e | Inr (es, r) \<Rightarrow> Inr (evs @ es, r))"
      unfolding split by (subst sse_feed_append) (simp add: f Inr r)
    moreover have "sse_lines (p\<lparr>sp_skip_lf := False\<rparr>) (l # ls) = (case sse_lines q ls of
        Inl e \<Rightarrow> Inl e | Inr (es, r) \<Rightarrow> Inr (evs @ es, r))"
      using Inr r by simp
    ultimately show ?thesis using lines by metis
  qed
qed

text \<open>
  The three line endings of the event-stream format are equivalent: a stream of lines gives
  the same events, and the same error, whether its lines end with LF, CR or CRLF.
\<close>
theorem sse_endings_equivalent:
  assumes "list_all plain_line ls"
  shows "map_sum id fst (sse_feed sse_new (render_lines en ls))
       = map_sum id fst (sse_feed sse_new (render_lines LF ls))"
proof -
  have "map_sum id fst r = map_sum id fst (view_result r)" for r
    by (cases r) (auto simp: view_result_def)
  moreover have "view_result (sse_feed sse_new (render_lines e ls)) = view_result (sse_lines sse_new ls)" for e
    by (rule view_feed_lines [OF assms]) (simp_all add: sse_new_def)
  ultimately show ?thesis by metis
qed

theorem sse_endings_equivalent_witness:
  "map_sum id fst (sse_feed sse_new (render_lines CRLF [''data: a'', []]))
    = map_sum id fst (sse_feed sse_new (render_lines LF [''data: a'', []]))"
  by (rule sse_endings_equivalent) (simp add: plain_line_def)

section \<open>Data\<close>

definition data_lines :: "string list \<Rightarrow> string list" where
  "data_lines ds = map (\<lambda>d. ''data: '' @ d) ds @ [[]]"

definition join_lf :: "string list \<Rightarrow> string" where
  "join_lf ds = butlast (concat (map (\<lambda>d. d @ [CHR 0x0A]) ds))"

lemma utf8_valid_data: "utf8_valid (''data: '' @ d) = utf8_valid d"
  by (simp add: byte_in_def)

lemma sse_line_data:
  assumes "utf8_valid d" "\<not> sp_first_line p"
  shows "sse_line (p\<lparr>sp_line := ''data: '' @ d\<rparr>) = Inr ([], p\<lparr>sp_line := [],
    sp_current := (sp_current p)\<lparr>ev_data := ev_data (sp_current p) @ d @ [CHR 0x0A]\<rparr>, sp_has_data := True\<rparr>)"
  using assms utf8_valid_data [of d]
  by (simp add: sse_line_def Let_def sse_field_def strip_or_def strip_prefix_def)

lemma sse_lines_data:
  assumes "list_all utf8_valid ds" "ds \<noteq> [] \<or> sp_has_data p" "\<not> sp_first_line p"
  shows "\<exists>q. sse_lines p (data_lines ds) = Inr ([\<lparr>ev_event =
      (if ev_event (sp_current p) = [] then ''message'' else ev_event (sp_current p)),
      ev_data = butlast (ev_data (sp_current p) @ concat (map (\<lambda>d. d @ [CHR 0x0A]) ds)),
      ev_id = sp_last_id p, ev_retry = sp_retry p\<rparr>], q) \<and> \<not> sp_has_data q
      \<and> sp_current q = sse_event_default"
  using assms
proof (induction ds arbitrary: p)
  case Nil
  then show ?case by (simp add: data_lines_def sse_line_def sse_dispatch_def Let_def)
next
  case (Cons d ds)
  let ?p = "p\<lparr>sp_line := [], sp_current := (sp_current p)\<lparr>ev_data := ev_data (sp_current p) @ d @ [CHR 0x0A]\<rparr>,
    sp_has_data := True\<rparr>"
  have l: "sse_line (p\<lparr>sp_line := ''data: '' @ d\<rparr>) = Inr ([], ?p)"
    using Cons.prems by (intro sse_line_data) simp_all
  have "data_lines (d # ds) = (''data: '' @ d) # data_lines ds" by (simp add: data_lines_def)
  then have "sse_lines p (data_lines (d # ds)) = sse_lines ?p (data_lines ds)"
    using l by (simp add: data_lines_def split: sum.splits prod.splits)
  moreover have "list_all utf8_valid ds" "ds \<noteq> [] \<or> sp_has_data ?p" "\<not> sp_first_line ?p"
    using Cons.prems by simp_all
  ultimately show ?case using Cons.IH [of ?p] by (simp split del: if_split cong: if_cong)
qed

text \<open>
  After the first line, consecutive data lines closed by a blank line are one event whose
  data is the lines joined with line feeds, whatever the ending; the event carries the last
  identifier and retry delay seen and leaves nothing behind for the next one.
\<close>
theorem sse_data_lines_join:
  assumes "list_all utf8_valid ds" "list_all plain_line ds" "ds \<noteq> []"
    "sp_line p = []" "\<not> sp_skip_lf p" "\<not> sp_first_line p" "\<not> sp_has_data p"
    "sp_current p = sse_event_default"
  shows "\<exists>q. sse_feed p (render_lines en (data_lines ds)) = Inr ([\<lparr>ev_event = ''message'',
      ev_data = join_lf ds, ev_id = sp_last_id p, ev_retry = sp_retry p\<rparr>], q)
    \<and> \<not> sp_has_data q \<and> sp_current q = sse_event_default"
proof -
  obtain q where q: "sse_lines p (data_lines ds) = Inr ([\<lparr>ev_event = ''message'',
      ev_data = join_lf ds, ev_id = sp_last_id p, ev_retry = sp_retry p\<rparr>], q)"
      "\<not> sp_has_data q" "sp_current q = sse_event_default"
    using sse_lines_data [of ds p] assms by (auto simp: sse_event_default_def join_lf_def)
  have "list_all plain_line (data_lines ds)"
    using assms(2) by (auto simp: data_lines_def plain_line_def list_all_iff)
  then have "view_result (sse_feed p (render_lines en (data_lines ds))) = view_result (Inr (
      [\<lparr>ev_event = ''message'', ev_data = join_lf ds, ev_id = sp_last_id p, ev_retry = sp_retry p\<rparr>], q))"
    using view_feed_lines [of "data_lines ds" p en] assms q(1) by simp
  then obtain r where "sse_feed p (render_lines en (data_lines ds)) = Inr ([\<lparr>ev_event = ''message'',
      ev_data = join_lf ds, ev_id = sp_last_id p, ev_retry = sp_retry p\<rparr>], r)"
      "r\<lparr>sp_skip_lf := False\<rparr> = q\<lparr>sp_skip_lf := False\<rparr>"
    by (cases "sse_feed p (render_lines en (data_lines ds))") (auto simp: view_result_def)
  moreover from this(2) have "sp_has_data r = sp_has_data q" "sp_current r = sp_current q"
    by (auto dest: arg_cong [where f = sp_has_data] arg_cong [where f = sp_current])
  ultimately show ?thesis using q by auto
qed

theorem sse_data_lines_join_witness:
  "\<exists>q. sse_feed (sse_new\<lparr>sp_first_line := False\<rparr>) (render_lines CR (data_lines [''a'', ''b'']))
     = Inr ([\<lparr>ev_event = ''message'', ev_data = [CHR ''a'', CHR 0x0A, CHR ''b''], ev_id = [], ev_retry = None\<rparr>], q)"
  using sse_data_lines_join [of "[''a'', ''b'']" "sse_new\<lparr>sp_first_line := False\<rparr>" CR]
  by (auto simp: sse_new_def plain_line_def byte_in_def join_lf_def)

end
