(* ===== verification/Sse_Props.thy ===== *)
theory Sse_Props
  imports Sse
begin

text \<open>
  The event-stream format, read off a whole response, and the comparison with the parser of `Sse`:
  for every way of cutting the response into chunks the parser gives the events of the format.
\<close>

section \<open>The event-stream format\<close>

text \<open>
  The lines of a stream: a byte order mark at its start is dropped, a line ends with CR LF, LF or CR,
  and what follows the last ending is not a line.
\<close>

definition unix_endings :: "string \<Rightarrow> string" where
  "unix_endings s = map (\<lambda>c. if c = CHR 0x0D then CHR 0x0A else c)
     (str_replace [CHR 0x0D, CHR 0x0A] [CHR 0x0A] s)"

definition ended_lines :: "string \<Rightarrow> string list" where
  "ended_lines s = butlast (split_char CHR 0x0A (unix_endings s))"

definition stream_lines :: "string \<Rightarrow> string list" where
  "stream_lines s = ended_lines (if take 3 s = [CHR 0xEF, CHR 0xBB, CHR 0xBF] then drop 3 s else s)"

text \<open>The value a line gives to the field `f`: `f` alone, or `f:` and the value, with one space
  allowed between them.\<close>

definition field_value :: "string \<Rightarrow> string \<Rightarrow> string option" where
  "field_value f l =
     (if l = f then Some []
      else if prefix (f @ '': '') l then Some (drop (length f + 2) l)
      else if prefix (f @ '':'') l then Some (drop (length f + 1) l)
      else None)"

definition field_values :: "string \<Rightarrow> string list \<Rightarrow> string list" where
  "field_values f ls = List.map_filter (field_value f) ls"

definition last_or :: "'a \<Rightarrow> 'a list \<Rightarrow> 'a" where
  "last_or d xs = (if xs = [] then d else last xs)"

fun join_lines :: "string list \<Rightarrow> string" where
  "join_lines [] = []"
| "join_lines [d] = d"
| "join_lines (d # e # ds) = d @ [CHR 0x0A] @ join_lines (e # ds)"

definition id_value :: "string \<Rightarrow> bool" where
  "id_value v = (CHR 0x00 \<notin> set v)"

definition retry_value :: "string \<Rightarrow> bool" where
  "retry_value v = (v \<noteq> [] \<and> list_all is_digit v \<and> digits_value v < 2 ^ 64)"

text \<open>What a blank line dispatches after the lines `ls`: the fields of the block it closes make the
  event, if there is data; the identifier and the retry delay are the last ones of the stream.\<close>

definition last_block :: "string list \<Rightarrow> string list" where
  "last_block ls = rev (takeWhile (\<lambda>l. l \<noteq> []) (rev ls))"

definition block_event :: "string list \<Rightarrow> sse_event list" where
  "block_event ls =
     (let block = last_block ls; name = last_or [] (field_values ''event'' block)
      in if field_values ''data'' block = [] then []
         else [\<lparr>ev_event = (if name = [] then ''message'' else name),
                ev_data = join_lines (field_values ''data'' block),
                ev_id = last_or [] (filter id_value (field_values ''id'' ls)),
                ev_retry = last_or None (map (\<lambda>v. Some (of_nat (digits_value v)))
                  (filter retry_value (field_values ''retry'' ls)))\<rparr>])"

definition format_events :: "string list \<Rightarrow> sse_event list" where
  "format_events ls = concat (map (\<lambda>i. if ls ! i = [] then block_event (take i ls) else []) [0..<length ls])"

section \<open>Lines\<close>

lemma split_char_nonempty [simp]: "split_char sep s \<noteq> []"
  by (induction s) (auto split: list.splits)

lemma split_char_line: "sep \<notin> set l \<Longrightarrow> split_char sep (l @ sep # t) = l # split_char sep t"
  by (induction l) auto

lemma split_char_plain: "sep \<notin> set l \<Longrightarrow> split_char sep l = [l]"
  by (induction l) auto

lemma unix_endings_plain: "plain_line l \<Longrightarrow> unix_endings (l @ s) = l @ unix_endings s"
proof (induction l)
  case (Cons c l)
  then show ?case
    by (simp add: unix_endings_def plain_line_def) (subst str_replace.simps, force)
qed simp

lemma unix_endings_simps [simp]:
  "unix_endings [] = []"
  "unix_endings (CHR 0x0A # s) = CHR 0x0A # unix_endings s"
  "unix_endings (CHR 0x0D # CHR 0x0A # s) = CHR 0x0A # unix_endings s"
  "s = [] \<or> hd s \<noteq> CHR 0x0A \<Longrightarrow> unix_endings (CHR 0x0D # s) = CHR 0x0A # unix_endings s"
  unfolding unix_endings_def
  by (subst str_replace.simps, cases s, simp_all)+

lemma ended_lines_plain: "plain_line l \<Longrightarrow> ended_lines l = []"
  using unix_endings_plain [of l "[]"] split_char_plain [of "CHR 0x0A" l]
  by (simp add: ended_lines_def plain_line_def)

lemma ended_lines_line:
  assumes "plain_line l"
  shows "ended_lines (l @ CHR 0x0A # s) = l # ended_lines s"
    "ended_lines (l @ CHR 0x0D # CHR 0x0A # s) = l # ended_lines s"
    "s = [] \<or> hd s \<noteq> CHR 0x0A \<Longrightarrow> ended_lines (l @ CHR 0x0D # s) = l # ended_lines s"
  using assms
  by (auto simp: ended_lines_def unix_endings_plain split_char_line plain_line_def)

text \<open>Every text is a line without an ending, or a line with one of the endings and the rest.\<close>

lemma line_cases:
  obtains (part) "plain_line s"
  | (ended) l en r where "plain_line l" "s = l @ ending_bytes en @ r" "en = CR \<Longrightarrow> r = [] \<or> hd r \<noteq> CHR 0x0A"
proof -
  let ?P = "\<lambda>c. c \<noteq> CHR 0x0A \<and> c \<noteq> CHR 0x0D"
  define l t where "l = takeWhile ?P s" and "t = dropWhile ?P s"
  have s: "s = l @ t" by (simp add: l_def t_def)
  have l: "plain_line l" by (auto simp: l_def plain_line_def dest: set_takeWhileD)
  show thesis
  proof (cases t)
    case Nil
    then show thesis using part l s by simp
  next
    case (Cons c r)
    then have c: "c = CHR 0x0A \<or> c = CHR 0x0D" using hd_dropWhile [of ?P s] by (auto simp: t_def)
    consider "c = CHR 0x0A" | "c = CHR 0x0D" "r = [] \<or> hd r \<noteq> CHR 0x0A"
      | r' where "c = CHR 0x0D" "r = CHR 0x0A # r'"
      using c by (cases r) auto
    then show thesis
    proof cases
      case 1
      then show thesis using ended [of l LF r] l s Cons by simp
    next
      case 2
      then show thesis using ended [of l CR r] l s Cons by simp
    next
      case 3
      then show thesis using ended [of l CRLF r'] l s Cons by simp
    qed
  qed
qed

lemma ended_lines_ended:
  "plain_line l \<Longrightarrow> (en = CR \<Longrightarrow> r = [] \<or> hd r \<noteq> CHR 0x0A) \<Longrightarrow>
   ended_lines (l @ ending_bytes en @ r) = l # ended_lines r"
  by (cases en) (simp_all add: ended_lines_line)

section \<open>From bytes to lines\<close>

lemma view_feed_skip:
  assumes "s = [] \<or> hd s \<noteq> CHR 0x0A"
  shows "view_result (sse_feed (p\<lparr>sp_skip_lf := b\<rparr>) s) = view_result (sse_feed p s)"
proof (cases s)
  case (Cons c s')
  have "sse_byte (p\<lparr>sp_skip_lf := b\<rparr>) c = sse_byte p c"
    using assms Cons by (simp add: sse_byte_def Let_def)
  then show ?thesis using Cons by simp
qed simp

text \<open>Fed with bytes, the parser gives what it gives on the lines the bytes hold, up to the line
  that is not ended and the line feed that may still be skipped.\<close>

lemma feed_is_lines:
  assumes "sp_line p = []" "\<not> sp_skip_lf p"
  shows "map_sum id fst (sse_feed p s) = map_sum id fst (sse_lines p (ended_lines s))"
  using assms
proof (induction s arbitrary: p rule: length_induct)
  case (1 s)
  show ?case
  proof (cases s rule: line_cases)
    case part
    then show ?thesis by (simp add: ended_lines_plain sse_feed_plain)
  next
    case (ended l en r)
    have fst_view: "map_sum id fst x = map_sum id fst (view_result x)" for x
      by (cases x) (auto simp: view_result_def)
    have p: "p\<lparr>sp_skip_lf := False, sp_line := l\<rparr> = p\<lparr>sp_line := l\<rparr>" using "1.prems"(2) by simp
    have f: "sse_feed p (l @ ending_bytes en) = (case sse_line (p\<lparr>sp_line := l\<rparr>) of
        Inl e \<Rightarrow> Inl e | Inr (evs, q) \<Rightarrow> Inr (evs, q\<lparr>sp_skip_lf := (en = CR)\<rparr>))"
      using sse_feed_line [OF ended(1) "1.prems"(1), of en] "1.prems"(2) unfolding p by simp
    have lines: "ended_lines s = l # ended_lines r" using ended by (simp add: ended_lines_ended)
    have s: "sse_feed p s = (case sse_feed p (l @ ending_bytes en) of
        Inl e \<Rightarrow> Inl e | Inr (evs, q) \<Rightarrow> (case sse_feed q r of
          Inl e \<Rightarrow> Inl e | Inr (evs', r) \<Rightarrow> Inr (evs @ evs', r)))"
      unfolding ended(2) append_assoc [symmetric] by (rule sse_feed_append)
    show ?thesis
    proof (cases "sse_line (p\<lparr>sp_line := l\<rparr>)")
      case (Inl e)
      then show ?thesis by (simp add: s f lines)
    next
      case (Inr x)
      obtain evs q where x: "x = (evs, q)" by (cases x)
      have q: "sp_line q = []" "\<not> sp_skip_lf q"
        using sse_line_state [OF Inr [unfolded x]] "1.prems"(2) by simp_all
      have "map_sum id fst (sse_feed (q\<lparr>sp_skip_lf := (en = CR)\<rparr>) r) = map_sum id fst (sse_feed q r)"
      proof (cases "en = CR")
        case True
        then have "r = [] \<or> hd r \<noteq> CHR 0x0A" by (rule ended(3))
        then show ?thesis by (metis fst_view view_feed_skip)
      next
        case False
        then have "q\<lparr>sp_skip_lf := (en = CR)\<rparr> = q" using q by (cases q) simp
        then show ?thesis by simp
      qed
      also have "\<dots> = map_sum id fst (sse_lines q (ended_lines r))"
      proof -
        have "length r < length s" using ended(2) by (cases en) simp_all
        then show ?thesis using "1.IH" q by blast
      qed
      finally show ?thesis using Inr x
        by (auto simp: s f lines split: sum.splits prod.splits)
    qed
  qed
qed

text \<open>The byte order mark: the mark of the first line is the mark of the stream.\<close>

lemma utf8_valid_bom: "utf8_valid (BOM @ l) = utf8_valid l"
  by (simp add: BOM_def byte_in_def utf8_cont_def)

lemma plain_bom: "plain_line (BOM @ l) = plain_line l"
  by (simp add: plain_line_def BOM_def)

lemma utf8_valid_strip: "utf8_valid (strip_or BOM l) = utf8_valid l"
  unfolding strip_or_def strip_prefix_def
  by (auto simp: utf8_valid_bom prefix_def simp del: utf8_valid.simps)

lemma first_line:
  "sse_line (sse_new\<lparr>sp_line := l\<rparr>) = sse_line (sse_new\<lparr>sp_first_line := False, sp_line := strip_or BOM l\<rparr>)"
  by (cases "utf8_valid l") (simp_all add: sse_line_def Let_def sse_new_def utf8_valid_strip)

lemma bom_in_line:
  assumes "plain_line l"
  shows "prefix BOM (l @ ending_bytes en @ r) = prefix BOM l"
proof
  assume "prefix BOM (l @ ending_bytes en @ r)"
  then consider "prefix BOM l" | us where "BOM = l @ us" "us \<noteq> []" "prefix us (ending_bytes en @ r)"
    unfolding prefix_append [of BOM l] by (metis append_Nil2 prefix_order.refl)
  then show "prefix BOM l"
  proof cases
    case 2
    then have "hd us = hd (ending_bytes en)"
      by (cases en; cases us) auto
    moreover have "hd us \<in> set BOM" using 2 by (metis Un_iff hd_in_set set_append)
    ultimately show ?thesis by (cases en) (auto simp: BOM_def)
  qed
qed (simp add: prefix_prefix)

lemma stream_lines_strip: "stream_lines s = ended_lines (strip_or BOM s)"
proof -
  have "take 3 s = BOM \<longleftrightarrow> prefix BOM s"
    by (auto simp: prefix_def BOM_def) (metis append_take_drop_id append_Cons append_Nil)
  then show ?thesis
    by (simp add: stream_lines_def strip_or_def strip_prefix_def BOM_def eval_nat_numeral)
qed

lemma stream_lines_cases:
  obtains "ended_lines s = []" "stream_lines s = []"
  | l ls where "ended_lines s = l # ls" "stream_lines s = strip_or BOM l # ls"
proof (cases s rule: line_cases)
  case part
  then have "plain_line (strip_or BOM s)"
    by (auto simp: strip_or_def strip_prefix_def plain_line_def dest: in_set_dropD)
  then show thesis using that(1) part by (simp add: stream_lines_strip ended_lines_plain)
next
  case (ended l en r)
  have plain: "plain_line (strip_or BOM l)"
    using ended(1) by (auto simp: strip_or_def strip_prefix_def plain_line_def dest: in_set_dropD)
  have "strip_or BOM s = strip_or BOM l @ ending_bytes en @ r"
    unfolding ended(2) strip_or_def strip_prefix_def bom_in_line [OF ended(1)]
    by (auto simp: prefix_def)
  then show thesis using that(2) [of l "ended_lines r"] ended plain
    by (simp add: stream_lines_strip ended_lines_ended)
qed

definition sse_later :: sse_parser where
  "sse_later = sse_new\<lparr>sp_first_line := False\<rparr>"

lemma feed_is_stream_lines:
  "map_sum id fst (sse_feed sse_new s) = map_sum id fst (sse_lines sse_later (stream_lines s))"
proof -
  have "map_sum id fst (sse_feed sse_new s) = map_sum id fst (sse_lines sse_new (ended_lines s))"
    by (rule feed_is_lines) (simp_all add: sse_new_def)
  also have "\<dots> = map_sum id fst (sse_lines sse_later (stream_lines s))"
  proof (cases rule: stream_lines_cases [of s])
    case (2 l ls)
    then show ?thesis using first_line [of l] by (simp add: sse_later_def)
  qed simp
  finally show ?thesis .
qed

section \<open>From lines to events\<close>

lemma field_values_snoc:
  "field_values f (ls @ [l]) = field_values f ls @ (case field_value f l of Some v \<Rightarrow> [v] | None \<Rightarrow> [])"
  by (simp add: field_values_def List.map_filter_def split: option.splits)

lemma last_or_simps [simp]: "last_or d [] = d" "last_or d (xs @ [x]) = x"
  by (simp_all add: last_or_def)

lemma last_block_simps [simp]:
  "last_block [] = []" "last_block (ls @ [[]]) = []"
  "l \<noteq> [] \<Longrightarrow> last_block (ls @ [l]) = last_block ls @ [l]"
  by (simp_all add: last_block_def)

lemma format_events_snoc:
  "format_events (ls @ [l]) = format_events ls @ (if l = [] then block_event ls else [])"
proof -
  have "map (\<lambda>i. if (ls @ [l]) ! i = [] then block_event (take i (ls @ [l])) else []) [0..<length ls]
      = map (\<lambda>i. if ls ! i = [] then block_event (take i ls) else []) [0..<length ls]"
    by (rule map_cong) (simp_all add: nth_append)
  then show ?thesis by (simp add: format_events_def del: map_eq_conv)
qed

lemma join_lines_concat: "join_lines ds = butlast (concat (map (\<lambda>d. d @ [CHR 0x0A]) ds))"
  by (induction ds rule: join_lines.induct) (simp_all add: butlast_append)

text \<open>A field of the format is what the parser splits off.\<close>

definition drop_space :: "string \<Rightarrow> string" where
  "drop_space v = strip_or '' '' v"

lemma field_value_split:
  assumes "CHR '':'' \<notin> set f"
  shows "field_value f l = (case split_once CHR '':'' l of
      Some (g, v) \<Rightarrow> if g = f then Some (drop_space v) else None
    | None \<Rightarrow> if l = f then Some [] else None)"
proof (cases "split_once CHR '':'' l")
  case None
  then have "CHR '':'' \<notin> set l" by (simp add: split_once_None)
  then show ?thesis using None by (auto simp: field_value_def prefix_def)
next
  case (Some gv)
  obtain g v where gv: "gv = (g, v)" by (cases gv)
  have l: "l = g @ CHR '':'' # v" "CHR '':'' \<notin> set g" using split_once_SomeD Some gv by auto
  have same: "prefix (f @ CHR '':'' # t) l \<longleftrightarrow> g = f \<and> prefix t v" for t
    using l assms split_once_append [of "CHR '':''" f] split_once_append [of "CHR '':''" g]
    by (auto simp: prefix_def) (metis append_Cons append_assoc option.inject prod.inject)+
  have "l \<noteq> f" using l assms by auto
  then show ?thesis using l same [of "[]"] same [of "'' ''"] Some gv
    by (auto simp: field_value_def drop_space_def strip_or_def strip_prefix_def)
qed

definition parser_after :: "string list \<Rightarrow> sse_parser" where
  "parser_after ls = \<lparr>sp_line = [], sp_skip_lf = False, sp_first_line = False,
     sp_current = \<lparr>ev_event = last_or [] (field_values ''event'' (last_block ls)),
       ev_data = concat (map (\<lambda>d. d @ [CHR 0x0A]) (field_values ''data'' (last_block ls))),
       ev_id = [], ev_retry = None\<rparr>,
     sp_has_data = (field_values ''data'' (last_block ls) \<noteq> []),
     sp_last_id = last_or [] (filter id_value (field_values ''id'' ls)),
     sp_retry = last_or None (map (\<lambda>v. Some (of_nat (digits_value v)))
       (filter retry_value (field_values ''retry'' ls)))\<rparr>"

lemma parser_after_Nil: "parser_after [] = sse_later"
  by (simp add: parser_after_def sse_later_def sse_new_def sse_event_default_def field_values_def
      List.map_filter_def)

lemma parser_after_field:
  assumes "l \<noteq> []"
  shows "sse_field (parser_after ls) l = parser_after (ls @ [l])"
proof -
  obtain g v where gv: "(case split_once CHR '':'' l of Some fv \<Rightarrow> fv | None \<Rightarrow> (l, [])) = (g, v)"
    by fastforce
  have val: "field_value f l = (if g = f then Some (drop_space v) else None)" if "CHR '':'' \<notin> set f" for f
    using gv field_value_split [OF that, of l]
    by (auto simp: drop_space_def strip_or_def strip_prefix_def split: option.splits)
  have vals: "field_value ''event'' l = (if g = ''event'' then Some (drop_space v) else None)"
    "field_value ''data'' l = (if g = ''data'' then Some (drop_space v) else None)"
    "field_value ''id'' l = (if g = ''id'' then Some (drop_space v) else None)"
    "field_value ''retry'' l = (if g = ''retry'' then Some (drop_space v) else None)"
    by (rule val, simp)+
  consider "g = ''event''" | "g = ''data''" | "g = ''id''" | "g = ''retry''"
    | "g \<notin> {''event'', ''data'', ''id'', ''retry''}" by blast
  then show ?thesis
    using gv
    by cases (auto simp: sse_field_def Let_def parser_after_def assms field_values_snoc vals drop_space_def
        id_value_def retry_value_def parse_digits_def)
qed

lemma parser_after_comment:
  assumes "prefix '':'' l"
  shows "parser_after (ls @ [l]) = parser_after ls"
proof -
  obtain b where "l = CHR '':'' # b" using assms by (auto simp: prefix_def)
  then show ?thesis
    by (simp add: parser_after_def field_values_snoc field_value_def)
qed

lemma parser_after_blank:
  "sse_dispatch (parser_after ls) = (block_event ls, parser_after (ls @ [[]]))"
  by (simp add: sse_dispatch_def parser_after_def block_event_def Let_def join_lines_concat
      field_values_snoc field_value_def sse_event_default_def)
    (simp add: field_values_def List.map_filter_def)

lemma sse_line_after:
  "sse_line ((parser_after ls)\<lparr>sp_line := l\<rparr>) =
     (if utf8_valid l then Inr (if l = [] then block_event ls else [], parser_after (ls @ [l]))
      else Inl (Protocol ''invalid SSE UTF-8''))"
proof -
  have p: "(parser_after ls)\<lparr>sp_line := []\<rparr> = parser_after ls" "\<not> sp_first_line (parser_after ls)"
    by (simp_all add: parser_after_def)
  then show ?thesis
    by (simp add: sse_line_def Let_def parser_after_blank parser_after_comment parser_after_field
        del: utf8_valid.simps)
qed

lemma sse_lines_snoc:
  "sse_lines p (ls @ [l]) =
     (case sse_lines p ls of
        Inl e \<Rightarrow> Inl e
      | Inr (evs, q) \<Rightarrow>
          (case sse_line (q\<lparr>sp_line := l\<rparr>) of Inl e \<Rightarrow> Inl e | Inr (evs', r) \<Rightarrow> Inr (evs @ evs', r)))"
  by (induction ls arbitrary: p) (auto split: sum.splits prod.splits)

lemma lines_are_format:
  "sse_lines sse_later ls =
     (if list_all utf8_valid ls then Inr (format_events ls, parser_after ls)
      else Inl (Protocol ''invalid SSE UTF-8''))"
proof (induction ls rule: rev_induct)
  case Nil
  then show ?case by (simp add: parser_after_Nil format_events_def)
next
  case (snoc l ls)
  then show ?case
    by (simp add: sse_lines_snoc sse_line_after format_events_snoc del: utf8_valid.simps)
qed

lemma feed_is_format:
  "map_sum id fst (sse_feed sse_new s) =
     (if list_all utf8_valid (stream_lines s) then Inr (format_events (stream_lines s))
      else Inl (Protocol ''invalid SSE UTF-8''))"
  by (simp add: feed_is_stream_lines lines_are_format)

section \<open>Chunks\<close>

lemma feed_chunks_append:
  "sse_feed p (concat xs) = Inr (evs, q) \<Longrightarrow> sse_feed_chunks p xs = (evs, Inr q)"
proof (induction xs arbitrary: p evs)
  case (Cons x xs)
  then show ?case
    by (auto simp: sse_feed_append split: sum.splits prod.splits)
qed simp

lemma feed_chunks_fails:
  "sse_feed p (concat xs) = Inl e \<Longrightarrow>
   \<exists>k evs q. k < length xs \<and> sse_feed_chunks p xs = (evs, Inl e)
     \<and> sse_feed p (concat (take k xs)) = Inr (evs, q) \<and> sse_feed p (concat (take (Suc k) xs)) = Inl e"
proof (induction xs arbitrary: p)
  case (Cons x xs)
  show ?case
  proof (cases "sse_feed p x")
    case (Inl e')
    then show ?thesis using Cons.prems by (intro exI [of _ 0]) (simp add: sse_feed_append)
  next
    case (Inr y)
    obtain evs q where y: "y = (evs, q)" by (cases y)
    have "sse_feed q (concat xs) = Inl e" using Cons.prems Inr y
      by (simp add: sse_feed_append split: sum.splits prod.splits)
    from Cons.IH [OF this] obtain k evs' r where "k < length xs" "sse_feed_chunks q xs = (evs', Inl e)"
      "sse_feed q (concat (take k xs)) = Inr (evs', r)" "sse_feed q (concat (take (Suc k) xs)) = Inl e"
      by blast
    then show ?thesis using Inr y
      by (intro exI [of _ "Suc k"]) (simp add: sse_feed_append)
  qed
qed simp

text \<open>
  C16. The parser is the event-stream format, however the response is cut into chunks, even inside a
  character or between CR and LF: when every line of the response is UTF-8 it gives exactly the
  events the format reads off the whole response; otherwise it fails, with the error of the code, at
  the first chunk that completes a line which is not, after exactly the events of the chunks before.
\<close>
theorem sse_chunks_parse_format:
  "\<exists>evs r. sse_feed_chunks sse_new xs = (evs, r) \<and>
     (if list_all utf8_valid (stream_lines (concat xs))
      then evs = format_events (stream_lines (concat xs)) \<and> (\<exists>p. r = Inr p)
      else r = Inl (Protocol ''invalid SSE UTF-8'')
         \<and> (\<exists>k. k < length xs \<and> evs = format_events (stream_lines (concat (take k xs)))
              \<and> list_all utf8_valid (stream_lines (concat (take k xs)))
              \<and> \<not> list_all utf8_valid (stream_lines (concat (take (Suc k) xs)))))"
proof (cases "sse_feed sse_new (concat xs)")
  case (Inr y)
  then obtain evs p where "sse_feed sse_new (concat xs) = Inr (evs, p)" by (cases y) simp
  then show ?thesis using feed_is_format [of "concat xs"] feed_chunks_append [of sse_new xs evs p]
    by (auto split: if_splits)
next
  case (Inl e)
  from feed_chunks_fails [OF this] obtain k evs q where "k < length xs"
    "sse_feed_chunks sse_new xs = (evs, Inl e)" "sse_feed sse_new (concat (take k xs)) = Inr (evs, q)"
    "sse_feed sse_new (concat (take (Suc k) xs)) = Inl e" by blast
  then show ?thesis
    using Inl feed_is_format [of "concat xs"] feed_is_format [of "concat (take k xs)"]
      feed_is_format [of "concat (take (Suc k) xs)"]
    by (auto split: if_splits)
qed

end
