(* ===== verification/Anthropic.thy ===== *)
theory Anthropic
  imports Sse
begin

text \<open>
  The Anthropic provider without its sockets: error classification (`anthropic/error.rs`), the
  capability table (`models.rs`), the request body (`request.rs`), the mapping of server-sent
  events to stream events (`stream.rs`) with the loop that yields them, and the decisions of
  `mod.rs` (configuration, dispatch, model discovery and its cache).  What serde_json parses and
  deserializes is given by the arguments `parse`, `de_usage` and `de_iterations`; what the
  network answers is the input of the loop.
\<close>

section \<open>Errors\<close>

definition redact :: "string \<Rightarrow> string \<Rightarrow> string" where
  "redact message key = (if key = [] then message else str_replace key ''[redacted]'' message)"

datatype transport_kind = TkTimeout | TkSetup | TkOther

fun transport :: "transport_kind \<Rightarrow> provider_error" where
  "transport TkTimeout = Transport ''request timeout''"
| "transport TkSetup = Transport ''connection or request setup failed''"
| "transport TkOther = Transport ''HTTP transport failed''"

definition classify_dispatch :: "provider_error \<Rightarrow> bool \<Rightarrow> provider_error" where
  "classify_dispatch e send_started =
     (if send_started then e
      else NotSent (case e of
        NotSent m \<Rightarrow> m | Transport m \<Rightarrow> m
      | ProviderCancelled \<Rightarrow> ''cancelled before sending''
      | _ \<Rightarrow> provider_error_display e))"

definition to_ascii_lowercase :: "string \<Rightarrow> string" where
  "to_ascii_lowercase s =
     map (\<lambda>c. if byte_in c 65 90 then char_of ((of_char c :: nat) + 32) else c) s"

definition str_has :: "string \<Rightarrow> string \<Rightarrow> bool" where
  "str_has text needle = list_ex (prefix needle) (suffixes text)"

text \<open>`http`; the two delays are what `delay` reads from the headers as a float.\<close>

definition http_error ::
    "(string \<Rightarrow> json option) \<Rightarrow> nat \<Rightarrow> duration option \<Rightarrow> duration option \<Rightarrow> string \<Rightarrow> string \<Rightarrow> provider_error" where
  "http_error parse status retry_after_ms retry_after_s body key =
     (let retry_after = (case retry_after_ms of Some d \<Rightarrow> Some d | None \<Rightarrow> retry_after_s);
          err = (case parse body of None \<Rightarrow> None | Some v \<Rightarrow> jget v ''error'');
          field = (\<lambda>k d. case err of None \<Rightarrow> d
                    | Some e \<Rightarrow> (case as_str (jindex e k) of Some s \<Rightarrow> s | None \<Rightarrow> d));
          kind = field ''type'' (if status = 429 then ''rate_limit_error''
                   else if status = 529 then ''overloaded_error'' else ''unknown_error'');
          detail = field ''message'' ''unsuccessful HTTP response'';
          message = redact (kind @ '': '' @ detail) key;
          lower = to_ascii_lowercase detail
      in if (status = 400 \<or> status = 413)
            \<and> (str_has lower ''prompt is too long'' \<or> str_has lower ''prompt too long'')
         then ContextTooLarge message
         else Http status message retry_after)"

section \<open>Model capabilities\<close>

record model_caps =
  cap_adaptive_thinking :: bool
  cap_context_window :: "u64 option"
  cap_max_output_tokens :: "u32 option"

definition model_caps_default :: model_caps where
  "model_caps_default = \<lparr>cap_adaptive_thinking = False, cap_context_window = None,
     cap_max_output_tokens = None\<rparr>"

definition default_model_caps :: "(string \<times> model_caps) list" where
  "default_model_caps =
     (let thinking = model_caps_default\<lparr>cap_adaptive_thinking := True\<rparr>;
          five = \<lparr>cap_adaptive_thinking = True, cap_context_window = Some 1000000,
                   cap_max_output_tokens = Some 128000\<rparr>;
          t1 = fold (\<lambda>p. AList.update p thinking)
            [''claude-opus-5'', ''claude-sonnet-5'', ''claude-fable-5'', ''claude-mythos-5'',
             ''claude-opus-4-6'', ''claude-opus-4-7'', ''claude-opus-4-8'', ''claude-sonnet-4-6''] [];
          t2 = fold (\<lambda>p. AList.update p five)
            [''claude-opus-5'', ''claude-sonnet-5'', ''claude-fable-5-1''] t1
      in AList.update ''claude-haiku-4-5'' \<lparr>cap_adaptive_thinking = False,
           cap_context_window = Some 200000, cap_max_output_tokens = Some 64000\<rparr> t2)"

text \<open>`max_by_key` on the iteration order of the hash map, which is the order of the list: the
  last one of the longest.\<close>

fun longest :: "(string \<times> model_caps) list \<Rightarrow> (string \<times> model_caps) option" where
  "longest [] = None"
| "longest (p # ps) =
     (case longest ps of
        None \<Rightarrow> Some p
      | Some q \<Rightarrow> if length (fst p) \<le> length (fst q) then Some q else Some p)"

definition resolve_caps :: "(string \<times> model_caps) list \<Rightarrow> string \<Rightarrow> model_caps" where
  "resolve_caps table model =
     (case longest (filter (\<lambda>(p, _). prefix p model) table) of
        None \<Rightarrow> model_caps_default | Some (_, c) \<Rightarrow> c)"

definition caps_info :: "model_caps \<Rightarrow> string \<Rightarrow> model_info" where
  "caps_info c model = \<lparr>mi_id = model, mi_context_window = cap_context_window c,
     mi_max_output_tokens = cap_max_output_tokens c\<rparr>"

section \<open>Configuration and discovery\<close>

record anthropic_config =
  an_api_key :: string
  an_base_url :: string
  an_version :: string
  an_idle_timeout :: duration
  an_request_timeout :: duration
  an_connect_timeout :: duration
  an_extra_betas :: "string list"
  an_prefix_mismatch_behavior :: string
  an_enable_block_binding :: bool
  an_model_caps :: "(string \<times> model_caps) list"

definition anthropic_config_new :: "string \<Rightarrow> anthropic_config" where
  "anthropic_config_new key = \<lparr>an_api_key = key, an_base_url = ''https://api.anthropic.com'',
     an_version = ''2023-06-01'', an_idle_timeout = from_secs 300,
     an_request_timeout = from_secs (30 * 60), an_connect_timeout = from_secs 30,
     an_extra_betas = [], an_prefix_mismatch_behavior = ''error'',
     an_enable_block_binding = True, an_model_caps = default_model_caps\<rparr>"

datatype env_var = Unset | NotUnicode | Value string

definition anthropic_from_env :: "(string \<Rightarrow> env_var) \<Rightarrow> provider_error + anthropic_config" where
  "anthropic_from_env env =
     (case env ''ANTHROPIC_API_KEY'' of
        Value key \<Rightarrow>
          if key = [] then Inl (ProviderOther ''ANTHROPIC_API_KEY is required'')
          else (case env ''ANTHROPIC_BASE_URL'' of
              Value url \<Rightarrow> Inr ((anthropic_config_new key)\<lparr>an_base_url := url\<rparr>)
            | Unset \<Rightarrow> Inr (anthropic_config_new key)
            | NotUnicode \<Rightarrow> Inl (ProviderOther ''ANTHROPIC_BASE_URL must be Unicode''))
      | _ \<Rightarrow> Inl (ProviderOther ''ANTHROPIC_API_KEY is required''))"

definition trim_end_slashes :: "string \<Rightarrow> string" where
  "trim_end_slashes s = rev (dropWhile (\<lambda>c. c = CHR ''/'') (rev s))"

definition endpoint :: "anthropic_config \<Rightarrow> string \<Rightarrow> string" where
  "endpoint cfg p = trim_end_slashes (an_base_url cfg) @ ''/v1/'' @ p"

definition u64_to_u32 :: "u64 \<Rightarrow> u32 option" where
  "u64_to_u32 n = (if unat n < 2 ^ 32 then Some (ucast n) else None)"

text \<open>What discovery makes of the JSON of a successful response.\<close>

definition discovered_model :: "string \<Rightarrow> json \<Rightarrow> model_info option" where
  "discovered_model model v =
     (case as_u64 (jindex v ''max_input_tokens'') of None \<Rightarrow> None | Some i \<Rightarrow>
      (case as_u64 (jindex v ''max_tokens'') of None \<Rightarrow> None | Some o' \<Rightarrow>
      (case u64_to_u32 o' of None \<Rightarrow> None | Some m \<Rightarrow>
        Some \<lparr>mi_id = model, mi_context_window = Some i, mi_max_output_tokens = Some m\<rparr>)))"

type_synonym model_cache = "string \<times> string \<rightharpoonup> model_info"

definition model_info_of ::
    "anthropic_config \<Rightarrow> json option \<Rightarrow> string \<Rightarrow> model_cache \<Rightarrow> model_info \<times> model_cache" where
  "model_info_of cfg response model cache =
     (let key = (trim_end_slashes (an_base_url cfg), model) in
      case cache key of
        Some info \<Rightarrow> (info, cache)
      | None \<Rightarrow>
          (case Option.bind response (discovered_model model) of
             Some info \<Rightarrow> (info, cache(key \<mapsto> info))
           | None \<Rightarrow> (caps_info (resolve_caps (an_model_caps cfg) model) model, cache)))"

datatype send_outcome = SendCancelled | SendDeadline | SendFailed transport_kind | SendStatus nat

definition send_request :: "send_outcome \<Rightarrow> bool \<Rightarrow> provider_error + nat" where
  "send_request out send_started =
     (case out of
        SendStatus st \<Rightarrow> Inr st
      | SendCancelled \<Rightarrow> Inl (classify_dispatch ProviderCancelled send_started)
      | SendDeadline \<Rightarrow> Inl (classify_dispatch (Transport ''request timeout'') send_started)
      | SendFailed k \<Rightarrow> Inl (classify_dispatch (transport k) send_started))"

section \<open>The request body\<close>

definition BINDING_BETA :: string where
  "BINDING_BETA = ''thinking-binding-controls-2026-08-01''"

definition TASK_BETA :: string where
  "TASK_BETA = ''task-budgets-2026-03-13''"

definition MIN_TASK_BUDGET :: u64 where
  "MIN_TASK_BUDGET = 20000"

fun role_json :: "role \<Rightarrow> json" where
  "role_json User = JStr ''user''"
| "role_json Assistant = JStr ''assistant''"

fun effort_json :: "effort \<Rightarrow> json" where
  "effort_json Low = JStr ''low''"
| "effort_json Medium = JStr ''medium''"
| "effort_json High = JStr ''high''"
| "effort_json Xhigh = JStr ''xhigh''"
| "effort_json EffortMax = JStr ''max''"

fun display_json :: "thinking_display \<Rightarrow> json" where
  "display_json Omitted = JStr ''omitted''"
| "display_json Summarized = JStr ''summarized''"

fun result_part_json :: "tool_result_part \<Rightarrow> json" where
  "result_part_json (PartText t) = jobj [(''type'', JStr ''text''), (''text'', JStr t)]"

fun block_json :: "content_block \<Rightarrow> json option" where
  "block_json (Text t) = Some (jobj [(''type'', JStr ''text''), (''text'', JStr t)])"
| "block_json (Thinking t (Some s)) =
     Some (jobj [(''type'', JStr ''thinking''), (''thinking'', JStr t), (''signature'', JStr s)])"
| "block_json (Thinking t None) = None"
| "block_json (ToolUse i n v) =
     Some (jobj [(''type'', JStr ''tool_use''), (''id'', JStr i), (''name'', JStr n), (''input'', v)])"
| "block_json (ToolResult i parts err) =
     Some (jobj [(''type'', JStr ''tool_result''), (''tool_use_id'', JStr i),
       (''content'', JArr (map result_part_json parts)), (''is_error'', JBool err)])"
| "block_json (Opaque p k raw) = (if p = ''anthropic'' then Some raw else None)"

definition message_json :: "message \<Rightarrow> json option" where
  "message_json m =
     (let content = List.map_filter block_json (msg_content m)
      in if content = [] then None
         else Some (jobj [(''role'', role_json (msg_role m)), (''content'', JArr content)]))"

definition ephemeral :: json where
  "ephemeral = jobj [(''type'', JStr ''ephemeral'')]"

definition tool_json :: "tool_spec \<Rightarrow> json" where
  "tool_json t =
     (let v = jobj [(''name'', JStr (ts_name t)), (''description'', JStr (ts_description t)),
                    (''input_schema'', ts_input_schema t)]
      in if ts_large_input t then jset v ''eager_input_streaming'' (JBool True) else v)"

definition thinking_json :: "anthropic_config \<Rightarrow> request_options \<Rightarrow> json" where
  "thinking_json cfg opts =
     (let v = jobj [(''type'', JStr ''adaptive'')];
          v = (case ro_thinking_display opts of None \<Rightarrow> v | Some d \<Rightarrow> jset v ''display'' (display_json d))
      in if an_enable_block_binding cfg
         then jset v ''block_binding''
                (jobj [(''prefix_mismatch_behavior'', JStr (an_prefix_mismatch_behavior cfg))])
         else v)"

definition add_beta :: "string \<Rightarrow> string list \<Rightarrow> string list" where
  "add_beta b betas = (if b \<in> set betas then betas else betas @ [b])"

definition task_budget :: "request_options \<Rightarrow> u64 option" where
  "task_budget opts = (case ro_task_budget_total opts of
     Some t \<Rightarrow> if MIN_TASK_BUDGET \<le> t then Some t else None | None \<Rightarrow> None)"

definition build_request :: "model_request \<Rightarrow> model_caps \<Rightarrow> anthropic_config \<Rightarrow> json \<times> string list" where
  "build_request req caps cfg =
     (let opts = mr_options req;
          cache = (\<lambda>v. if ro_disable_cache opts then v else jset v ''cache_control'' ephemeral);
          body = cache (jobj [(''model'', JStr (mr_model req)),
            (''max_tokens'', jnat (unat (mr_max_tokens req))), (''stream'', JBool True),
            (''messages'', JArr (List.map_filter message_json (mr_messages req)))]);
          body = (case mr_system req of None \<Rightarrow> body
            | Some s \<Rightarrow> jset body ''system''
                (JArr [cache (jobj [(''type'', JStr ''text''), (''text'', JStr s)])]));
          body = (if mr_tools req = [] then body
            else jset body ''tools'' (JArr (map tool_json (mr_tools req))));
          body = (if cap_adaptive_thinking caps then jset body ''thinking'' (thinking_json cfg opts)
            else body);
          betas = (if cap_adaptive_thinking caps \<and> an_enable_block_binding cfg then [BINDING_BETA] else []);
          body = (case ro_effort opts of None \<Rightarrow> body
            | Some e \<Rightarrow> jset body ''output_config'' (jobj [(''effort'', effort_json e)]));
          (body, betas) = (case task_budget opts of None \<Rightarrow> (body, betas)
            | Some tot \<Rightarrow>
                let config = (case jget body ''output_config'' of None \<Rightarrow> JObj [] | Some c \<Rightarrow> c)
                in (jset body ''output_config'' (jset config ''task_budget''
                      (jobj [(''type'', JStr ''tokens''), (''total'', JNum (PosInt tot))])),
                    betas @ [TASK_BETA]))
      in (body, fold add_beta (an_extra_betas cfg) betas))"

section \<open>Mapping events\<close>

record mapper =
  mp_server_tools :: "(nat \<times> json \<times> string) list"
  mp_model :: string
  mp_usage :: usage

definition mapper_new :: mapper where
  "mapper_new = \<lparr>mp_server_tools = [], mp_model = [], mp_usage = usage_default\<rparr>"

definition malformed :: "string \<Rightarrow> provider_error" where
  "malformed field = Protocol (''invalid Anthropic event field: '' @ field)"

definition string_field :: "json \<Rightarrow> string \<Rightarrow> provider_error + string" where
  "string_field v k = (case as_str (jindex v k) of Some s \<Rightarrow> Inr s | None \<Rightarrow> Inl (malformed k))"

definition index_field :: "json \<Rightarrow> provider_error + nat" where
  "index_field v = (case as_u64 (jindex v ''index'') of
     Some n \<Rightarrow> Inr (unat n) | None \<Rightarrow> Inl (malformed ''index''))"

definition counters :: "(json \<Rightarrow> usage option) \<Rightarrow> json \<Rightarrow> provider_error + usage" where
  "counters de_usage v =
     (if v = JNull then Inr usage_default
      else case de_usage v of Some u \<Rightarrow> Inr u | None \<Rightarrow> Inl (malformed ''usage''))"

text \<open>The question mark operator.\<close>

definition try_bind :: "'e + 'a \<Rightarrow> ('a \<Rightarrow> 'e + 'b) \<Rightarrow> 'e + 'b" where
  "try_bind r f = (case r of Inl e \<Rightarrow> Inl e | Inr x \<Rightarrow> f x)"

definition fill_missing :: "json \<Rightarrow> string \<Rightarrow> u64 \<Rightarrow> u64 \<Rightarrow> u64" where
  "fill_missing raw field current fallback = (if jget raw field = None then fallback else current)"

definition fill_missing_counters :: "usage \<Rightarrow> json \<Rightarrow> usage \<Rightarrow> usage" where
  "fill_missing_counters u raw prev = \<lparr>
     input_tokens = fill_missing raw ''input_tokens'' (input_tokens u) (input_tokens prev),
     output_tokens = fill_missing raw ''output_tokens'' (output_tokens u) (output_tokens prev),
     cache_creation_input_tokens = fill_missing raw ''cache_creation_input_tokens''
       (cache_creation_input_tokens u) (cache_creation_input_tokens prev),
     cache_read_input_tokens = fill_missing raw ''cache_read_input_tokens''
       (cache_read_input_tokens u) (cache_read_input_tokens prev)\<rparr>"

text \<open>`serde_json::from_value` of a stop reason: a string, read by the deserializer.\<close>

definition stop_reason_value :: "json \<Rightarrow> provider_error + stop_reason option" where
  "stop_reason_value v =
     (if v = JNull then Inr None
      else case as_str v of Some s \<Rightarrow> Inr (Some (stop_reason_deserialize s))
        | None \<Rightarrow> Inl (malformed ''stop_reason''))"

type_synonym mapped = "stream_event option \<times> stream_event list \<times> mapper"

text \<open>The first component of `mapped` is the mapped event when the code goes on to the usage
  part; the second one is the list the arm returns early.\<close>

definition map_message_start :: "(json \<Rightarrow> usage option) \<Rightarrow> mapper \<Rightarrow> json \<Rightarrow> provider_error + mapped" where
  "map_message_start de_usage mp v =
     (let m = jindex v ''message'' in
      try_bind (string_field m ''model'') (\<lambda>model.
      try_bind (counters de_usage (jindex m ''usage'')) (\<lambda>u.
        Inr (Some (MessageStart (as_str (jindex m ''id'')) model u), [],
             mp\<lparr>mp_model := model, mp_usage := u\<rparr>))))"

definition map_block_start :: "mapper \<Rightarrow> json \<Rightarrow> provider_error + mapped" where
  "map_block_start mp v =
     (let raw = jindex v ''content_block'' in
      try_bind (string_field raw ''type'') (\<lambda>kind.
        if kind = ''server_tool_use''
        then try_bind (index_field v) (\<lambda>i.
          if map_of (mp_server_tools mp) i \<noteq> None then Inl (malformed ''duplicate server tool index'')
          else Inr (None, [], mp\<lparr>mp_server_tools := AList.update i (raw, []) (mp_server_tools mp)\<rparr>))
        else
          try_bind (if kind = ''text'' then Inr StartText
            else if kind = ''thinking'' then Inr StartThinking
            else if kind = ''tool_use''
            then try_bind (string_field raw ''id'') (\<lambda>j.
                 try_bind (string_field raw ''name'') (\<lambda>n. Inr (StartToolUse j n)))
            else Inr (StartOpaque ''anthropic'' kind raw)) (\<lambda>block.
          try_bind (index_field v) (\<lambda>i. Inr (Some (BlockStart i block), [], mp)))))"

definition map_block_delta :: "mapper \<Rightarrow> json \<Rightarrow> provider_error + mapped" where
  "map_block_delta mp v =
     (let delta = jindex v ''delta'' in
      try_bind (index_field v) (\<lambda>i.
      case map_of (mp_server_tools mp) i of
        Some (raw, partial) \<Rightarrow>
          try_bind (string_field delta ''type'') (\<lambda>kind.
            if kind = ''input_json_delta''
            then try_bind (string_field delta ''partial_json'') (\<lambda>s.
              Inr (None, [], mp\<lparr>mp_server_tools := AList.update i (raw, partial @ s) (mp_server_tools mp)\<rparr>))
            else Inr (None, [], mp))
      | None \<Rightarrow>
          try_bind (string_field delta ''type'') (\<lambda>kind.
            if kind = ''text_delta''
            then try_bind (string_field delta ''text'') (\<lambda>s. Inr (Some (TextDelta i s), [], mp))
            else if kind = ''thinking_delta''
            then try_bind (string_field delta ''thinking'') (\<lambda>s. Inr (Some (ThinkingDelta i s), [], mp))
            else if kind = ''signature_delta''
            then try_bind (string_field delta ''signature'') (\<lambda>s. Inr (Some (SignatureDelta i s), [], mp))
            else if kind = ''input_json_delta''
            then try_bind (string_field delta ''partial_json'') (\<lambda>s. Inr (Some (ToolInputDelta i s), [], mp))
            else Inr (None, [], mp))))"

definition map_block_stop :: "(string \<Rightarrow> json option) \<Rightarrow> mapper \<Rightarrow> json \<Rightarrow> provider_error + mapped" where
  "map_block_stop parse mp v =
     try_bind (index_field v) (\<lambda>i.
     case map_of (mp_server_tools mp) i of
       None \<Rightarrow> Inr (Some (BlockStop i), [], mp)
     | Some (raw, partial) \<Rightarrow>
         let mp' = mp\<lparr>mp_server_tools := AList.delete i (mp_server_tools mp)\<rparr> in
         try_bind (if partial = [] then Inr raw
           else case parse partial of
             Some inp \<Rightarrow> Inr (jset raw ''input'' inp) | None \<Rightarrow> Inl (malformed ''server tool input''))
         (\<lambda>raw'. Inr (None, [BlockStart i (StartOpaque ''anthropic'' ''server_tool_use'' raw'), BlockStop i], mp')))"

definition map_message_delta :: "(json \<Rightarrow> usage option) \<Rightarrow> mapper \<Rightarrow> json \<Rightarrow> provider_error + mapped" where
  "map_message_delta de_usage mp v =
     try_bind (stop_reason_value (jindex (jindex v ''delta'') ''stop_reason'')) (\<lambda>reason.
     try_bind (counters de_usage (jindex v ''usage'')) (\<lambda>u.
       Inr (Some (MessageDelta reason u), [], mp)))"

definition map_kind ::
    "(string \<Rightarrow> json option) \<Rightarrow> (json \<Rightarrow> usage option) \<Rightarrow> string \<Rightarrow> string \<Rightarrow> mapper \<Rightarrow> json \<Rightarrow> provider_error + mapped" where
  "map_kind parse de_usage key kind mp v =
     (if kind = ''message_start'' then map_message_start de_usage mp v
      else if kind = ''content_block_start'' then map_block_start mp v
      else if kind = ''content_block_delta'' then map_block_delta mp v
      else if kind = ''content_block_stop'' then map_block_stop parse mp v
      else if kind = ''message_delta'' then map_message_delta de_usage mp v
      else if kind = ''message_stop''
      then (if mp_server_tools mp \<noteq> [] then Inl (malformed ''open server tool block'')
            else Inr (Some MessageStop, [], mp))
      else if kind = ''error''
      then try_bind (string_field (jindex v ''error'') ''type'') (\<lambda>t.
           try_bind (string_field (jindex v ''error'') ''message'') (\<lambda>m.
             Inl (Stream (redact t key) (redact m key))))
      else Inr (None, [], mp))"

text \<open>The usage part: counters that the event omits come from the serving iteration.\<close>

definition map_usage ::
    "(json \<Rightarrow> usage option) \<Rightarrow> (json \<Rightarrow> usage_iteration list option) \<Rightarrow> mapper \<Rightarrow> json
      \<Rightarrow> provider_error + (stream_event list \<times> mapper)" where
  "map_usage de_usage de_iterations mp u =
     try_bind (counters de_usage u) (\<lambda>latest.
     case jget u ''iterations'' of
       Some its \<Rightarrow>
         if its = JNull
         then Inr ([], mp\<lparr>mp_usage := fill_missing_counters latest u (mp_usage mp)\<rparr>)
         else (case de_iterations its of
             None \<Rightarrow> Inl (malformed ''iterations'')
           | Some iterations \<Rightarrow>
               let serving = find (\<lambda>it. ui_kind it = ''fallback_message'') (rev iterations) in
               if (case serving of Some it \<Rightarrow> ui_model it = [] | None \<Rightarrow> False)
               then Inl (malformed ''fallback model'')
               else
                 let model = (case serving of Some it \<Rightarrow> ui_model it | None \<Rightarrow> mp_model mp);
                     latest' = fill_missing_counters latest u
                       (case serving of Some it \<Rightarrow> ui_usage it | None \<Rightarrow> mp_usage mp)
                 in Inr ([UsageSnapshot model latest' iterations],
                      mp\<lparr>mp_model := model, mp_usage := latest'\<rparr>))
     | None \<Rightarrow> Inr ([], mp\<lparr>mp_usage := fill_missing_counters latest u (mp_usage mp)\<rparr>))"

definition map_event ::
    "(string \<Rightarrow> json option) \<Rightarrow> (json \<Rightarrow> usage option) \<Rightarrow> (json \<Rightarrow> usage_iteration list option)
      \<Rightarrow> string \<Rightarrow> mapper \<Rightarrow> sse_event \<Rightarrow> provider_error + (stream_event list \<times> mapper)" where
  "map_event parse de_usage de_iterations key mp ev =
     (if ev_event ev = ''ping'' then Inr ([], mp)
      else case parse (ev_data ev) of
        None \<Rightarrow> Inl (Protocol ''invalid SSE JSON'')
      | Some v \<Rightarrow>
          try_bind (if ev_event ev = ''message'' then string_field v ''type'' else Inr (ev_event ev)) (\<lambda>kind.
          try_bind (map_kind parse de_usage key kind mp v) (\<lambda>(mapped, early, mp').
            case mapped of
              None \<Rightarrow> Inr (early, mp')
            | Some e \<Rightarrow>
                if kind = ''message_start'' \<or> kind = ''message_delta''
                then try_bind (map_usage de_usage de_iterations mp'
                       (if kind = ''message_start'' then jindex (jindex v ''message'') ''usage''
                        else jindex v ''usage''))
                       (\<lambda>(more, mp''). Inr (e # more, mp''))
                else Inr ([e], mp'))))"

section \<open>The response stream\<close>

text \<open>One pass of the inner loop sees the token and the clock, and waits for the network when no
  parsed event is pending.\<close>

datatype tick =
    TCancelled
  | TDeadline
  | TGo
  | TIdle
  | TChunk string
  | TEof
  | TBroken transport_kind

fun emit_until_stop :: "stream_event list \<Rightarrow> (provider_error + stream_event) list \<times> bool" where
  "emit_until_stop [] = ([], False)"
| "emit_until_stop (e # es) =
     (if e = MessageStop then ([Inr e], True)
      else (let (items, stopped) = emit_until_stop es in (Inr e # items, stopped)))"

fun response_items ::
    "(mapper \<Rightarrow> sse_event \<Rightarrow> provider_error + (stream_event list \<times> mapper)) \<Rightarrow> tick list
      \<Rightarrow> sse_parser \<Rightarrow> mapper \<Rightarrow> sse_event list \<Rightarrow> (provider_error + stream_event) list" where
  "response_items mapf [] p mp pending = []"
| "response_items mapf (t # ts) p mp pending =
     (if t = TCancelled then [Inl (classify_dispatch ProviderCancelled True)]
      else if t = TDeadline then [Inl (classify_dispatch (Transport ''request timeout'') True)]
      else case pending of
        ev # rest \<Rightarrow>
          (case mapf mp ev of
             Inl e \<Rightarrow> [Inl (classify_dispatch e True)]
           | Inr (es, mp') \<Rightarrow>
               (let (items, stopped) = emit_until_stop es
                in items @ (if stopped then [] else response_items mapf ts p mp' rest)))
      | [] \<Rightarrow>
          (case t of
             TIdle \<Rightarrow> [Inl (classify_dispatch IdleTimeout True)]
           | TBroken k \<Rightarrow> [Inl (classify_dispatch (transport k) True)]
           | TEof \<Rightarrow> [Inl (classify_dispatch (Protocol ''SSE ended before message_stop'') True)]
           | TChunk bytes \<Rightarrow>
               (case sse_feed p bytes of
                  Inl e \<Rightarrow> [Inl (classify_dispatch e True)]
                | Inr (evs, p') \<Rightarrow> response_items mapf ts p' mp evs)
           | _ \<Rightarrow> response_items mapf ts p mp []))"

end
