(* ===== verification/Anthropic_Props.thy ===== *)
theory Anthropic_Props
  imports Anthropic "HOL-Library.Multiset"
begin

text \<open>
  What the Anthropic provider promises to the runtime: what a failed attempt costs, how a stream
  ends, and that its tables and headers do not depend on iteration order.
\<close>

section \<open>Errors of the mapper\<close>

fun stream_failure :: "provider_error \<Rightarrow> bool" where
  "stream_failure (Protocol _) = True"
| "stream_failure (Stream _ _) = True"
| "stream_failure _ = False"

definition fails_in_stream :: "(provider_error + 'a) \<Rightarrow> bool" where
  "fails_in_stream r = (\<forall>e. r = Inl e \<longrightarrow> stream_failure e)"

lemma fails_Inr [simp]: "fails_in_stream (Inr x)"
  by (simp add: fails_in_stream_def)

lemma fails_Inl [simp]: "fails_in_stream (Inl e) = stream_failure e"
  by (simp add: fails_in_stream_def)

lemma fails_bind [intro]:
  "fails_in_stream r \<Longrightarrow> (\<And>x. fails_in_stream (f x)) \<Longrightarrow> fails_in_stream (try_bind r f)"
  by (cases r) (simp_all add: try_bind_def)

lemma fails_fields [simp]:
  "fails_in_stream (string_field v k)" "fails_in_stream (index_field v)"
  "fails_in_stream (counters de v)" "fails_in_stream (stop_reason_value v)"
  by (simp_all add: string_field_def index_field_def counters_def stop_reason_value_def malformed_def
      split: option.splits)

lemma fails_if: "fails_in_stream a \<Longrightarrow> fails_in_stream b \<Longrightarrow> fails_in_stream (if c then a else b)"
  by simp

lemma fails_option:
  "fails_in_stream a \<Longrightarrow> (\<And>x. fails_in_stream (f x)) \<Longrightarrow> fails_in_stream (case r of None \<Rightarrow> a | Some x \<Rightarrow> f x)"
  by (cases r) simp_all

lemma fails_prod: "(\<And>x y. fails_in_stream (f x y)) \<Longrightarrow> fails_in_stream (case r of (x, y) \<Rightarrow> f x y)"
  by (cases r) simp

lemma fails_malformed [simp]: "stream_failure (malformed k)"
  by (simp add: malformed_def)

lemmas fails_rules = fails_bind fails_if fails_option fails_prod

lemma fails_map_message:
  "fails_in_stream (map_message_start de mp v)" "fails_in_stream (map_message_delta de mp v)"
  unfolding map_message_start_def map_message_delta_def Let_def by (intro fails_rules; simp)+

lemma fails_map_block_start: "fails_in_stream (map_block_start mp v)"
  unfolding map_block_start_def Let_def by (intro fails_rules; simp)

lemma fails_map_block_delta: "fails_in_stream (map_block_delta mp v)"
  unfolding map_block_delta_def Let_def by (intro fails_rules; simp)

lemma fails_map_block_stop: "fails_in_stream (map_block_stop parse mp v)"
  unfolding map_block_stop_def Let_def by (intro fails_rules; simp)

lemma fails_map_kind: "fails_in_stream (map_kind parse de key kind mp v)"
  unfolding map_kind_def
  by (intro fails_rules fails_map_message fails_map_block_start fails_map_block_delta
      fails_map_block_stop; simp)

lemma fails_map_usage: "fails_in_stream (map_usage de des mp u)"
  unfolding map_usage_def Let_def by (intro fails_rules; simp)

lemma fails_map_event: "fails_in_stream (map_event parse de des key mp ev)"
  unfolding map_event_def
  by (intro fails_rules fails_map_kind fails_map_usage; simp)

lemma sse_line_fails: "fails_in_stream (sse_line p)"
  by (auto simp: sse_line_def Let_def split: prod.splits)

lemma sse_feed_fails: "fails_in_stream (sse_feed p bs)"
proof (induction bs arbitrary: p)
  case (Cons b bs)
  have "fails_in_stream (sse_byte p b)"
    using sse_line_fails [of "p\<lparr>sp_skip_lf := False\<rparr>"]
    by (auto simp: sse_byte_def Let_def split: sum.splits)
  then show ?case using Cons by (auto split: sum.splits prod.splits)
      (metis Cons.IH fails_Inl)
qed simp

section \<open>The shape of a stream\<close>

definition live_events :: "(provider_error + stream_event) list \<Rightarrow> bool" where
  "live_events items = list_all (\<lambda>i. \<exists>e. i = Inr e \<and> e \<noteq> MessageStop) items"

fun charged_item :: "provider_error + stream_event \<Rightarrow> bool" where
  "charged_item (Inl e) = (error_charge e = Reserved)"
| "charged_item (Inr e) = (e = MessageStop)"

definition well_ended :: "(provider_error + stream_event) list \<Rightarrow> bool" where
  "well_ended items = (live_events items \<or> (\<exists>xs y. items = xs @ [y] \<and> live_events xs \<and> charged_item y))"

lemma well_ended_single [simp]: "charged_item y \<Longrightarrow> well_ended [y]"
  unfolding well_ended_def by (intro disjI2 exI [of _ "[]"] exI [of _ y]) (simp add: live_events_def)

lemma well_ended_prefix: "live_events xs \<Longrightarrow> well_ended ys \<Longrightarrow> well_ended (xs @ ys)"
  unfolding well_ended_def
proof (elim disjE exE conjE)
  fix zs z assume "live_events xs" "ys = zs @ [z]" "live_events zs" "charged_item z"
  then have "xs @ ys = (xs @ zs) @ [z] \<and> live_events (xs @ zs) \<and> charged_item z"
    by (simp add: live_events_def)
  then show "live_events (xs @ ys) \<or> (\<exists>us u. xs @ ys = us @ [u] \<and> live_events us \<and> charged_item u)"
    by blast
qed (simp add: live_events_def)

lemma emit_until_stop_shape:
  "emit_until_stop es = (items, stopped) \<Longrightarrow>
    (if stopped then \<exists>xs. items = xs @ [Inr MessageStop] \<and> live_events xs else live_events items)"
proof (induction es arbitrary: items stopped)
  case (Cons e es)
  obtain it st where r: "emit_until_stop es = (it, st)" by fastforce
  show ?case
  proof (cases "e = MessageStop")
    case True
    then show ?thesis using Cons.prems by (auto simp: live_events_def)
  next
    case False
    then have "items = Inr e # it" "stopped = st" using Cons.prems r by auto
    moreover have "live_events (Inr e # xs) = live_events xs" for xs
      using False by (simp add: live_events_def)
    ultimately show ?thesis using Cons.IH [OF r] by (metis append_Cons)
  qed
qed (simp add: live_events_def)

lemma stream_failure_reserved: "stream_failure e \<Longrightarrow> error_charge e = Reserved"
  by (cases e) simp_all

lemma response_items_shape:
  assumes "\<And>mp ev. fails_in_stream (mapf mp ev)"
  shows "well_ended (response_items mapf ts p mp pending)"
proof (induction ts arbitrary: p mp pending)
  case Nil
  then show ?case by (simp add: well_ended_def live_events_def)
next
  case (Cons t ts)
  show ?case
  proof (cases "t = TCancelled \<or> t = TDeadline")
    case True
    then show ?thesis by (auto simp: classify_dispatch_def)
  next
    case go: False
    show ?thesis
    proof (cases pending)
      case Nil
      show ?thesis
      proof (cases t)
        case (TChunk bytes)
        then show ?thesis using Nil sse_feed_fails [of p bytes] Cons
          by (auto simp: classify_dispatch_def stream_failure_reserved split: sum.splits)
      next
        case (TBroken k)
        then show ?thesis using Nil by (cases k) (auto simp: classify_dispatch_def)
      qed (use Nil go Cons in \<open>auto simp: classify_dispatch_def\<close>)
    next
      case (Cons ev rest)
      show ?thesis
      proof (cases "mapf mp ev")
        case (Inl e)
        then show ?thesis using go Cons assms [of mp ev]
          by (auto simp: classify_dispatch_def stream_failure_reserved)
      next
        case (Inr r)
        obtain es mp' where r: "r = (es, mp')" by (cases r)
        obtain items stopped where em: "emit_until_stop es = (items, stopped)" by fastforce
        have "well_ended (items @ (if stopped then [] else response_items mapf ts p mp' rest))"
          using emit_until_stop_shape [OF em] Cons.IH [of p mp' rest]
          by (cases stopped) (auto intro: well_ended_prefix well_ended_single)
        then show ?thesis using go Cons Inr r em by simp
      qed
    qed
  qed
qed

lemma live_events_map: "live_events xs \<Longrightarrow> \<exists>evs. xs = map Inr evs \<and> MessageStop \<notin> set evs"
proof (induction xs)
  case (Cons x xs)
  then obtain evs where "xs = map Inr evs" "MessageStop \<notin> set evs" by (auto simp: live_events_def)
  moreover obtain e where "x = Inr e" "e \<noteq> MessageStop" using Cons.prems by (auto simp: live_events_def)
  ultimately show ?case by (intro exI [of _ "e # evs"]) simp
qed simp

text \<open>
  C17. Whatever the network, the clock and the caller do, the stream of a response is a sequence
  of events followed by at most one terminal item, a message stop or an error; nothing follows
  it, and every error, once a response was received, charges the whole reservation.
\<close>
theorem response_stream_ends_once:
  "\<exists>evs tail. response_items (map_event parse de_usage de_iterations key) ts p mp pending = map Inr evs @ tail
    \<and> MessageStop \<notin> set evs
    \<and> (tail = [] \<or> tail = [Inr MessageStop] \<or> (\<exists>e. tail = [Inl e] \<and> error_charge e = Reserved))"
proof -
  have "well_ended (response_items (map_event parse de_usage de_iterations key) ts p mp pending)"
    by (rule response_items_shape) (rule fails_map_event)
  then consider "live_events (response_items (map_event parse de_usage de_iterations key) ts p mp pending)"
    | xs y where "response_items (map_event parse de_usage de_iterations key) ts p mp pending = xs @ [y]"
        "live_events xs" "charged_item y"
    unfolding well_ended_def by blast
  then show ?thesis
  proof cases
    case 1
    then show ?thesis using live_events_map by (metis append_Nil2)
  next
    case 2
    obtain evs where "xs = map Inr evs" "MessageStop \<notin> set evs" using live_events_map [OF 2(2)] by blast
    moreover have "[y] = [Inr MessageStop] \<or> (\<exists>e. [y] = [Inl e] \<and> error_charge e = Reserved)"
      using 2(3) by (cases y) simp_all
    ultimately show ?thesis using 2(1) by blast
  qed
qed

section \<open>Dispatch\<close>

text \<open>
  C19. A request that fails before anything was sent charges nothing and may be retried; one that
  fails after sending started keeps its error and charges the reservation.
\<close>
theorem dispatch_decides_charge:
  assumes "send_request out send_started = Inl e"
  shows "if send_started then error_charge e = Reserved
     else error_charge e = Zero \<and> is_retryable e \<and> (\<exists>m. e = NotSent m)"
proof (cases send_started)
  case True
  have "error_charge (transport k) = Reserved" for k by (cases k) simp_all
  with True assms show ?thesis
    by (cases out) (auto simp: send_request_def classify_dispatch_def)
next
  case False
  then have "\<exists>m. e = NotSent m"
    using assms by (cases out) (auto simp: send_request_def classify_dispatch_def)
  then show ?thesis using False by auto
qed

theorem dispatch_decides_charge_witness:
  "error_charge (NotSent ''cancelled before sending'') = Zero"
  using dispatch_decides_charge [of SendCancelled False "NotSent ''cancelled before sending''"]
  by (simp add: send_request_def classify_dispatch_def)

section \<open>Capabilities\<close>

lemma longest_None: "longest ps = None \<longleftrightarrow> ps = []"
  by (cases ps) (auto split: option.splits)

lemma longest_SomeD:
  "longest ps = Some q \<Longrightarrow> q \<in> set ps \<and> (\<forall>p \<in> set ps. length (fst p) \<le> length (fst q))"
  by (induction ps arbitrary: q) (fastforce simp: longest_None split: option.splits if_splits)+

lemma resolve_caps_unique:
  assumes "distinct (map fst t)" "(pre, c) \<in> set t" "prefix pre model"
    "\<And>p d. (p, d) \<in> set t \<Longrightarrow> prefix p model \<Longrightarrow> length p \<le> length pre"
  shows "resolve_caps t model = c"
proof -
  let ?f = "filter (\<lambda>(p, _). prefix p model) t"
  have "(pre, c) \<in> set ?f" using assms(2,3) by simp
  then have "?f \<noteq> []" by (metis list.distinct(1) list.set_cases)
  then obtain q where q: "longest ?f = Some q"
    using longest_None [of ?f] by (cases "longest ?f") auto
  note l = longest_SomeD [OF q]
  obtain p d where pd: "q = (p, d)" by (cases q)
  then have "(p, d) \<in> set t" "prefix p model" using l by auto
  moreover have "length pre \<le> length p" using l \<open>(pre, c) \<in> set ?f\<close> pd by auto
  ultimately have "length p = length pre" using assms(4) by (meson le_antisym)
  then have "p = pre" using assms(3) \<open>prefix p model\<close> by (metis prefix_length_prefix prefix_order.antisym order_refl)
  then have "d = c" using assms(1,2) \<open>(p, d) \<in> set t\<close> by (meson eq_key_imp_eq_value)
  then show ?thesis by (simp add: resolve_caps_def q pd)
qed

text \<open>
  The capabilities of a model are those of its longest matching prefix and do not depend on
  the order in which the hash map happens to list its entries; a model that matches no prefix
  gets the defaults.
\<close>
theorem resolve_caps_longest_prefix:
  assumes "distinct (map fst t)" "mset t = mset t'"
  shows "resolve_caps t model = resolve_caps t' model
    \<and> (if \<exists>p c. (p, c) \<in> set t \<and> prefix p model
       then \<exists>p. (p, resolve_caps t model) \<in> set t \<and> prefix p model
         \<and> (\<forall>p' c. (p', c) \<in> set t \<and> prefix p' model \<longrightarrow> length p' \<le> length p)
       else resolve_caps t model = model_caps_default)"
proof (cases "\<exists>p c. (p, c) \<in> set t \<and> prefix p model")
  case True
  let ?f = "filter (\<lambda>(p, _). prefix p model) t"
  have "?f \<noteq> []" using True by (auto simp: filter_empty_conv)
  then obtain q where q: "longest ?f = Some q" using longest_None [of ?f] by (cases "longest ?f") auto
  obtain p d where pd: "q = (p, d)" by (cases q)
  have m: "(p, d) \<in> set t" "prefix p model" and
    mx: "\<And>p' c. (p', c) \<in> set t \<Longrightarrow> prefix p' model \<Longrightarrow> length p' \<le> length p"
    using longest_SomeD [OF q] pd by auto
  have t: "resolve_caps t model = d" by (rule resolve_caps_unique [OF assms(1) m]) (rule mx)
  have "set t' = set t" using mset_eq_setD [OF assms(2)] by simp
  moreover have "distinct (map fst t')"
    using assms mset_eq_imp_distinct_iff [of "map fst t" "map fst t'"] by simp
  ultimately have "resolve_caps t' model = d"
    using m mx by (intro resolve_caps_unique) auto
  then show ?thesis using True t m mx by auto
next
  case False
  moreover have "set t' = set t" using mset_eq_setD [OF assms(2)] by simp
  ultimately have "filter (\<lambda>(p, _). prefix p model) t = []" "filter (\<lambda>(p, _). prefix p model) t' = []"
    by (auto simp: filter_empty_conv)
  then have "resolve_caps t model = model_caps_default" "resolve_caps t' model = model_caps_default"
    by (simp_all add: resolve_caps_def)
  then show ?thesis using False by (simp only: if_False)
qed

theorem resolve_caps_longest_prefix_witness:
  "resolve_caps (rev default_model_caps) ''claude-opus-5-5'' = resolve_caps default_model_caps ''claude-opus-5-5''"
proof -
  have "distinct (map fst default_model_caps)"
    by (simp add: default_model_caps_def Let_def)
  from resolve_caps_longest_prefix [OF this, of "rev default_model_caps"] show ?thesis by simp
qed

end
