(* ===== verification/Trace.thy ===== *)
theory Trace
  imports Mailbox "HOL-Library.Multiset"
begin

text \<open>
  The trace of `crates/core/src/trace.rs`: the events, the records that carry them, the sink
  that hands persistent events to a store in sequence order, and the reconstruction of the
  recursion tree from a list of records.
\<close>

section \<open>Outcomes\<close>

text \<open>`Answer`, `AgentOutcome` of `crates/core/src/runtime.rs`; a raw JSON value is its text.\<close>

datatype answer = AnswerText string | AnswerValue string

fun answer_text :: "answer \<Rightarrow> string" where
  "answer_text (AnswerText s) = s"
| "answer_text (AnswerValue v) = v"

record agent_outcome =
  ao_node :: node_id
  ao_status :: status
  ao_answer :: answer
  ao_usage_self :: usage
  ao_usage_subtree :: usage
  ao_turns :: u32

section \<open>Events\<close>

record node_start =
  ns_node :: node_id
  ns_parent :: "node_id option"
  ns_depth :: u32
  ns_kind :: string
  ns_name :: string
  ns_model :: string
  ns_origin_cell :: "u32 option"
  ns_system :: "string option"
  ns_tools :: "tool_spec list"
  ns_limits :: limits
  ns_prompt :: "json option"

record attempt_end =
  ae_node :: node_id
  ae_attempt :: u64
  ae_request_id :: "string option"
  ae_outcome :: string
  ae_charged :: u64
  ae_excess :: u64
  ae_usage :: "usage option"
  ae_stop_reason :: "stop_reason option"
  ae_ms :: u64

datatype trace_event =
    SessionStart string string string limits
  | NodeStart node_start
  | MessageEvent node_id message
  | AttemptStart node_id u64 string u64 u32
  | AttemptEnd attempt_end
  | InvalidToolInput node_id string string
  | ErrorEvent node_id string
  | ToolCall node_id string string json
  | ToolResultEvent node_id string string bool
  | MessageSent envelope
  | MessageDelivered node_id "u64 list" delivery
  | MessageUndelivered envelope string
  | NodeEnd agent_outcome
  | SessionEnd status
  | Delta node_id stream_event
  | StreamReset node_id

fun ephemeral_event :: "trace_event \<Rightarrow> bool" where
  "ephemeral_event (Delta _ _) = True"
| "ephemeral_event (StreamReset _) = True"
| "ephemeral_event _ = False"

record trace_record =
  tr_v :: u32
  tr_seq :: "u64 option"
  tr_ts :: string
  tr_event :: trace_event

definition trace_record_new :: "string \<Rightarrow> trace_event \<Rightarrow> u64 option \<Rightarrow> trace_record" where
  "trace_record_new ts e seq = \<lparr>tr_v = 1, tr_seq = seq, tr_ts = ts, tr_event = e\<rparr>"

section \<open>Reconstruction of the recursion tree\<close>

text \<open>
  The fields of `RecursionTree` other than its children, and the tree itself.
\<close>

record tree_head =
  th_id :: node_id
  th_kind :: string
  th_name :: string
  th_model :: string
  th_origin_cell :: "u32 option"
  th_status :: "status option"
  th_turns :: u32
  th_usage_self :: usage
  th_usage_subtree :: usage

datatype recursion_tree = Tree (root_head: tree_head) (root_children: "recursion_tree list")

datatype tree_error = DuplicateStart node_id | MissingParent node_id | CycleAt node_id

type_synonym nodes = "(node_id \<times> node_id option \<times> tree_head) list"

definition start_head :: "node_start \<Rightarrow> tree_head" where
  "start_head s = \<lparr>th_id = ns_node s, th_kind = ns_kind s, th_name = ns_name s,
     th_model = ns_model s, th_origin_cell = ns_origin_cell s, th_status = None, th_turns = 0,
     th_usage_self = usage_default, th_usage_subtree = usage_default\<rparr>"

fun collect_starts :: "trace_event list \<Rightarrow> nodes \<Rightarrow> tree_error + nodes" where
  "collect_starts [] nodes = Inr nodes"
| "collect_starts (NodeStart s # es) nodes =
     (if map_of nodes (ns_node s) \<noteq> None then Inl (DuplicateStart (ns_node s))
      else collect_starts es (bt_insert (ns_node s) (ns_parent s, start_head s) nodes))"
| "collect_starts (_ # es) nodes = collect_starts es nodes"

text \<open>`if let Some((_, tree)) = nodes.get_mut(id)` followed by an assignment to the tree.\<close>

definition with_tree :: "node_id \<Rightarrow> (tree_head \<Rightarrow> tree_head) \<Rightarrow> nodes \<Rightarrow> nodes" where
  "with_tree n f nodes = map (\<lambda>(k, p, h). (k, p, if k = n then f h else h)) nodes"

definition add_turn :: "tree_head \<Rightarrow> tree_head" where
  "add_turn h = h\<lparr>th_turns := th_turns h + 1\<rparr>"

definition attempt_usage :: "attempt_end \<Rightarrow> usage" where
  "attempt_usage a = (case ae_usage a of Some u \<Rightarrow> u
     | None \<Rightarrow> usage_default\<lparr>input_tokens := ae_charged a\<rparr>)"

definition add_usage :: "usage \<Rightarrow> tree_head \<Rightarrow> tree_head" where
  "add_usage u h = h\<lparr>th_usage_self := usage_add (th_usage_self h) u\<rparr>"

fun account :: "trace_event \<Rightarrow> u64 set \<times> nodes \<Rightarrow> u64 set \<times> nodes" where
  "account (MessageEvent n m) (settled, nodes) =
     (settled, if msg_role m = Assistant then with_tree n add_turn nodes else nodes)"
| "account (AttemptEnd a) (settled, nodes) =
     (if ae_attempt a \<in> settled then (settled, nodes)
      else (insert (ae_attempt a) settled, with_tree (ae_node a) (add_usage (attempt_usage a)) nodes))"
| "account _ st = st"

definition end_head :: "agent_outcome \<Rightarrow> tree_head \<Rightarrow> tree_head" where
  "end_head oc h = h\<lparr>th_status := Some (ao_status oc), th_turns := ao_turns oc,
     th_usage_self := ao_usage_self oc\<rparr>"

fun record_end :: "trace_event \<Rightarrow> nodes \<Rightarrow> nodes" where
  "record_end (NodeEnd oc) nodes = with_tree (ao_node oc) (end_head oc) nodes"
| "record_end _ nodes = nodes"

text \<open>
  The map from a parent to its children, read where the code reads it: the entry of a key lists
  the nodes with that parent in key order.
\<close>

definition missing_parent :: "nodes \<Rightarrow> node_id option" where
  "missing_parent nodes = map_option fst (find (\<lambda>(_, p, _).
     case p of None \<Rightarrow> False | Some q \<Rightarrow> map_of nodes q = None) nodes)"

definition children_of :: "nodes \<Rightarrow> node_id option \<Rightarrow> node_id list" where
  "children_of nodes q = map fst (filter (\<lambda>(_, p, _). p = q) nodes)"

definition parent_of :: "nodes \<Rightarrow> node_id \<Rightarrow> node_id option option" where
  "parent_of nodes n = map_option fst (map_of nodes n)"

text \<open>
  The climb from a node to its root.  The result is None where the code would index a missing
  node, which is a panic, and otherwise the node at which a cycle is closed, if there is one.
\<close>

function climb :: "nodes \<Rightarrow> node_id set \<Rightarrow> node_id option \<Rightarrow> node_id option option" where
  "climb nodes seen None = Some None"
| "climb nodes seen (Some n) =
     (if n \<in> seen then Some (Some n)
      else case parent_of nodes n of
             None \<Rightarrow> None
           | Some p \<Rightarrow> climb nodes (insert n seen) p)"
  by pat_completeness auto
termination
proof (relation "measure (\<lambda>(nodes, seen, n). case n of None \<Rightarrow> 0
    | Some _ \<Rightarrow> Suc (card (set (map fst nodes) - seen)))")
  fix nodes :: nodes and seen n p
  assume a: "n \<notin> seen" "parent_of nodes n = Some p"
  then have "n \<in> set (map fst nodes)"
    by (auto simp: parent_of_def dest!: map_of_SomeD intro!: image_eqI)
  then have "card (set (map fst nodes) - insert n seen) < card (set (map fst nodes) - seen)"
    using a by (intro psubset_card_mono) auto
  then show "((nodes, insert n seen, p), nodes, seen, Some n) \<in> measure (\<lambda>(nodes, seen, n). case n of
      None \<Rightarrow> 0 | Some _ \<Rightarrow> Suc (card (set (map fst nodes) - seen)))"
    by (auto split: option.splits)
qed simp

fun find_cycle :: "nodes \<Rightarrow> node_id list \<Rightarrow> node_id option option" where
  "find_cycle nodes [] = Some None"
| "find_cycle nodes (n # ns) = (case climb nodes {} (Some n) of
       None \<Rightarrow> None
     | Some (Some c) \<Rightarrow> Some (Some c)
     | Some None \<Rightarrow> find_cycle nodes ns)"

text \<open>
  `build` on a list of siblings: each call removes its node from the map, which is a panic when
  it is not there, and the recursion is on the node's children.
\<close>

definition finish_head :: "tree_head \<Rightarrow> recursion_tree list \<Rightarrow> recursion_tree" where
  "finish_head h cs = Tree (h\<lparr>th_usage_subtree :=
     fold (\<lambda>c u. usage_add u (th_usage_subtree (root_head c))) cs (th_usage_self h)\<rparr>) cs"

partial_function (option) build :: "(node_id \<Rightarrow> node_id list) \<Rightarrow> node_id list \<Rightarrow> nodes
    \<Rightarrow> (recursion_tree list \<times> nodes) option" where
  "build kids ids nodes = (case ids of
       [] \<Rightarrow> Some ([], nodes)
     | n # ns \<Rightarrow>
         (case map_of nodes n of
            None \<Rightarrow> None
          | Some (_, h) \<Rightarrow>
              Option.bind (build kids (kids n) (AList.delete n nodes)) (\<lambda>(cs, nodes').
              Option.bind (build kids ns nodes') (\<lambda>(ts, nodes'').
                Some (finish_head h cs # ts, nodes'')))))"

definition assemble :: "nodes \<Rightarrow> (tree_error + recursion_tree list) option" where
  "assemble nodes = (case missing_parent nodes of
       Some n \<Rightarrow> Some (Inl (MissingParent n))
     | None \<Rightarrow>
         (case find_cycle nodes (map fst nodes) of
            None \<Rightarrow> None
          | Some (Some c) \<Rightarrow> Some (Inl (CycleAt c))
          | Some None \<Rightarrow>
              map_option (\<lambda>(ts, _). Inr ts)
                (build (\<lambda>n. children_of nodes (Some n)) (children_of nodes None) nodes)))"

definition accounted :: "trace_event list \<Rightarrow> nodes \<Rightarrow> nodes" where
  "accounted es nodes = fold record_end es (snd (fold account es ({}, nodes)))"

text \<open>None is a panic of the code.\<close>

definition reconstruct_events :: "trace_event list \<Rightarrow> (tree_error + recursion_tree list) option" where
  "reconstruct_events es = (case collect_starts es [] of
       Inl e \<Rightarrow> Some (Inl e)
     | Inr nodes \<Rightarrow> assemble (accounted es nodes))"

definition reconstruct_tree :: "trace_record list \<Rightarrow> (tree_error + recursion_tree list) option" where
  "reconstruct_tree rs = reconstruct_events (map tr_event rs)"

section \<open>A log as text\<close>

datatype log_error = ParseFailed | TreeFailed tree_error

definition reconstruct_jsonl :: "(string \<Rightarrow> trace_record option) \<Rightarrow> string
    \<Rightarrow> (log_error + recursion_tree list) option" where
  "reconstruct_jsonl parse s =
     (let rs = map parse (filter (\<lambda>l. \<not> blank l) (str_lines s))
      in if None \<in> set rs then Some (Inl ParseFailed)
         else map_option (map_sum TreeFailed id) (reconstruct_tree (map the rs)))"

end
