(* ===== verification/Session.thy ===== *)
theory Session
  imports Trace
begin

text \<open>
  The durable side of the trace: the writer of a session file with its blobs and the reader of
  session summaries (`crates/core/src/session.rs`), and the sink over caller-provided storage
  (`TraceSink::with_store`, `emit` and `finish` of `crates/core/src/trace.rs`).

  The serializers, the digest and the failures of the file system are parameters; a write that
  fails may leave any prefix of its bytes behind.
\<close>

section \<open>Writing a record\<close>

datatype blob_io = BlobDone | BlobFailed string nat

record write_io =
  wi_dir :: "string option"
  wi_open :: "string option"
  wi_blob :: blob_io
  wi_line :: "(string \<times> nat) option"

record codec =
  to_value :: "trace_record \<Rightarrow> json"
  to_vec :: "json \<Rightarrow> string"
  digest :: "string \<Rightarrow> string"

type_synonym blobs = "string \<rightharpoonup> string"

definition blob_reference :: "string \<Rightarrow> nat \<Rightarrow> json" where
  "blob_reference hash n = jobj [(''blob'', JStr (''sha256:'' @ hash)), (''bytes'', jnat n)]"

text \<open>`create_new` on a blob that is already there leaves it as it is.\<close>

definition write_blob :: "write_io \<Rightarrow> string \<Rightarrow> string \<Rightarrow> blobs \<Rightarrow> (string + unit) \<times> blobs" where
  "write_blob io hash bytes blobs =
     (case wi_dir io of
        Some e \<Rightarrow> (Inl e, blobs)
      | None \<Rightarrow>
          if blobs hash \<noteq> None then (Inr (), blobs)
          else case wi_open io of
                 Some e \<Rightarrow> (Inl e, blobs)
               | None \<Rightarrow>
                   (case wi_blob io of
                      BlobDone \<Rightarrow> (Inr (), blobs(hash \<mapsto> bytes))
                    | BlobFailed e n \<Rightarrow> (Inl e, blobs(hash \<mapsto> take n bytes))))"

text \<open>The value that is written for a record, and the blob it needs.\<close>

definition external_prompt :: "codec \<Rightarrow> json \<Rightarrow> string option" where
  "external_prompt c v = (case jget v ''prompt'' of
       None \<Rightarrow> None
     | Some p \<Rightarrow> if length (to_vec c p) > BLOB_THRESHOLD then Some (to_vec c p) else None)"

definition stored_value :: "codec \<Rightarrow> json \<Rightarrow> json" where
  "stored_value c v = (case external_prompt c v of
       None \<Rightarrow> v
     | Some bytes \<Rightarrow> jset v ''prompt'' (blob_reference (digest c bytes) (length bytes)))"

definition record_line :: "codec \<Rightarrow> trace_record \<Rightarrow> string" where
  "record_line c r = to_vec c (stored_value c (to_value c r))"

definition append_line :: "write_io \<Rightarrow> string \<Rightarrow> string \<Rightarrow> (string + unit) \<times> string" where
  "append_line io l file = (case wi_line io of
       None \<Rightarrow> (Inr (), file @ l @ [CHR 0x0A])
     | Some (e, n) \<Rightarrow> (Inl e, file @ take n (l @ [CHR 0x0A])))"

definition write_record :: "codec \<Rightarrow> write_io \<Rightarrow> trace_record \<Rightarrow> string \<times> blobs
    \<Rightarrow> (string + unit) \<times> string \<times> blobs" where
  "write_record c io r = (\<lambda>(file, blobs).
     let v = to_value c r;
         (stored, blobs') = (case external_prompt c v of
            None \<Rightarrow> (Inr (), blobs)
          | Some bytes \<Rightarrow> write_blob io (digest c bytes) bytes blobs)
     in case stored of
          Inl e \<Rightarrow> (Inl e, file, blobs')
        | Inr _ \<Rightarrow> (let (res, file') = append_line io (to_vec c (stored_value c v)) file
                   in (res, file', blobs')))"

section \<open>The writer of a session\<close>

record session =
  se_file :: string
  se_blobs :: blobs
  se_seq :: u64
  se_failed :: "string option"
  se_live :: "trace_record list"

definition session_create :: session where
  "session_create = \<lparr>se_file = [], se_blobs = Map.empty, se_seq = 0, se_failed = None, se_live = []\<rparr>"

definition session_event :: "codec \<Rightarrow> write_io \<Rightarrow> string \<Rightarrow> trace_event \<Rightarrow> session
    \<Rightarrow> (string + unit) \<times> session" where
  "session_event c io ts e s =
     (let r = trace_record_new ts e (Some (se_seq s));
          (res, file, blobs) = (case se_failed s of
             Some err \<Rightarrow> (Inl err, se_file s, se_blobs s)
           | None \<Rightarrow> write_record c io r (se_file s, se_blobs s));
          s' = s\<lparr>se_file := file, se_blobs := blobs\<rparr>
      in case res of
           Inl err \<Rightarrow> (Inl err, s'\<lparr>se_failed := Some err\<rparr>)
         | Inr u \<Rightarrow> (Inr u, s'\<lparr>se_seq := se_seq s + 1, se_live := se_live s @ [r]\<rparr>))"

definition session_finish :: "string option \<Rightarrow> session \<Rightarrow> string + unit" where
  "session_finish flush s = (case se_failed s of
       Some e \<Rightarrow> Inl e
     | None \<Rightarrow> (case flush of Some e \<Rightarrow> Inl e | None \<Rightarrow> Inr ()))"

text \<open>`TraceSink::emit` on a session: an ephemeral event is only broadcast.\<close>

definition session_emit :: "codec \<Rightarrow> write_io \<Rightarrow> string \<Rightarrow> trace_event \<Rightarrow> session
    \<Rightarrow> (string + unit) \<times> session" where
  "session_emit c io ts e s =
     (if ephemeral_event e then (Inr (), s\<lparr>se_live := se_live s @ [trace_record_new ts e None]\<rparr>)
      else session_event c io ts e s)"

text \<open>The emits of a session in the order its writer receives them, with their results.\<close>

fun session_run :: "codec \<Rightarrow> (write_io \<times> string \<times> trace_event) list \<Rightarrow> session
    \<Rightarrow> (string + unit) list \<times> session" where
  "session_run c [] s = ([], s)"
| "session_run c ((io, ts, e) # xs) s =
     (let (res, s') = session_emit c io ts e s; (ress, s'') = session_run c xs s'
      in (res # ress, s''))"

section \<open>Storage provided by the caller\<close>

record sink =
  sk_seq :: u64
  sk_stored :: "trace_record list"
  sk_pending :: "nat list"
  sk_failed :: "string option"
  sk_lost :: bool

definition sink_new :: sink where
  "sink_new = \<lparr>sk_seq = 0, sk_stored = [], sk_pending = [], sk_failed = None, sk_lost = False\<rparr>"

definition latch :: "string \<Rightarrow> sink \<Rightarrow> sink" where
  "latch e s = s\<lparr>sk_failed := (case sk_failed s of None \<Rightarrow> Some e | Some f \<Rightarrow> Some f)\<rparr>"

text \<open>`lost` for every acknowledgement task that was joined with an error.\<close>

definition join_lost :: "sink \<Rightarrow> sink" where
  "join_lost s = (if sk_lost s then (latch ''trace acknowledgement was lost'' s)\<lparr>sk_lost := False\<rparr> else s)"

definition sink_event :: "string \<Rightarrow> trace_event \<Rightarrow> sink \<Rightarrow> string option \<times> sink" where
  "sink_event ts e s0 =
     (let s = join_lost s0 in
      case sk_failed s of
        Some err \<Rightarrow> (Some err, s)
      | None \<Rightarrow> (None, s\<lparr>sk_seq := sk_seq s + 1,
          sk_stored := sk_stored s @ [trace_record_new ts e (Some (sk_seq s))],
          sk_pending := sk_pending s @ [length (sk_stored s)]\<rparr>))"

text \<open>The task of a record ends with the result of its store, or is lost.\<close>

definition sink_ack :: "nat \<Rightarrow> string option \<Rightarrow> sink \<Rightarrow> sink" where
  "sink_ack i res s =
     (let s' = s\<lparr>sk_pending := remove1 i (sk_pending s)\<rparr>
      in case res of None \<Rightarrow> s' | Some e \<Rightarrow> latch e s')"

definition sink_drop :: "nat \<Rightarrow> sink \<Rightarrow> sink" where
  "sink_drop i s = s\<lparr>sk_pending := remove1 i (sk_pending s), sk_lost := True\<rparr>"

text \<open>`Finish` waits for every task; None while one is still running.\<close>

definition sink_finish :: "sink \<Rightarrow> (string + unit) option" where
  "sink_finish s =
     (if sk_pending s \<noteq> [] then None
      else Some (case sk_failed (join_lost s) of None \<Rightarrow> Inr () | Some e \<Rightarrow> Inl e))"

datatype sink_op = SinkEvent string trace_event | SinkAck nat "string option" | SinkDrop nat

fun sink_step :: "sink_op \<Rightarrow> sink \<Rightarrow> sink" where
  "sink_step (SinkEvent ts e) s = snd (sink_event ts e s)"
| "sink_step (SinkAck i r) s = (if i \<in> set (sk_pending s) then sink_ack i r s else s)"
| "sink_step (SinkDrop i) s = (if i \<in> set (sk_pending s) then sink_drop i s else s)"

section \<open>Reading summaries\<close>

text \<open>The lines of a file that end with a line feed, as the reader gets them.\<close>

fun complete_lines :: "string \<Rightarrow> string \<Rightarrow> string list" where
  "complete_lines acc [] = []"
| "complete_lines acc (c # cs) =
     (if c = CHR 0x0A then acc # complete_lines [] cs else complete_lines (acc @ [c]) cs)"

record session_summary =
  ss_id :: string
  ss_start_time :: string
  ss_status :: string
  ss_task_preview :: string

definition or_default :: "string option \<Rightarrow> string \<Rightarrow> string" where
  "or_default x d = (case x of None \<Rightarrow> d | Some s \<Rightarrow> s)"

definition preview_text :: "nat \<Rightarrow> message \<Rightarrow> string" where
  "preview_text n m = concat (take n (utf8_chars (message_text m)))"

definition summary_record :: "(json \<Rightarrow> message option) \<Rightarrow> nat \<Rightarrow> json \<Rightarrow> session_summary
    \<Rightarrow> session_summary option" where
  "summary_record de_message n v s =
     (let kind = as_str (jindex v ''type'') in
      if kind = Some ''session_start'' then
        Some (s\<lparr>ss_start_time := or_default (as_str (jindex v ''ts'')) []\<rparr>)
      else if kind = Some ''session_end'' then
        Some (s\<lparr>ss_status := or_default (as_str (jindex v ''status'')) ''failed''\<rparr>)
      else if kind = Some ''message'' \<and> jindex v ''node'' = jnat 0 \<and> ss_task_preview s = [] then
        (case de_message (jindex v ''message'') of
           None \<Rightarrow> None
         | Some m \<Rightarrow>
             Some (if msg_role m = User then s\<lparr>ss_task_preview := preview_text n m\<rparr> else s))
      else Some s)"

fun summary_lines :: "(string \<Rightarrow> json option) \<Rightarrow> (json \<Rightarrow> message option) \<Rightarrow> nat \<Rightarrow> string list
    \<Rightarrow> session_summary \<Rightarrow> session_summary option" where
  "summary_lines parse de_message n [] s = Some s"
| "summary_lines parse de_message n (l # ls) s = (case parse l of
       None \<Rightarrow> None
     | Some v \<Rightarrow>
         (case summary_record de_message n v s of
            None \<Rightarrow> None
          | Some s' \<Rightarrow> summary_lines parse de_message n ls s'))"

definition fresh_summary :: "string \<Rightarrow> session_summary" where
  "fresh_summary name = \<lparr>ss_id = name, ss_start_time = [], ss_status = ''interrupted'', ss_task_preview = []\<rparr>"

definition read_summary :: "(string \<Rightarrow> json option) \<Rightarrow> (json \<Rightarrow> message option) \<Rightarrow> nat \<Rightarrow> string
    \<Rightarrow> string \<Rightarrow> session_summary option" where
  "read_summary parse de_message n name file =
     summary_lines parse de_message n (complete_lines [] file) (fresh_summary name)"

text \<open>The directory is a list of entries: name, whether it is a directory, and its event file.\<close>

type_synonym dir_entry = "string \<times> bool \<times> string option"

definition list_with_preview :: "(string \<Rightarrow> json option) \<Rightarrow> (json \<Rightarrow> message option)
    \<Rightarrow> dir_entry list option \<Rightarrow> nat \<Rightarrow> session_summary list option" where
  "list_with_preview parse de_message dir n = (case dir of
       None \<Rightarrow> Some []
     | Some es \<Rightarrow>
         (let files = List.map_filter (\<lambda>(name, is_dir, file).
                if is_dir then map_option (Pair name) file else None) es;
              ss = map (\<lambda>(name, file). read_summary parse de_message n name file) files
          in if None \<in> set ss then None
             else Some (rev (sort_key ss_id (rev (map the ss))))))"

definition list_sessions :: "(string \<Rightarrow> json option) \<Rightarrow> (json \<Rightarrow> message option)
    \<Rightarrow> dir_entry list option \<Rightarrow> session_summary list option" where
  "list_sessions parse de_message dir = list_with_preview parse de_message dir SESSION_PREVIEW_CHARS"

end
