(* ===== verification/Session_Props.thy ===== *)
theory Session_Props
  imports Session "HOL-Library.Sublist"
begin

text \<open>
  The properties of the durable trace: what a session file holds after any sequence of events and
  failures, that a truncated file stays readable, and what the sink over caller-provided
  storage promises.
\<close>

section \<open>The session file\<close>

definition durable :: "session \<Rightarrow> trace_record list" where
  "durable s = filter (\<lambda>r. tr_seq r \<noteq> None) (se_live s)"

definition file_lines :: "codec \<Rightarrow> trace_record list \<Rightarrow> string" where
  "file_lines c rs = concat (map (\<lambda>r. record_line c r @ [CHR 0x0A]) rs)"

text \<open>Every durable record finds its large prompt among the blobs, under its digest.\<close>

definition blobs_found :: "codec \<Rightarrow> trace_record list \<Rightarrow> blobs \<Rightarrow> bool" where
  "blobs_found c rs blobs \<longleftrightarrow> (\<forall>r bytes. r \<in> set rs \<longrightarrow> external_prompt c (to_value c r) = Some bytes \<longrightarrow>
     (\<exists>b. blobs (digest c bytes) = Some b \<and> digest c b = digest c bytes))"

definition addressed :: "codec \<Rightarrow> blobs \<Rightarrow> bool" where
  "addressed c blobs \<longleftrightarrow> (\<forall>h b. blobs h = Some b \<longrightarrow> digest c b = h)"

definition session_ok :: "codec \<Rightarrow> session \<Rightarrow> bool" where
  "session_ok c s \<longleftrightarrow>
     map tr_seq (durable s) = map (\<lambda>i. Some (of_nat i)) [0..<length (durable s)]
   \<and> se_seq s = of_nat (length (durable s))
   \<and> (\<exists>tail r. se_file s = file_lines c (durable s) @ tail \<and> prefix tail (record_line c r @ [CHR 0x0A])
        \<and> (se_failed s = None \<longrightarrow> tail = []))
   \<and> blobs_found c (durable s) (se_blobs s)
   \<and> (se_failed s = None \<longrightarrow> addressed c (se_blobs s))"

lemma session_create_ok: "session_ok c session_create"
  by (simp add: session_ok_def session_create_def durable_def file_lines_def blobs_found_def addressed_def)

lemma write_record_Inr:
  assumes "write_record c io r (file, blobs) = (Inr u, file', blobs')" "addressed c blobs"
  shows "file' = file @ record_line c r @ [CHR 0x0A]" "addressed c blobs'" "blobs \<subseteq>\<^sub>m blobs'"
    "external_prompt c (to_value c r) = Some bytes \<Longrightarrow>
       \<exists>b. blobs' (digest c bytes) = Some b \<and> digest c b = digest c bytes"
  using assms
  by (auto simp: write_record_def append_line_def record_line_def write_blob_def addressed_def Let_def
      map_le_def split: option.splits sum.splits prod.splits if_splits blob_io.splits)

lemma append_line_Inl:
  assumes "append_line io l old = (Inl e, new)"
  shows "\<exists>tail. new = old @ tail \<and> prefix tail (l @ [CHR 0x0A])"
proof -
  obtain n where "new = old @ take n (l @ [CHR 0x0A])"
    using assms by (auto simp: append_line_def split: option.splits)
  then show ?thesis using take_is_prefix by blast
qed

lemma write_record_Inl:
  assumes "write_record c io r (file, blobs) = (Inl e, file', blobs')"
  shows "\<exists>tail. file' = file @ tail \<and> prefix tail (record_line c r @ [CHR 0x0A])" "blobs \<subseteq>\<^sub>m blobs'"
proof -
  show "\<exists>tail. file' = file @ tail \<and> prefix tail (record_line c r @ [CHR 0x0A])"
    using assms
    by (auto simp: write_record_def record_line_def Let_def dest!: append_line_Inl
        split: option.splits sum.splits prod.splits)
  show "blobs \<subseteq>\<^sub>m blobs'"
    using assms
    by (auto simp: write_record_def append_line_def write_blob_def Let_def map_le_def
        split: option.splits sum.splits prod.splits if_splits blob_io.splits)
qed

lemma blobs_found_mono: "blobs_found c rs blobs \<Longrightarrow> blobs \<subseteq>\<^sub>m blobs' \<Longrightarrow> blobs_found c rs blobs'"
  unfolding blobs_found_def map_le_def by (metis domI)

lemma session_event_failed:
  "se_failed s = Some e \<Longrightarrow> session_event c io ts ev s = (Inl e, s)"
  by (simp add: session_event_def Let_def)

lemma session_event_Inr:
  assumes "session_event c io ts ev s = (Inr u, s')" "session_ok c s"
  shows "session_ok c s'" "se_failed s' = None" "se_failed s = None"
    "durable s' = durable s @ [trace_record_new ts ev (Some (se_seq s))]"
proof -
  let ?r = "trace_record_new ts ev (Some (se_seq s))"
  show f: "se_failed s = None"
    using assms(1) by (cases "se_failed s") (simp_all add: session_event_failed)
  obtain fl blobs where w: "write_record c io ?r (se_file s, se_blobs s) = (Inr (), fl, blobs)"
    and s': "s' = s\<lparr>se_file := fl, se_blobs := blobs, se_seq := se_seq s + 1, se_live := se_live s @ [?r]\<rparr>"
    using assms(1) f by (auto simp: session_event_def Let_def split: sum.splits prod.splits)
  have a: "addressed c (se_blobs s)" using assms(2) f by (simp add: session_ok_def)
  note wr = write_record_Inr [OF w a]
  show "se_failed s' = None" using f s' by simp
  show d: "durable s' = durable s @ [?r]" by (simp add: durable_def s' trace_record_new_def)
  have "se_file s = file_lines c (durable s)" using assms(2) f by (auto simp: session_ok_def)
  then have "se_file s' = file_lines c (durable s')" using wr(1) d by (simp add: s' file_lines_def)
  moreover have "blobs_found c (durable s') (se_blobs s')"
    using blobs_found_mono [OF _ wr(3), of c "durable s"] assms(2) wr(4)
    unfolding d by (auto simp: session_ok_def blobs_found_def s')
  moreover have "map tr_seq (durable s') = map (\<lambda>i. Some (of_nat i)) [0..<length (durable s')]"
    using assms(2) by (simp add: d session_ok_def trace_record_new_def)
  ultimately show "session_ok c s'"
    using assms(2) wr(2) d by (auto simp: session_ok_def s')
qed

lemma session_event_Inl:
  assumes "session_event c io ts ev s = (Inl e, s')" "session_ok c s"
  shows "session_ok c s'" "se_failed s' = Some e" "durable s' = durable s"
proof -
  let ?r = "trace_record_new ts ev (Some (se_seq s))"
  have "session_ok c s' \<and> se_failed s' = Some e \<and> durable s' = durable s"
  proof (cases "se_failed s")
    case (Some err)
    then show ?thesis using assms by (simp add: session_event_failed)
  next
    case None
    then obtain fl blobs where w: "write_record c io ?r (se_file s, se_blobs s) = (Inl e, fl, blobs)"
      and s': "s' = s\<lparr>se_file := fl, se_blobs := blobs, se_failed := Some e\<rparr>"
      using assms(1) by (auto simp: session_event_def Let_def split: sum.splits prod.splits)
    have d: "durable s' = durable s" by (simp add: durable_def s')
    have "se_file s = file_lines c (durable s)" using assms(2) None by (auto simp: session_ok_def)
    then have "\<exists>tail. se_file s' = file_lines c (durable s') @ tail \<and> prefix tail (record_line c ?r @ [CHR 0x0A])"
      using write_record_Inl(1) [OF w] d by (auto simp: s')
    moreover have "blobs_found c (durable s') (se_blobs s')"
      using blobs_found_mono [OF _ write_record_Inl(2) [OF w]] assms(2) d by (simp add: session_ok_def s')
    ultimately show ?thesis using assms(2) d unfolding session_ok_def by (auto simp: s')
  qed
  then show "session_ok c s'" "se_failed s' = Some e" "durable s' = durable s" by simp_all
qed

lemma session_emit_ephemeral:
  assumes "ephemeral_event ev" "session_emit c io ts ev s = (res, s')"
  shows "durable s' = durable s" "se_failed s' = se_failed s" "session_ok c s' = session_ok c s" "res = Inr ()"
proof -
  have s': "s' = s\<lparr>se_live := se_live s @ [trace_record_new ts ev None]\<rparr>" "res = Inr ()"
    using assms by (simp_all add: session_emit_def)
  then show d: "durable s' = durable s" by (simp add: durable_def trace_record_new_def)
  show "session_ok c s' = session_ok c s" unfolding session_ok_def d by (simp add: s')
qed (use assms in \<open>auto simp: session_emit_def\<close>)

text \<open>The events a session is asked to persist, and the results of their emits.\<close>

definition persistent :: "(write_io \<times> string \<times> trace_event) list \<Rightarrow> trace_event list" where
  "persistent xs = filter (\<lambda>e. \<not> ephemeral_event e) (map (\<lambda>(_, _, e). e) xs)"

definition results :: "(write_io \<times> string \<times> trace_event) list \<Rightarrow> (string + unit) list \<Rightarrow> (string + unit) list" where
  "results xs ress = map snd (filter (\<lambda>((_, _, e), _). \<not> ephemeral_event e) (zip xs ress))"

lemma session_run_spec:
  assumes "session_run c xs s = (ress, s')" "session_ok c s"
  shows "session_ok c s' \<and> (\<exists>k. map tr_event (durable s') = map tr_event (durable s) @ take k (persistent xs)
     \<and> k \<le> length (persistent xs)
     \<and> (case se_failed s' of None \<Rightarrow> k = length (persistent xs) \<and> results xs ress = replicate k (Inr ())
          | Some e \<Rightarrow> results xs ress = replicate k (Inr ()) @ replicate (length (persistent xs) - k) (Inl e)))
    \<and> (\<forall>e. se_failed s = Some e \<longrightarrow> se_failed s' = Some e \<and> durable s' = durable s)"
  using assms
proof (induction xs arbitrary: s ress)
  case Nil
  then show ?case by (auto simp: persistent_def results_def split: option.splits)
next
  case (Cons x xs)
  obtain io ts ev where x: "x = (io, ts, ev)" by (cases x)
  obtain res s1 where e1: "session_emit c io ts ev s = (res, s1)" by fastforce
  obtain ress' where r: "session_run c xs s1 = (ress', s')" "ress = res # ress'"
    using Cons.prems(1) by (auto simp: x e1 split: prod.splits)
  show ?case
  proof (cases "ephemeral_event ev")
    case True
    note ep = session_emit_ephemeral [OF True e1]
    have p: "persistent (x # xs) = persistent xs" "results (x # xs) ress = results xs ress'"
      using True by (simp_all add: x r(2) persistent_def results_def)
    show ?thesis using Cons.IH [OF r(1)] Cons.prems(2) ep(1,2,3) unfolding p by simp
  next
    case False
    then have ev: "session_event c io ts ev s = (res, s1)" using e1 by (simp add: session_emit_def)
    have p: "persistent (x # xs) = ev # persistent xs" "results (x # xs) ress = res # results xs ress'"
      using False by (simp_all add: x r(2) persistent_def results_def)
    show ?thesis
    proof (cases res)
      case (Inr u)
      note st = session_event_Inr [OF ev [unfolded Inr] Cons.prems(2)]
      obtain k where k: "map tr_event (durable s') = map tr_event (durable s1) @ take k (persistent xs)"
        "k \<le> length (persistent xs)"
        "case se_failed s' of None \<Rightarrow> k = length (persistent xs) \<and> results xs ress' = replicate k (Inr ())
          | Some e \<Rightarrow> results xs ress' = replicate k (Inr ()) @ replicate (length (persistent xs) - k) (Inl e)"
        and ok: "session_ok c s'"
        using Cons.IH [OF r(1) st(1)] by blast
      have "map tr_event (durable s') = map tr_event (durable s) @ take (Suc k) (ev # persistent xs)"
        using k(1) by (simp add: st(4) trace_record_new_def)
      then show ?thesis
        using ok k(2,3) st(3) unfolding p Inr by (intro conjI exI [of _ "Suc k"]) (auto split: option.splits)
    next
      case (Inl e)
      note st = session_event_Inl [OF ev [unfolded Inl] Cons.prems(2)]
      obtain k where ok: "session_ok c s'" "se_failed s' = Some e" "durable s' = durable s1"
        and k: "map tr_event (durable s') = map tr_event (durable s1) @ take k (persistent xs)"
          "k \<le> length (persistent xs)"
          "results xs ress' = replicate k (Inr ()) @ replicate (length (persistent xs) - k) (Inl e)"
        using Cons.IH [OF r(1) st(1)] st(2) by force
      then have "k = 0" using k(1,2) by (cases "persistent xs") auto
      moreover have "se_failed s = Some e0 \<Longrightarrow> e0 = e" for e0 using ev Inl by (simp add: session_event_failed)
      ultimately show ?thesis
        using ok k(3) st(3) unfolding p Inl by (intro conjI exI [of _ 0]) auto
    qed
  qed
qed

text \<open>
  C24. Whatever events are emitted and whichever writes fail, the session file holds exactly the
  acknowledged events, in order, numbered from zero without a gap, followed by at most a part of
  one further record; the acknowledged events are a prefix of the persistent ones, every later
  emit fails with the first error, and the large prompt of every acknowledged record is found
  among the blobs under its digest.
\<close>
theorem session_file_is_acknowledged_prefix:
  assumes "session_run c xs session_create = (ress, s)"
  shows "\<exists>k tail r. map tr_event (durable s) = take k (persistent xs)
    \<and> map tr_seq (durable s) = map (\<lambda>i. Some (of_nat i)) [0..<length (durable s)]
    \<and> se_file s = file_lines c (durable s) @ tail \<and> prefix tail (record_line c r @ [CHR 0x0A])
    \<and> blobs_found c (durable s) (se_blobs s)
    \<and> (case se_failed s of
         None \<Rightarrow> k = length (persistent xs) \<and> tail = [] \<and> results xs ress = replicate k (Inr ())
       | Some e \<Rightarrow> results xs ress = replicate k (Inr ()) @ replicate (length (persistent xs) - k) (Inl e))"
proof -
  have d: "durable session_create = []" by (simp add: durable_def session_create_def)
  note sp = session_run_spec [OF assms session_create_ok, unfolded d]
  then obtain k where k: "map tr_event (durable s) = take k (persistent xs)"
    "case se_failed s of None \<Rightarrow> k = length (persistent xs) \<and> results xs ress = replicate k (Inr ())
      | Some e \<Rightarrow> results xs ress = replicate k (Inr ()) @ replicate (length (persistent xs) - k) (Inl e)"
    by auto
  from sp have "session_ok c s" by blast
  then obtain tail r where t: "se_file s = file_lines c (durable s) @ tail"
    "prefix tail (record_line c r @ [CHR 0x0A])" "se_failed s = None \<longrightarrow> tail = []"
    "blobs_found c (durable s) (se_blobs s)"
    "map tr_seq (durable s) = map (\<lambda>i. Some (of_nat i)) [0..<length (durable s)]"
    unfolding session_ok_def by (elim conjE exE) (rule that)
  show ?thesis
    using k t by (intro exI [of _ k] exI [of _ tail] exI [of _ r]) (auto split: option.splits)
qed
section \<open>Truncated files\<close>

lemma complete_lines_append:
  "prefix (complete_lines acc xs) (complete_lines acc (xs @ ys))"
  by (induction acc xs rule: complete_lines.induct) simp_all

lemma complete_lines_line:
  "CHR 0x0A \<notin> set l \<Longrightarrow> complete_lines acc (l @ CHR 0x0A # rest) = (acc @ l) # complete_lines [] rest"
  by (induction l arbitrary: acc) auto

lemma complete_lines_part: "CHR 0x0A \<notin> set l \<Longrightarrow> complete_lines acc l = []"
  by (induction l arbitrary: acc) auto

lemma complete_lines_file:
  assumes "\<And>v. CHR 0x0A \<notin> set (to_vec c v)"
  shows "complete_lines [] (file_lines c rs @ rest) = map (record_line c) rs @ complete_lines [] rest"
proof (induction rs)
  case (Cons r rs)
  have "CHR 0x0A \<notin> set (record_line c r)" by (simp add: record_line_def assms)
  from complete_lines_line [OF this] show ?case using Cons by (simp add: file_lines_def)
qed (simp add: file_lines_def)

lemma summary_lines_prefix:
  "prefix ls ls' \<Longrightarrow> summary_lines parse de n ls' s \<noteq> None \<Longrightarrow> summary_lines parse de n ls s \<noteq> None"
proof (induction ls arbitrary: ls' s)
  case (Cons l ls)
  then obtain ms where "ls' = l # ms" "prefix ls ms" by (auto simp: prefix_def)
  then show ?case using Cons.IH Cons.prems(2) by (fastforce split: option.splits)
qed simp

text \<open>The emits of persistent events, and the record that the first failing one of them wrote.\<close>

definition persistent_emits :: "(write_io \<times> string \<times> trace_event) list \<Rightarrow> (write_io \<times> string \<times> trace_event) list" where
  "persistent_emits xs = filter (\<lambda>(_, _, e). \<not> ephemeral_event e) xs"

definition refused_record :: "(write_io \<times> string \<times> trace_event) list \<Rightarrow> nat \<Rightarrow> nat \<Rightarrow> trace_record" where
  "refused_record xs j n = (case persistent_emits xs ! j of (io, ts, ev) \<Rightarrow>
     trace_record_new ts ev (Some (of_nat n)))"

lemma persistent_emits_length: "length (persistent_emits xs) = length (persistent xs)"
  unfolding persistent_emits_def persistent_def by (induction xs) auto

lemma session_run_failed:
  "se_failed s = Some e \<Longrightarrow> session_run c xs s = (ress, s') \<Longrightarrow>
   se_file s' = se_file s \<and> durable s' = durable s \<and> se_failed s' = Some e"
proof (induction xs arbitrary: s ress)
  case (Cons x xs)
  obtain io ts ev where x: "x = (io, ts, ev)" by (cases x)
  obtain res s1 where e1: "session_emit c io ts ev s = (res, s1)" by fastforce
  obtain ress' where r: "session_run c xs s1 = (ress', s')"
    using Cons.prems(2) by (auto simp: x e1 split: prod.splits)
  have "se_file s1 = se_file s \<and> durable s1 = durable s \<and> se_failed s1 = Some e"
    using e1 Cons.prems(1)
    by (cases "ephemeral_event ev") (auto simp: session_emit_def session_event_failed durable_def trace_record_new_def)
  then show ?case using Cons.IH [OF _ r] by simp
qed simp

text \<open>What stands in the file behind the acknowledged records is part of the record of the first
  emit that failed.\<close>

lemma session_run_tail:
  assumes "session_run c xs s = (ress, s')" "session_ok c s" "se_failed s = None"
  shows "\<exists>tail. se_file s' = file_lines c (durable s') @ tail \<and> (se_failed s' = None \<longrightarrow> tail = [])
    \<and> (se_failed s' \<noteq> None \<longrightarrow> (\<exists>j < length (persistent_emits xs). length (durable s') = length (durable s) + j
         \<and> prefix tail (record_line c (refused_record xs j (length (durable s'))) @ [CHR 0x0A])))"
  using assms
proof (induction xs arbitrary: s ress)
  case Nil
  then show ?case by (auto simp: session_ok_def)
next
  case (Cons x xs)
  obtain io ts ev where x: "x = (io, ts, ev)" by (cases x)
  obtain res s1 where e1: "session_emit c io ts ev s = (res, s1)" by fastforce
  obtain ress' where r: "session_run c xs s1 = (ress', s')"
    using Cons.prems(1) by (auto simp: x e1 split: prod.splits)
  show ?case
  proof (cases "ephemeral_event ev")
    case True
    note ep = session_emit_ephemeral [OF True e1]
    have "persistent_emits (x # xs) = persistent_emits xs" using True by (simp add: x persistent_emits_def)
    then show ?thesis using Cons.IH [OF r] Cons.prems(2,3) ep(1,2,3) by (simp add: refused_record_def)
  next
    case False
    then have ev: "session_event c io ts ev s = (res, s1)" using e1 by (simp add: session_emit_def)
    have p: "persistent_emits (x # xs) = x # persistent_emits xs" using False by (simp add: x persistent_emits_def)
    then have shift: "refused_record (x # xs) (Suc j) n = refused_record xs j n" for j n
      by (simp add: refused_record_def)
    show ?thesis
    proof (cases res)
      case (Inr u)
      note st = session_event_Inr [OF ev [unfolded Inr] Cons.prems(2)]
      have "length (durable s1) = Suc (length (durable s))" by (simp add: st(4))
      then show ?thesis using Cons.IH [OF r st(1,2)] p shift by (metis Suc_less_eq add_Suc_shift length_Cons)
    next
      case (Inl e)
      note st = session_event_Inl [OF ev [unfolded Inl] Cons.prems(2)]
      note rest = session_run_failed [OF st(2) r]
      let ?r = "trace_record_new ts ev (Some (se_seq s))"
      have seq: "se_seq s = of_nat (length (durable s))" and whole: "se_file s = file_lines c (durable s)"
        using Cons.prems(2,3) by (auto simp: session_ok_def)
      obtain fl blobs where "write_record c io ?r (se_file s, se_blobs s) = (Inl e, fl, blobs)" "se_file s1 = fl"
        using ev Inl Cons.prems(3) by (auto simp: session_event_def Let_def split: sum.splits prod.splits)
      from write_record_Inl(1) [OF this(1)] this(2) obtain tail where
        "se_file s1 = se_file s @ tail" "prefix tail (record_line c ?r @ [CHR 0x0A])" by blast
      moreover have "refused_record (x # xs) 0 (length (durable s)) = ?r"
        unfolding refused_record_def p by (simp add: x seq)
      ultimately show ?thesis using rest st(3) whole p
        by (intro exI [of _ tail]) (auto intro!: exI [of _ 0])
    qed
  qed
qed

text \<open>
  C25. A crash leaves a readable session: after any run, cutting the session file at any byte gives
  back the lines of a prefix of the acknowledged records, or, when a write failed after all of its
  bytes were in the file, of all acknowledged records and the one record of that write, which is
  the first persistent event that was refused, under the next number.  If the summary of the whole
  file can be read so can the summary of the cut one.  The serializer is assumed not to print a
  raw line feed.
\<close>
theorem truncated_session_readable:
  assumes "session_run c xs session_create = (ress, s)" "\<And>v. CHR 0x0A \<notin> set (to_vec c v)"
  shows "((\<exists>k. complete_lines [] (take n (se_file s)) = map (record_line c) (take k (durable s)))
        \<or> (\<exists>e j. se_failed s = Some e \<and> j = length (durable s) \<and> j < length (persistent_emits xs)
             \<and> results xs ress ! j = Inl e
             \<and> complete_lines [] (take n (se_file s)) = map (record_line c) (durable s @ [refused_record xs j j])))
    \<and> (read_summary parse de m name (se_file s) \<noteq> None
        \<longrightarrow> read_summary parse de m name (take n (se_file s)) \<noteq> None)"
proof
  let ?cut = "complete_lines [] (take n (se_file s))" and ?j = "length (durable s)"
  let ?r = "refused_record xs ?j ?j"
  have pre: "prefix ?cut (complete_lines [] (se_file s))"
    using complete_lines_append [of "[]" "take n (se_file s)" "drop n (se_file s)"] by simp
  have none: "se_failed session_create = None" "durable session_create = []"
    by (simp_all add: session_create_def durable_def)
  obtain tail where t: "se_file s = file_lines c (durable s) @ tail" "se_failed s = None \<longrightarrow> tail = []"
    "se_failed s \<noteq> None \<longrightarrow> ?j < length (persistent_emits xs) \<and> prefix tail (record_line c ?r @ [CHR 0x0A])"
    using session_run_tail [OF assms(1) session_create_ok none(1)] none(2) by auto
  have nl: "CHR 0x0A \<notin> set (record_line c ?r)" by (simp add: record_line_def assms(2))
  have f: "complete_lines [] (se_file s) = map (record_line c) (durable s) @ complete_lines [] tail"
    using complete_lines_file [OF assms(2)] t(1) by simp
  have "complete_lines [] tail = [] \<or> (tail \<noteq> [] \<and> complete_lines [] tail = [record_line c ?r])"
  proof (cases "tail = record_line c ?r @ [CHR 0x0A]")
    case True
    then show ?thesis using complete_lines_line [OF nl, of "[]" "[]"] by simp
  next
    case False
    then have "prefix tail (record_line c ?r)" using t(2,3) by (cases "tail = []") auto
    then have "CHR 0x0A \<notin> set tail" using nl by (auto dest: set_mono_prefix)
    then show ?thesis by (simp add: complete_lines_part)
  qed
  then consider "prefix ?cut (map (record_line c) (durable s))"
    | "tail \<noteq> []" "?cut = map (record_line c) (durable s) @ [record_line c ?r]"
    using pre f by fastforce
  then show "(\<exists>k. ?cut = map (record_line c) (take k (durable s)))
      \<or> (\<exists>e j. se_failed s = Some e \<and> j = ?j \<and> j < length (persistent_emits xs)
           \<and> results xs ress ! j = Inl e \<and> ?cut = map (record_line c) (durable s @ [refused_record xs j j]))"
  proof cases
    case 1
    then have "?cut = take (length ?cut) (map (record_line c) (durable s))"
      by (metis append_eq_conv_conj prefix_def)
    then show ?thesis by (metis take_map)
  next
    case 2
    then obtain e where e: "se_failed s = Some e" using t(2) by blast
    then have j: "?j < length (persistent_emits xs)" using t(3) by simp
    obtain k where k: "map tr_event (durable s) = take k (persistent xs)" "k \<le> length (persistent xs)"
      "results xs ress = replicate k (Inr ()) @ replicate (length (persistent xs) - k) (Inl e)"
      using session_run_spec [OF assms(1) session_create_ok] e none(2) by auto
    have "k = ?j" using k(1,2) by (metis length_map length_take min.absorb2)
    then have "results xs ress ! ?j = Inl e"
      using k(3) j by (simp add: nth_append persistent_emits_length)
    then show ?thesis using e j 2(2) by auto
  qed
  show "read_summary parse de m name (se_file s) \<noteq> None
      \<longrightarrow> read_summary parse de m name (take n (se_file s)) \<noteq> None"
    unfolding read_summary_def using summary_lines_prefix [OF pre] by blast
qed

section \<open>The sink over provided storage\<close>

abbreviation sink_run :: "sink_op list \<Rightarrow> sink \<Rightarrow> sink" where
  "sink_run ops s \<equiv> fold sink_step ops s"

text \<open>After some operations: the stored records are numbered without a gap, and each of them is
  still pending or was confirmed, unless a failure was latched or an acknowledgement was lost.\<close>

definition sink_ok :: "sink_op list \<Rightarrow> sink \<Rightarrow> bool" where
  "sink_ok ops s \<longleftrightarrow>
     map tr_seq (sk_stored s) = map (\<lambda>i. Some (of_nat i)) [0..<length (sk_stored s)]
   \<and> sk_seq s = of_nat (length (sk_stored s))
   \<and> (sk_failed s = None \<longrightarrow> \<not> sk_lost s \<longrightarrow>
        (\<forall>i < length (sk_stored s). i \<in> set (sk_pending s) \<or> SinkAck i None \<in> set ops))"

lemma join_lost_simps [simp]:
  "sk_stored (join_lost s) = sk_stored s" "sk_seq (join_lost s) = sk_seq s"
  "sk_pending (join_lost s) = sk_pending s" "\<not> sk_lost (join_lost s)"
  by (simp_all add: join_lost_def latch_def)

lemma join_lost_None: "sk_failed (join_lost s) = None \<longleftrightarrow> sk_failed s = None \<and> \<not> sk_lost s"
  by (simp add: join_lost_def latch_def split: option.splits)

lemma join_lost_Some: "sk_failed s = Some e \<Longrightarrow> sk_failed (join_lost s) = Some e"
  by (simp add: join_lost_def latch_def)

lemma in_set_remove1_other: "i \<notin> set (remove1 j xs) \<Longrightarrow> i \<in> set xs \<Longrightarrow> i = j"
  by (metis in_set_remove1)

lemma sink_ok_step:
  assumes "sink_ok ops s"
  shows "sink_ok (ops @ [x]) (sink_step x s)"
proof (cases x)
  case (SinkEvent ts e)
  then show ?thesis
    using assms join_lost_None [of s]
    by (auto simp: sink_ok_def sink_event_def trace_record_new_def Let_def less_Suc_eq split: option.splits)
next
  case (SinkAck i r)
  then show ?thesis
    using assms by (cases r) (auto simp: sink_ok_def sink_ack_def latch_def Let_def
        dest: in_set_remove1_other split: option.splits)
next
  case (SinkDrop i)
  then show ?thesis using assms by (auto simp: sink_ok_def sink_drop_def)
qed

lemma sink_ok_run: "sink_ok ops s \<Longrightarrow> sink_ok (ops @ ops') (sink_run ops' s)"
proof (induction ops' arbitrary: ops s)
  case (Cons x ops')
  then show ?case using sink_ok_step [of ops s x] by fastforce
qed simp

lemma sink_failed_run:
  assumes "sk_failed s = Some e"
  shows "sk_failed (sink_run ops s) = Some e \<and> sk_stored (sink_run ops s) = sk_stored s"
  using assms
proof (induction ops arbitrary: s)
  case (Cons x ops)
  have "sk_failed (sink_step x s) = Some e \<and> sk_stored (sink_step x s) = sk_stored s"
  proof (cases x)
    case (SinkEvent ts ev)
    then show ?thesis using join_lost_Some [OF Cons.prems] by (simp add: sink_event_def Let_def)
  next
    case (SinkAck i r)
    then show ?thesis using Cons.prems by (cases r) (simp_all add: sink_ack_def latch_def Let_def)
  qed (use Cons.prems in \<open>simp add: sink_drop_def\<close>)
  then show ?case using Cons.IH [of "sink_step x s"] by simp
qed simp

text \<open>
  C26. A sink over provided storage hands over records numbered from zero without a gap.  Once an
  acknowledgement has failed nothing else is ever stored, every later event and the finish get
  that first error; and a finish that succeeds means that no acknowledgement is outstanding and
  every record handed over was confirmed.
\<close>
theorem sink_latches_first_failure:
  "map tr_seq (sk_stored (sink_run ops sink_new))
      = map (\<lambda>i. Some (of_nat i)) [0..<length (sk_stored (sink_run ops sink_new))]
    \<and> (sk_failed (sink_run ops sink_new) = Some e \<longrightarrow>
         sk_stored (sink_run (ops @ ops') sink_new) = sk_stored (sink_run ops sink_new)
         \<and> fst (sink_event ts ev (sink_run (ops @ ops') sink_new)) = Some e
         \<and> sink_finish (sink_run (ops @ ops') sink_new) \<in> {None, Some (Inl e)})
    \<and> (sink_finish (sink_run ops sink_new) = Some (Inr ()) \<longrightarrow>
         (\<forall>i < length (sk_stored (sink_run ops sink_new)). SinkAck i None \<in> set ops))"
proof -
  have "sink_ok [] sink_new" by (simp add: sink_ok_def sink_new_def)
  from sink_ok_run [OF this, of ops] have ok: "sink_ok ops (sink_run ops sink_new)" by simp
  let ?s = "sink_run ops sink_new"
  have "sk_stored (sink_run (ops @ ops') sink_new) = sk_stored ?s
      \<and> fst (sink_event ts ev (sink_run (ops @ ops') sink_new)) = Some e
      \<and> sink_finish (sink_run (ops @ ops') sink_new) \<in> {None, Some (Inl e)}" if f: "sk_failed ?s = Some e"
  proof -
    note l = sink_failed_run [OF f, of ops']
    then have "sk_failed (join_lost (sink_run ops' ?s)) = Some e" by (simp add: join_lost_Some)
    then show ?thesis using l by (simp add: sink_event_def sink_finish_def Let_def)
  qed
  moreover have "\<forall>i < length (sk_stored ?s). SinkAck i None \<in> set ops" if "sink_finish ?s = Some (Inr ())"
  proof -
    have "sk_pending ?s = []" "sk_failed (join_lost ?s) = None"
      using that by (auto simp: sink_finish_def split: if_splits option.splits)
    then show ?thesis using ok by (simp add: sink_ok_def join_lost_None)
  qed
  ultimately show ?thesis using ok unfolding sink_ok_def by blast
qed

section \<open>Samples\<close>

definition sample_codec :: codec where
  "sample_codec = \<lparr>to_value = \<lambda>r. JNull, to_vec = \<lambda>v. ''x'', digest = id\<rparr>"

definition good_io :: write_io where
  "good_io = \<lparr>wi_dir = None, wi_open = None, wi_blob = BlobDone, wi_line = None\<rparr>"

definition sample_emits :: "(write_io \<times> string \<times> trace_event) list" where
  "sample_emits = [(good_io, [], SessionEnd Completed), (good_io, [], StreamReset 0),
     (good_io\<lparr>wi_line := Some (''disk full'', 1)\<rparr>, [], ErrorEvent 0 []), (good_io, [], SessionEnd Failed)]"

lemma sample_session_run:
  "fst (session_run sample_codec sample_emits session_create)
     = [Inr (), Inr (), Inl ''disk full'', Inl ''disk full'']
   \<and> se_file (snd (session_run sample_codec sample_emits session_create)) = ''x'' @ [CHR 0x0A] @ ''x''
   \<and> map tr_event (durable (snd (session_run sample_codec sample_emits session_create))) = [SessionEnd Completed]"
  by (simp add: sample_emits_def sample_codec_def good_io_def session_create_def session_emit_def
      session_event_def write_record_def external_prompt_def stored_value_def append_line_def
      trace_record_new_def durable_def Let_def)

theorem session_file_is_acknowledged_prefix_witness:
  "\<exists>k. map tr_event (durable (snd (session_run sample_codec sample_emits session_create)))
     = take k (persistent sample_emits)"
  using session_file_is_acknowledged_prefix [of sample_codec sample_emits] by (metis prod.collapse)

theorem truncated_session_readable_witness:
  "read_summary (\<lambda>_. Some JNull) (\<lambda>_. None) 3 ''s'' (take 2 (''x'' @ [CHR 0x0A] @ ''x'')) \<noteq> None"
proof -
  let ?s = "snd (session_run sample_codec sample_emits session_create)"
  have r: "session_run sample_codec sample_emits session_create
      = (fst (session_run sample_codec sample_emits session_create), ?s)" by simp
  have f: "se_file ?s = ''x'' @ [CHR 0x0A] @ ''x''" using sample_session_run by blast
  have nl: "\<And>v. CHR 0x0A \<notin> set (to_vec sample_codec v)" by (simp add: sample_codec_def)
  have "read_summary (\<lambda>_. Some JNull) (\<lambda>_. None) 3 ''s'' (se_file ?s) \<noteq> None"
    unfolding f by (simp add: read_summary_def summary_record_def jindex_def)
  then show ?thesis
    using truncated_session_readable [OF r nl, where n = 2 and m = 3 and name = "''s''"] f by metis
qed

theorem sink_latches_first_failure_witness:
  "sink_finish (sink_run [SinkEvent [] (SessionEnd Failed), SinkAck 0 (Some ''full''), SinkEvent [] (ErrorEvent 0 [])]
     sink_new) \<in> {None, Some (Inl ''full'')}"
proof -
  have "sk_failed (sink_run [SinkEvent [] (SessionEnd Failed), SinkAck 0 (Some ''full'')] sink_new) = Some ''full''"
    by (simp add: sink_new_def sink_event_def sink_ack_def join_lost_def latch_def Let_def)
  then show ?thesis
    using sink_latches_first_failure [of "[SinkEvent [] (SessionEnd Failed), SinkAck 0 (Some ''full'')]"
        "''full''" "[SinkEvent [] (ErrorEvent 0 [])]"] by auto
qed

end
