(* ===== verification/Trace_Tree.thy ===== *)
theory Trace_Tree
  imports Trace
begin

text \<open>
  Lemmas on the reconstruction: the climb to the root detects exactly the cycles, and the
  recursive construction from a well-founded map of nodes never misses a node, removes exactly
  the descendants of the nodes it starts from and builds a tree of them.
\<close>

section \<open>Ancestry\<close>

definition edge :: "nodes \<Rightarrow> (node_id \<times> node_id) set" where
  "edge nodes = {(p, c). parent_of nodes c = Some (Some p)}"

abbreviation keys :: "nodes \<Rightarrow> node_id set" where
  "keys nodes \<equiv> set (map fst nodes)"

definition closed :: "nodes \<Rightarrow> bool" where
  "closed nodes \<longleftrightarrow> (\<forall>(p, c) \<in> edge nodes. p \<in> keys nodes)"

lemma parent_of_None [simp]: "parent_of nodes n = None \<longleftrightarrow> n \<notin> keys nodes"
  by (simp add: parent_of_def map_of_eq_None_iff)

lemma edge_iff [simp]: "(p, c) \<in> edge nodes \<longleftrightarrow> parent_of nodes c = Some (Some p)"
  by (simp add: edge_def)

lemma closedD: "closed nodes \<Longrightarrow> parent_of nodes c = Some (Some p) \<Longrightarrow> p \<in> keys nodes"
  by (fastforce simp: closed_def)

lemma edge_keys: "parent_of nodes c = Some q \<Longrightarrow> c \<in> keys nodes"
  by (metis option.distinct(1) parent_of_None)

lemma climb_total:
  assumes "closed nodes" "case n of None \<Rightarrow> True | Some m \<Rightarrow> m \<in> keys nodes"
  shows "climb nodes seen n \<noteq> None"
  using assms
proof (induction nodes seen n rule: climb.induct)
  case (2 nodes seen n)
  show ?case
  proof (cases "parent_of nodes n")
    case None
    then show ?thesis using 2 by simp
  next
    case (Some p)
    then have "case p of None \<Rightarrow> True | Some m \<Rightarrow> m \<in> keys nodes"
      using 2(2) by (auto dest: closedD split: option.splits)
    then show ?thesis using 2(1) [OF _ Some] 2(2) Some by auto
  qed
qed simp

lemma climb_acc: "climb nodes seen (Some n) = Some None \<Longrightarrow> n \<in> Wellfounded.acc (edge nodes)"
proof (induction nodes seen "Some n" arbitrary: n rule: climb.induct)
  case (2 nodes seen n)
  then obtain p where p: "parent_of nodes n = Some p" "n \<notin> seen"
    "climb nodes (insert n seen) p = Some None"
    by (auto split: if_splits option.splits simp del: parent_of_None)
  show ?case
  proof (rule accI)
    fix q assume "(q, n) \<in> edge nodes"
    then have "p = Some q" using p(1) by simp
    then show "q \<in> Wellfounded.acc (edge nodes)" using 2(1) [of q] p by simp
  qed
qed

lemma climb_cycle:
  assumes "climb nodes seen (Some n) = Some (Some c)" "\<forall>s \<in> seen. (n, s) \<in> (edge nodes)\<^sup>+"
  shows "(c, c) \<in> (edge nodes)\<^sup>+"
  using assms
proof (induction nodes seen "Some n" arbitrary: n rule: climb.induct)
  case (2 nodes seen n)
  show ?case
  proof (cases "n \<in> seen")
    case False
    then obtain p where p: "parent_of nodes n = Some p" "climb nodes (insert n seen) p = Some (Some c)"
      using 2(2) by (auto split: option.splits simp del: parent_of_None)
    then obtain q where q: "p = Some q" by (cases p) auto
    then have e: "(q, n) \<in> edge nodes" using p(1) by simp
    then have "\<forall>s \<in> insert n seen. (q, s) \<in> (edge nodes)\<^sup>+"
      using 2(3) by (auto simp del: edge_iff intro: trancl_into_trancl2)
    then show ?thesis using 2(1) [of q] False p q by simp
  qed (use 2 in auto)
qed

lemma wf_edge_cycle: "wf (edge nodes) \<Longrightarrow> (c, c) \<notin> (edge nodes)\<^sup>+"
  using wf_acyclic by (auto simp: acyclic_def)

lemma find_cycle_None:
  assumes "closed nodes" "set ns \<subseteq> keys nodes"
  shows "find_cycle nodes ns \<noteq> None"
    and "find_cycle nodes ns = Some None \<Longrightarrow> set ns \<subseteq> Wellfounded.acc (edge nodes)"
    and "find_cycle nodes ns = Some (Some c) \<Longrightarrow> (c, c) \<in> (edge nodes)\<^sup>+"
proof -
  have t: "climb nodes {} (Some n) \<noteq> None" if "n \<in> keys nodes" for n
    using climb_total [OF assms(1), of "Some n"] that by (simp del: climb.simps)
  show "find_cycle nodes ns \<noteq> None"
    using assms(2) t by (induction ns) (auto simp del: climb.simps split: option.splits)
  show "find_cycle nodes ns = Some None \<Longrightarrow> set ns \<subseteq> Wellfounded.acc (edge nodes)"
    by (induction ns) (auto simp del: climb.simps split: option.splits dest: climb_acc)
  show "find_cycle nodes ns = Some (Some c) \<Longrightarrow> (c, c) \<in> (edge nodes)\<^sup>+"
    by (induction ns) (auto simp del: climb.simps split: option.splits dest: climb_cycle)
qed

lemma find_cycle_wf:
  assumes "closed nodes"
  shows "find_cycle nodes (map fst nodes) = Some None \<longleftrightarrow> wf (edge nodes)"
proof
  assume "find_cycle nodes (map fst nodes) = Some None"
  from find_cycle_None(2) [OF assms order_refl this] have k: "keys nodes \<subseteq> Wellfounded.acc (edge nodes)" .
  have "n \<in> Wellfounded.acc (edge nodes)" for n
    by (metis accI edge_iff edge_keys k subsetD)
  then show "wf (edge nodes)" by (simp add: wf_iff_acc)
next
  assume w: "wf (edge nodes)"
  then show "find_cycle nodes (map fst nodes) = Some None"
    using find_cycle_None(1,3) [OF assms order_refl] wf_edge_cycle [OF w] by (metis not_None_eq)
qed
section \<open>Construction\<close>

definition desc :: "nodes \<Rightarrow> node_id \<Rightarrow> node_id set" where
  "desc nodes n = {m. (n, m) \<in> (edge nodes)\<^sup>*}"

definition without :: "node_id set \<Rightarrow> nodes \<Rightarrow> nodes" where
  "without S ns = filter (\<lambda>(k, _). k \<notin> S) ns"

lemma without_without [simp]: "without S (without T ns) = without (S \<union> T) ns"
  by (auto simp: without_def intro: filter_cong)

lemma without_Nil [simp]: "without {} ns = ns"
  by (simp add: without_def)

lemma map_of_without [simp]: "map_of (without S ns) n = (if n \<in> S then None else map_of ns n)"
  by (induction ns) (auto simp: without_def)

lemma delete_without: "AList.delete n ns = without {n} ns"
  by (auto simp: AList.delete_eq without_def intro: filter_cong)

lemma children_of_set:
  assumes "distinct (map fst nodes)"
  shows "set (children_of nodes q) = {c. parent_of nodes c = Some q}"
  using assms by (auto simp: children_of_def parent_of_def intro: rev_image_eqI dest: map_of_SomeD)

lemma children_of_distinct: "distinct (map fst nodes) \<Longrightarrow> distinct (children_of nodes q)"
  by (simp add: children_of_def distinct_map_filter)

lemma desc_unfold: "desc nodes n = insert n (\<Union>c \<in> {c. (n, c) \<in> edge nodes}. desc nodes c)"
  by (auto simp: desc_def simp del: edge_iff elim: converse_rtranclE
      intro: converse_rtrancl_into_rtrancl)

lemma ancestors_chain:
  "(a, x) \<in> (edge nodes)\<^sup>* \<Longrightarrow> (b, x) \<in> (edge nodes)\<^sup>*
    \<Longrightarrow> (a, b) \<in> (edge nodes)\<^sup>* \<or> (b, a) \<in> (edge nodes)\<^sup>*"
proof (induction rule: rtrancl_induct)
  case (step y z)
  from step.prems show ?case
  proof (cases rule: rtranclE)
    case base
    then show ?thesis using step.hyps by (meson rtrancl.rtrancl_into_rtrancl)
  next
    case (step u)
    then have "u = y" using \<open>(y, z) \<in> edge nodes\<close> by simp
    then show ?thesis using step.IH step(1) by blast
  qed
qed simp

lemma siblings_disjoint:
  assumes "wf (edge nodes)" "parent_of nodes a = Some q" "parent_of nodes b = Some q" "a \<noteq> b"
  shows "desc nodes a \<inter> desc nodes b = {}"
proof -
  have no: False if s: "parent_of nodes c = Some q" "parent_of nodes d = Some q" "c \<noteq> d"
    "(c, d) \<in> (edge nodes)\<^sup>*" for c d
  proof -
    from s(4,3) obtain u where u: "(c, u) \<in> (edge nodes)\<^sup>*" "(u, d) \<in> edge nodes"
      by (meson rtranclE)
    then have "(u, c) \<in> edge nodes" using s(1,2) by simp
    then have "(u, u) \<in> (edge nodes)\<^sup>+" using u(1) by (meson rtrancl_into_trancl2)
    then show False using wf_edge_cycle [OF assms(1)] by blast
  qed
  show ?thesis
  proof (rule ccontr)
    assume "desc nodes a \<inter> desc nodes b \<noteq> {}"
    then obtain x where "(a, x) \<in> (edge nodes)\<^sup>*" "(b, x) \<in> (edge nodes)\<^sup>*" by (auto simp: desc_def)
    from ancestors_chain [OF this] show False using no assms by metis
  qed
qed

fun tree_ids :: "recursion_tree \<Rightarrow> node_id list" where
  "tree_ids (Tree h cs) = th_id h # concat (map tree_ids cs)"

text \<open>What a tree built from the map of nodes says: each head is the one of its node, and its
  children are the nodes with that parent, in key order.\<close>

fun tree_of :: "nodes \<Rightarrow> recursion_tree \<Rightarrow> bool" where
  "tree_of nodes (Tree h cs) \<longleftrightarrow>
     (\<exists>p h0. map_of nodes (th_id h) = Some (p, h0) \<and> Tree h cs = finish_head h0 cs)
     \<and> map (\<lambda>t. th_id (root_head t)) cs = children_of nodes (Some (th_id h))
     \<and> list_all (tree_of nodes) cs"

lemma build_Cons:
  "build kids (n # ids) ns = Option.bind (build kids [n] ns) (\<lambda>(ts, ns').
     Option.bind (build kids ids ns') (\<lambda>(us, ns''). Some (ts @ us, ns'')))"
proof (cases "map_of ns n")
  case (Some ph)
  then show ?thesis
    by (cases ph; cases "build kids (kids n) (AList.delete n ns)")
      (simp_all add: build.simps [of kids "n # ids" ns] build.simps [of kids "[n]" ns]
        build.simps [of kids "[]"] split: prod.splits)
qed (simp add: build.simps [of kids "n # ids" ns] build.simps [of kids "[n]" ns])

definition all_desc :: "nodes \<Rightarrow> node_id list \<Rightarrow> node_id set" where
  "all_desc nodes ids = (\<Union>n \<in> set ids. desc nodes n)"

lemma all_desc_simps [simp]:
  "all_desc nodes [] = {}" "all_desc nodes (n # ids) = desc nodes n \<union> all_desc nodes ids"
  by (simp_all add: all_desc_def)

definition builds :: "nodes \<Rightarrow> node_id list \<Rightarrow> bool" where
  "builds nodes ids \<longleftrightarrow> (\<forall>ns. (\<forall>m \<in> all_desc nodes ids. map_of ns m = map_of nodes m) \<longrightarrow>
     (\<exists>ts. build (\<lambda>n. children_of nodes (Some n)) ids ns = Some (ts, without (all_desc nodes ids) ns)
       \<and> map (\<lambda>t. th_id (root_head t)) ts = ids \<and> list_all (tree_of nodes) ts
       \<and> set (concat (map tree_ids ts)) = all_desc nodes ids \<and> distinct (concat (map tree_ids ts))))"

lemma builds_Nil: "builds nodes []"
  by (simp add: builds_def build.simps [of _ "[]"])

lemma builds_Cons:
  assumes "builds nodes [n]" "builds nodes ids" "desc nodes n \<inter> all_desc nodes ids = {}"
  shows "builds nodes (n # ids)"
  unfolding builds_def
proof (intro allI impI)
  fix ns assume a: "\<forall>m \<in> all_desc nodes (n # ids). map_of ns m = map_of nodes m"
  let ?k = "\<lambda>n. children_of nodes (Some n)"
  obtain ts where t: "build ?k [n] ns = Some (ts, without (desc nodes n) ns)"
    "map (\<lambda>t. th_id (root_head t)) ts = [n]" "list_all (tree_of nodes) ts"
    "set (concat (map tree_ids ts)) = desc nodes n" "distinct (concat (map tree_ids ts))"
    using assms(1) a unfolding builds_def all_desc_simps by auto
  have "\<forall>m \<in> all_desc nodes ids. map_of (without (desc nodes n) ns) m = map_of nodes m"
    using a assms(3) by auto
  then obtain us where u: "build ?k ids (without (desc nodes n) ns)
      = Some (us, without (all_desc nodes ids) (without (desc nodes n) ns))"
    "map (\<lambda>t. th_id (root_head t)) us = ids" "list_all (tree_of nodes) us"
    "set (concat (map tree_ids us)) = all_desc nodes ids" "distinct (concat (map tree_ids us))"
    using assms(2) unfolding builds_def by blast
  have "set (concat (map tree_ids (ts @ us))) = all_desc nodes (n # ids)"
    using t(4) u(4) by simp
  moreover have "distinct (concat (map tree_ids (ts @ us)))"
    using t(4,5) u(4,5) assms(3) by simp
  moreover have "build ?k (n # ids) ns = Some (ts @ us, without (all_desc nodes (n # ids)) ns)"
    using t(1) u(1) by (simp add: build_Cons [of _ n ids] Un_commute)
  ultimately show "\<exists>ts. build ?k (n # ids) ns = Some (ts, without (all_desc nodes (n # ids)) ns)
      \<and> map (\<lambda>t. th_id (root_head t)) ts = n # ids \<and> list_all (tree_of nodes) ts
      \<and> set (concat (map tree_ids ts)) = all_desc nodes (n # ids) \<and> distinct (concat (map tree_ids ts))"
    using t(2,3) u(2,3) by (intro exI [of _ "ts @ us"]) simp
qed

lemma builds_siblings:
  assumes "wf (edge nodes)" "\<forall>n \<in> set ids. builds nodes [n] \<and> parent_of nodes n = Some q" "distinct ids"
  shows "builds nodes ids"
  using assms(2,3)
proof (induction ids)
  case (Cons n ids)
  have "desc nodes n \<inter> all_desc nodes ids = {}"
  proof -
    have "desc nodes n \<inter> desc nodes m = {}" if "m \<in> set ids" for m
      using that Cons.prems by (intro siblings_disjoint [OF assms(1)]) auto
    then show ?thesis by (auto simp: all_desc_def)
  qed
  then show ?case using Cons by (intro builds_Cons [of nodes n ids]) simp_all
qed (rule builds_Nil)

text \<open>The keys of the map are the identifiers in the heads.\<close>

definition keyed :: "nodes \<Rightarrow> bool" where
  "keyed nodes \<longleftrightarrow> distinct (map fst nodes) \<and> list_all (\<lambda>(k, _, h). th_id h = k) nodes"

lemma keyedD: "keyed nodes \<Longrightarrow> map_of nodes n = Some (p, h) \<Longrightarrow> th_id h = n"
  by (fastforce simp: keyed_def list_all_iff dest: map_of_SomeD)

lemma wf_edge_converse:
  assumes "wf (edge nodes)"
  shows "wf ((edge nodes)\<inverse>)"
proof (rule finite_acyclic_wf_converse [OF _ wf_acyclic [OF assms]])
  have "edge nodes \<subseteq> (\<lambda>c. (the (the (parent_of nodes c)), c)) ` keys nodes"
  proof
    fix e assume "e \<in> edge nodes"
    then obtain p c where "e = (p, c)" "parent_of nodes c = Some (Some p)" by (cases e) simp
    then show "e \<in> (\<lambda>c. (the (the (parent_of nodes c)), c)) ` keys nodes"
      by (intro image_eqI [of _ _ c]) (simp_all only: edge_keys option.sel)
  qed
  then show "finite (edge nodes)" by (meson List.finite_set finite_imageI finite_subset)
qed

lemma builds_one:
  assumes "wf (edge nodes)" "keyed nodes"
  shows "n \<in> keys nodes \<Longrightarrow> builds nodes [n]"
  using wf_edge_converse [OF assms(1)]
proof (induction n rule: wf_induct_rule)
  case (less n)
  have d: "distinct (map fst nodes)" using assms(2) by (simp add: keyed_def)
  let ?cs = "children_of nodes (Some n)"
  have cs: "set ?cs = {c. (n, c) \<in> edge nodes}" by (simp add: children_of_set [OF d])
  have "builds nodes [c] \<and> parent_of nodes c = Some (Some n)" if "c \<in> set ?cs" for c
    using less.IH [of c] that cs by (auto dest: edge_keys)
  then have b: "builds nodes ?cs"
    using builds_siblings [OF assms(1)] children_of_distinct [OF d] by blast
  have dn: "desc nodes n = insert n (all_desc nodes ?cs)"
    by (subst desc_unfold) (simp add: all_desc_def cs del: edge_iff)
  have nn: "n \<notin> all_desc nodes ?cs"
    using wf_edge_cycle [OF assms(1), of n]
    by (auto simp: all_desc_def cs desc_def simp del: edge_iff dest: rtrancl_into_trancl2)
  obtain p h where m: "map_of nodes n = Some (p, h)"
    using less.prems by (metis map_of_eq_None_iff list.set_map not_None_eq surj_pair)
  show ?case unfolding builds_def all_desc_simps Un_empty_right
  proof (intro allI impI)
    fix ns assume a: "\<forall>m \<in> desc nodes n. map_of ns m = map_of nodes m"
    then have mn: "map_of ns n = Some (p, h)" using m by (simp add: dn)
    have "\<forall>m \<in> all_desc nodes ?cs. map_of (without {n} ns) m = map_of nodes m"
      using a nn by (auto simp: dn)
    then obtain ts where t: "build (\<lambda>n. children_of nodes (Some n)) ?cs (without {n} ns)
        = Some (ts, without (all_desc nodes ?cs) (without {n} ns))"
      "map (\<lambda>t. th_id (root_head t)) ts = ?cs" "list_all (tree_of nodes) ts"
      "set (concat (map tree_ids ts)) = all_desc nodes ?cs" "distinct (concat (map tree_ids ts))"
      using b unfolding builds_def by blast
    let ?t = "finish_head h ts"
    have h: "th_id (root_head ?t) = n" "root_children ?t = ts" "tree_ids ?t = n # concat (map tree_ids ts)"
      using keyedD [OF assms(2) m] by (simp_all add: finish_head_def)
    have "tree_of nodes ?t"
      using m t(2,3) keyedD [OF assms(2) m] by (simp add: finish_head_def)
    moreover have "build (\<lambda>n. children_of nodes (Some n)) [n] ns = Some ([?t], without (desc nodes n) ns)"
      using t(1) mn by (simp add: build.simps [of _ "[n]"] build.simps [of _ "[]"] delete_without dn)
    ultimately show "\<exists>ts. build (\<lambda>n. children_of nodes (Some n)) [n] ns = Some (ts, without (desc nodes n) ns)
        \<and> map (\<lambda>t. th_id (root_head t)) ts = [n] \<and> list_all (tree_of nodes) ts
        \<and> set (concat (map tree_ids ts)) = desc nodes n \<and> distinct (concat (map tree_ids ts))"
      using h t(4,5) nn dn by (intro exI [of _ "[?t]"]) simp
  qed
qed

section \<open>The whole map\<close>

lemma all_desc_roots:
  assumes "distinct (map fst nodes)" "closed nodes" "wf (edge nodes)"
  shows "all_desc nodes (children_of nodes None) = keys nodes"
proof -
  have "n \<in> all_desc nodes (children_of nodes None)" if "n \<in> keys nodes" for n
    using assms(3) that
  proof (induction n rule: wf_induct_rule)
    case (less n)
    then obtain q where q: "parent_of nodes n = Some q" by (metis not_None_eq parent_of_None)
    show ?case
    proof (cases q)
      case None
      then show ?thesis
        using q children_of_set [OF assms(1)] by (auto simp: all_desc_def desc_def)
    next
      case (Some p)
      then have "p \<in> keys nodes" using closedD [OF assms(2)] q by blast
      then obtain r where r: "r \<in> set (children_of nodes None)" "(r, p) \<in> (edge nodes)\<^sup>*"
        using less.IH [of p] q Some by (auto simp: all_desc_def desc_def)
      moreover have "(p, n) \<in> edge nodes" using q Some by simp
      ultimately have "(r, n) \<in> (edge nodes)\<^sup>*" by (meson rtrancl.rtrancl_into_rtrancl)
      then show ?thesis using r(1) by (auto simp: all_desc_def desc_def)
    qed
  qed
  moreover have "m \<in> keys nodes" if "(r, m) \<in> (edge nodes)\<^sup>*" "r \<in> keys nodes" for r m
    using that by (induction rule: rtrancl_induct) (auto intro: edge_keys [simplified])
  moreover have "set (children_of nodes None) \<subseteq> keys nodes" by (auto simp: children_of_def)
  ultimately show ?thesis unfolding all_desc_def desc_def by blast
qed

lemma build_all:
  assumes "keyed nodes" "closed nodes" "wf (edge nodes)"
  shows "\<exists>ts ns. build (\<lambda>n. children_of nodes (Some n)) (children_of nodes None) nodes = Some (ts, ns)
    \<and> map (\<lambda>t. th_id (root_head t)) ts = children_of nodes None \<and> list_all (tree_of nodes) ts
    \<and> set (concat (map tree_ids ts)) = keys nodes \<and> distinct (concat (map tree_ids ts))"
proof -
  have d: "distinct (map fst nodes)" using assms(1) by (simp add: keyed_def)
  have "builds nodes (children_of nodes None)"
    by (rule builds_siblings [OF assms(3), of _ None])
      (auto simp: children_of_set [OF d] intro: builds_one [OF assms(3,1)] edge_keys children_of_distinct [OF d])
  then show ?thesis unfolding builds_def using all_desc_roots [OF d assms(2,3)] by auto
qed

lemma missing_parent_closed:
  assumes "distinct (map fst nodes)"
  shows "missing_parent nodes = None \<longleftrightarrow> closed nodes"
proof -
  have e: "(\<exists>h. (c, Some q, h) \<in> set nodes) \<longleftrightarrow> parent_of nodes c = Some (Some q)" for c q
    using assms by (force simp: parent_of_def)
  have "missing_parent nodes = None \<longleftrightarrow> (\<forall>c q h. (c, Some q, h) \<in> set nodes \<longrightarrow> q \<in> keys nodes)"
    by (fastforce simp: missing_parent_def find_None_iff map_of_eq_None_iff split: option.splits)
  also have "\<dots> \<longleftrightarrow> (\<forall>c q. parent_of nodes c = Some (Some q) \<longrightarrow> q \<in> keys nodes)"
    by (simp only: e [symmetric]) blast
  also have "\<dots> \<longleftrightarrow> closed nodes" unfolding closed_def edge_def by blast
  finally show ?thesis .
qed

text \<open>A map of nodes is assembled exactly when its parents exist and no node is its own ancestor.\<close>

lemma assemble_cases:
  assumes "keyed nodes"
  shows "assemble nodes \<noteq> None"
    and "(\<exists>ts. assemble nodes = Some (Inr ts)) \<longleftrightarrow> closed nodes \<and> wf (edge nodes)"
    and "assemble nodes = Some (Inr ts) \<Longrightarrow>
      map (\<lambda>t. th_id (root_head t)) ts = children_of nodes None \<and> list_all (tree_of nodes) ts
      \<and> set (concat (map tree_ids ts)) = keys nodes \<and> distinct (concat (map tree_ids ts))"
proof -
  have d: "distinct (map fst nodes)" using assms by (simp add: keyed_def)
  note m = missing_parent_closed [OF d]
  have "assemble nodes \<noteq> None \<and> ((\<exists>ts. assemble nodes = Some (Inr ts)) \<longleftrightarrow> closed nodes \<and> wf (edge nodes))
    \<and> (assemble nodes = Some (Inr ts) \<longrightarrow>
      map (\<lambda>t. th_id (root_head t)) ts = children_of nodes None \<and> list_all (tree_of nodes) ts
      \<and> set (concat (map tree_ids ts)) = keys nodes \<and> distinct (concat (map tree_ids ts)))"
  proof (cases "closed nodes")
    case False
    then show ?thesis using m by (cases "missing_parent nodes") (auto simp: assemble_def)
  next
    case True
    note f = find_cycle_wf [OF True] find_cycle_None(1) [OF True order_refl]
    show ?thesis
    proof (cases "wf (edge nodes)")
      case True
      obtain us ns where b: "build (\<lambda>n. children_of nodes (Some n)) (children_of nodes None) nodes = Some (us, ns)"
        "map (\<lambda>t. th_id (root_head t)) us = children_of nodes None \<and> list_all (tree_of nodes) us
          \<and> set (concat (map tree_ids us)) = keys nodes \<and> distinct (concat (map tree_ids us))"
        using build_all [OF assms \<open>closed nodes\<close> True] by blast
      have "assemble nodes = Some (Inr us)"
        using m \<open>closed nodes\<close> True f b(1) by (simp add: assemble_def)
      moreover from this have "assemble nodes = Some (Inr ts) \<Longrightarrow> ts = us" by simp
      ultimately show ?thesis using b(2) \<open>closed nodes\<close> True by blast
    next
      case False
      then obtain c where "find_cycle nodes (map fst nodes) = Some (Some c)"
        using f by (metis not_None_eq)
      then show ?thesis using m \<open>closed nodes\<close> False by (auto simp: assemble_def)
    qed
  qed
  then show "assemble nodes \<noteq> None"
    "(\<exists>ts. assemble nodes = Some (Inr ts)) \<longleftrightarrow> closed nodes \<and> wf (edge nodes)"
    "assemble nodes = Some (Inr ts) \<Longrightarrow>
      map (\<lambda>t. th_id (root_head t)) ts = children_of nodes None \<and> list_all (tree_of nodes) ts
      \<and> set (concat (map tree_ids ts)) = keys nodes \<and> distinct (concat (map tree_ids ts))"
    by blast+
qed

section \<open>Places\<close>

text \<open>Every node of a forest with the parent under which it stands.\<close>

fun places :: "node_id option \<Rightarrow> recursion_tree \<Rightarrow> (node_id option \<times> node_id) list" where
  "places q (Tree h cs) = (q, th_id h) # concat (map (places (Some (th_id h))) cs)"

lemma places_ids: "map snd (places q t) = tree_ids t"
  by (induction q t rule: places.induct) (simp add: map_concat comp_def cong: map_cong)

lemma places_parents:
  assumes "distinct (map fst nodes)"
  shows "tree_of nodes t \<Longrightarrow> parent_of nodes (th_id (root_head t)) = Some q
    \<Longrightarrow> (r, n) \<in> set (places q t) \<Longrightarrow> parent_of nodes n = Some r"
proof (induction q t rule: places.induct)
  case (1 q h cs)
  have "parent_of nodes (th_id (root_head c)) = Some (Some (th_id h))" if "c \<in> set cs" for c
  proof -
    have "th_id (root_head c) \<in> set (children_of nodes (Some (th_id h)))"
      using "1.prems"(1) that by (metis tree_of.simps image_eqI list.set_map)
    then show ?thesis by (simp add: children_of_set [OF assms])
  qed
  then show ?case using 1 by (auto simp: list_all_iff simp del: parent_of_None)
qed

lemma mset_places:
  assumes "keyed nodes" "assemble nodes = Some (Inr ts)"
  shows "mset (concat (map (places None) ts)) = mset (map (\<lambda>(k, p, _). (p, k)) nodes)"
proof -
  have d: "distinct (map fst nodes)" using assms(1) by (simp add: keyed_def)
  note a = assemble_cases(3) [OF assms]
  let ?p = "concat (map (places None) ts)"
  have ids: "map snd ?p = concat (map tree_ids ts)"
    by (simp add: map_concat comp_def places_ids cong: map_cong)
  have dp: "distinct (map snd ?p)" and k: "set (map snd ?p) = keys nodes" using a ids by metis+
  have u: "parent_of nodes n = Some r" if rn: "(r, n) \<in> set ?p" for r n
  proof -
    from rn obtain t where t: "t \<in> set ts" "(r, n) \<in> set (places None t)" by auto
    then have "th_id (root_head t) \<in> set (children_of nodes None)" using a by (metis image_eqI list.set_map)
    then show ?thesis
      using places_parents [OF d _ _ t(2)] a t(1) by (simp add: list_all_iff children_of_set [OF d])
  qed
  have v: "(r, n) \<in> set (map (\<lambda>(k, p, _). (p, k)) nodes) \<longleftrightarrow> parent_of nodes n = Some r" for r n
    using d by (force simp: parent_of_def)
  have w: "(r, n) \<in> set ?p" if p: "parent_of nodes n = Some r" for r n
  proof -
    have "n \<in> set (map snd ?p)" using k edge_keys [OF p] by simp
    then obtain r' where "(r', n) \<in> set ?p" by force
    then show ?thesis using u p by fastforce
  qed
  have "set ?p = set (map (\<lambda>(k, p, _). (p, k)) nodes)"
    using u v w by (metis subrelI subset_antisym)
  moreover have "distinct ?p" using dp by (simp only: distinct_map)
  moreover have "distinct (map (\<lambda>(k, p, _). (p, k)) nodes)"
    using d by (force simp: distinct_map inj_on_def)
  ultimately show ?thesis using set_eq_iff_mset_eq_distinct by blast
qed

end
