(* ===== verification/Trace_Props.thy ===== *)
theory Trace_Props
  imports Trace_Tree
begin

text \<open>
  The properties of the reconstructed recursion tree: exactly when it exists, that it holds
  every started node once and in its place, what its figures are, and that they do not depend
  on the order in which the scheduler produced the events.
\<close>

section \<open>The started nodes\<close>

fun event_start :: "trace_event \<Rightarrow> node_start option" where
  "event_start (NodeStart s) = Some s"
| "event_start _ = None"

definition starts :: "trace_event list \<Rightarrow> node_start list" where
  "starts es = List.map_filter event_start es"

lemma starts_simps [simp]:
  "starts [] = []"
  "starts (e # es) = (case event_start e of None \<Rightarrow> starts es | Some s \<Rightarrow> s # starts es)"
  by (simp_all add: starts_def map_filter_simps split: option.splits)

lemma collect_starts_event:
  "collect_starts (e # es) nodes = (case event_start e of
       None \<Rightarrow> collect_starts es nodes
     | Some s \<Rightarrow> if ns_node s \<in> keys nodes then Inl (DuplicateStart (ns_node s))
         else collect_starts es (bt_insert (ns_node s) (ns_parent s, start_head s) nodes))"
  by (cases e) (simp_all add: map_of_eq_None_iff)

lemma collect_starts_Inr:
  assumes "collect_starts es nodes = Inr nodes'" "bt_wf nodes"
  shows "bt_wf nodes' \<and> distinct (map ns_node (starts es))
    \<and> set (map ns_node (starts es)) \<inter> keys nodes = {}
    \<and> map_of nodes' = map_of nodes ++ map_of (map (\<lambda>s. (ns_node s, ns_parent s, start_head s)) (starts es))"
  using assms
proof (induction es arbitrary: nodes)
  case (Cons e es)
  show ?case
  proof (cases "event_start e")
    case None
    then show ?thesis using Cons by (simp add: collect_starts_event)
  next
    case (Some s)
    let ?n = "bt_insert (ns_node s) (ns_parent s, start_head s) nodes"
    have a: "ns_node s \<notin> keys nodes" "collect_starts es ?n = Inr nodes'"
      using Cons.prems Some by (simp_all add: collect_starts_event split: if_splits)
    note ih = Cons.IH [OF a(2) bt_wf_insert [OF Cons.prems(2)]]
    have f: "ns_node s \<notin> set (map ns_node (starts es))" using ih by auto
    have m: "map_of ?n = (map_of nodes)(ns_node s \<mapsto> (ns_parent s, start_head s))"
      using Cons.prems(2) by (rule map_of_bt_insert)
    have "map_of nodes' = (map_of nodes)(ns_node s \<mapsto> (ns_parent s, start_head s))
        ++ map_of (map (\<lambda>s. (ns_node s, ns_parent s, start_head s)) (starts es))"
      using ih unfolding m by blast
    also have "\<dots> = map_of nodes ++ map_of (map (\<lambda>s. (ns_node s, ns_parent s, start_head s)) (s # starts es))"
      using f by (subst map_add_upd_left) (auto simp: dom_map_of_conv_image_fst image_image)
    finally show ?thesis using ih a(1) f Some by (auto simp del: map_of.simps)
  qed
qed simp

lemma collect_starts_Inl:
  assumes "bt_wf nodes"
  shows "(\<exists>n. collect_starts es nodes = Inl n)
    \<longleftrightarrow> \<not> (distinct (map ns_node (starts es)) \<and> set (map ns_node (starts es)) \<inter> keys nodes = {})"
  using assms
proof (induction es arbitrary: nodes)
  case (Cons e es)
  show ?case
  proof (cases "event_start e")
    case None
    then show ?thesis using Cons by (simp add: collect_starts_event)
  next
    case (Some s)
    then show ?thesis
      using Cons.IH [OF bt_wf_insert [OF Cons.prems], of "ns_node s" "(ns_parent s, start_head s)"]
      by (auto simp: collect_starts_event)
  qed
qed simp

section \<open>Accounting keeps the shape\<close>

definition shape :: "nodes \<Rightarrow> (node_id \<times> node_id option) list" where
  "shape nodes = map (\<lambda>(k, p, _). (k, p)) nodes"

lemma shape_with_tree [simp]: "shape (with_tree n f nodes) = shape nodes"
  by (simp add: shape_def with_tree_def case_prod_beta comp_def)

lemma shape_account [simp]: "shape (snd (account e st)) = shape (snd st)"
  by (cases st; cases e) auto

lemma shape_accounts [simp]: "shape (snd (fold account es st)) = shape (snd st)"
  by (induction es arbitrary: st) simp_all

lemma shape_record_end [simp]: "shape (record_end e nodes) = shape nodes"
  by (cases e) simp_all

lemma shape_record_ends [simp]: "shape (fold record_end es nodes) = shape nodes"
  by (induction es arbitrary: nodes) simp_all

lemma shape_accounted [simp]: "shape (accounted es nodes) = shape nodes"
  by (simp add: accounted_def)

lemma keys_shape: "map fst nodes = map fst (shape nodes)"
  by (simp add: shape_def comp_def case_prod_beta)

lemma parent_of_shape: "parent_of nodes n = map_of (shape nodes) n"
  by (induction nodes) (auto simp: shape_def parent_of_def)

lemma keyed_with_tree [simp]:
  "(\<And>h. th_id (f h) = th_id h) \<Longrightarrow> keyed (with_tree n f nodes) \<longleftrightarrow> keyed nodes"
  by (auto simp: keyed_def with_tree_def list_all_iff comp_def case_prod_beta)

lemma keyed_accounted [simp]: "keyed (accounted es nodes) \<longleftrightarrow> keyed nodes"
proof -
  have a: "keyed (snd (account e st)) \<longleftrightarrow> keyed (snd st)" for e st
    by (cases st; cases e) (auto simp: add_turn_def add_usage_def)
  have b: "keyed (snd (fold account es st)) \<longleftrightarrow> keyed (snd st)" for st
    by (induction es arbitrary: st) (simp_all add: a)
  have c: "keyed (record_end e nodes) \<longleftrightarrow> keyed nodes" for e nodes
    by (cases e) (auto simp: end_head_def)
  have "keyed (fold record_end es nodes) \<longleftrightarrow> keyed nodes" for nodes
    by (induction es arbitrary: nodes) (simp_all add: c)
  then show ?thesis by (simp add: accounted_def b)
qed

definition start_edge :: "trace_event list \<Rightarrow> (node_id \<times> node_id) set" where
  "start_edge es = {(p, ns_node s) | s p. s \<in> set (starts es) \<and> ns_parent s = Some p}"

lemma collected:
  assumes "collect_starts es [] = Inr nodes"
  shows "bt_wf nodes" "keyed (accounted es nodes)"
    "keys (accounted es nodes) = set (map ns_node (starts es))"
    "parent_of (accounted es nodes) n = map_of (map (\<lambda>s. (ns_node s, ns_parent s)) (starts es)) n"
    "edge (accounted es nodes) = start_edge es"
proof -
  let ?al = "map (\<lambda>s. (ns_node s, ns_parent s, start_head s)) (starts es)"
  have a: "bt_wf nodes" "distinct (map ns_node (starts es))" "map_of nodes = map_of ?al"
    using collect_starts_Inr [OF assms] by (simp_all add: bt_wf_def)
  show "bt_wf nodes" by fact
  have "distinct (map fst nodes)" using a(1) by (rule bt_wf_distinct)
  moreover have "th_id h = k" if "(k, p, h) \<in> set nodes" for k p h
  proof -
    have "map_of nodes k = Some (p, h)" using that calculation by simp
    then have "(k, p, h) \<in> set ?al" using a(3) map_of_SomeD by fastforce
    then show ?thesis by (auto simp: start_head_def)
  qed
  ultimately have "keyed nodes" by (auto simp: keyed_def list_all_iff)
  then show "keyed (accounted es nodes)" by simp
  have k: "keys nodes = set (map ns_node (starts es))"
    using arg_cong [OF a(3), of dom] by (simp add: dom_map_of_conv_image_fst image_image)
  then show "keys (accounted es nodes) = set (map ns_node (starts es))"
    by (metis keys_shape shape_accounted)
  have p: "parent_of nodes n = map_of (map (\<lambda>s. (ns_node s, ns_parent s)) (starts es)) n" for n
  proof -
    have "map_option fst (map_of (map (\<lambda>s. (ns_node s, ns_parent s, start_head s)) ss) n)
        = map_of (map (\<lambda>s. (ns_node s, ns_parent s)) ss) n" for ss
      by (induction ss) auto
    then show ?thesis by (simp add: parent_of_def a(3))
  qed
  then show q: "parent_of (accounted es nodes) n = map_of (map (\<lambda>s. (ns_node s, ns_parent s)) (starts es)) n" for n
    by (simp add: parent_of_shape)
  have "map_of (map (\<lambda>s. (ns_node s, ns_parent s)) (starts es)) c = Some x
      \<longleftrightarrow> (\<exists>s \<in> set (starts es). ns_node s = c \<and> ns_parent s = x)" for c x
    using a(2) by (subst map_of_eq_Some_iff) (auto simp: comp_def)
  then show "edge (accounted es nodes) = start_edge es"
    unfolding edge_def start_edge_def q by fastforce
qed

section \<open>When the tree exists, and who stands where\<close>

lemma mset_starts:
  assumes "collect_starts es [] = Inr nodes"
  shows "mset (map (\<lambda>(k, p, _). (p, k)) (accounted es nodes))
    = mset (map (\<lambda>s. (ns_parent s, ns_node s)) (starts es))"
proof -
  note c = collected [OF assms]
  have ds: "distinct (map ns_node (starts es))" using collect_starts_Inr [OF assms] by (simp add: bt_wf_def)
  have d: "distinct (map fst (accounted es nodes))" using c(2) by (simp add: keyed_def)
  have a: "(r, n) \<in> set (map (\<lambda>(k, p, _). (p, k)) (accounted es nodes))
      \<longleftrightarrow> parent_of (accounted es nodes) n = Some r" for r n
    using d by (force simp: parent_of_def)
  have b: "parent_of (accounted es nodes) n = Some r
      \<longleftrightarrow> (r, n) \<in> set (map (\<lambda>s. (ns_parent s, ns_node s)) (starts es))" for r n
    using ds unfolding c(4) by (subst map_of_eq_Some_iff) (auto simp: comp_def)
  have "x \<in> set (map (\<lambda>(k, p, _). (p, k)) (accounted es nodes))
      \<longleftrightarrow> x \<in> set (map (\<lambda>s. (ns_parent s, ns_node s)) (starts es))" for x
    by (cases x) (simp only: a b)
  then have "set (map (\<lambda>(k, p, _). (p, k)) (accounted es nodes))
      = set (map (\<lambda>s. (ns_parent s, ns_node s)) (starts es))"
    by (rule set_eqI)
  moreover have "distinct (map (\<lambda>(k, p, _). (p, k)) (accounted es nodes))"
    using d by (force simp: distinct_map inj_on_def)
  moreover have "distinct (map (\<lambda>s. (ns_parent s, ns_node s)) (starts es))"
    using ds by (auto simp: distinct_map inj_on_def)
  ultimately show ?thesis using set_eq_iff_mset_eq_distinct by blast
qed

fun ordered_tree :: "recursion_tree \<Rightarrow> bool" where
  "ordered_tree (Tree h cs) \<longleftrightarrow>
     sorted_wrt (<) (map (\<lambda>t. th_id (root_head t)) cs) \<and> list_all ordered_tree cs"

lemma children_of_sorted: "bt_wf nodes \<Longrightarrow> sorted_wrt (<) (children_of nodes q)"
  unfolding bt_wf_def children_of_def sorted_wrt_map by (rule sorted_wrt_filter)

lemma tree_of_ordered: "bt_wf nodes \<Longrightarrow> tree_of nodes t \<Longrightarrow> ordered_tree t"
proof (induction t rule: ordered_tree.induct)
  case (1 h cs)
  then show ?case
    using children_of_sorted [OF 1(2), of "Some (th_id h)"] by (auto simp: list_all_iff)
qed

lemma reconstruct_InrD:
  assumes "reconstruct_events es = Some (Inr ts)"
  obtains nodes where "collect_starts es [] = Inr nodes" "assemble (accounted es nodes) = Some (Inr ts)"
  using assms by (auto simp: reconstruct_events_def split: sum.splits)

text \<open>
  C21. In the forest reconstructed from a session every started node stands exactly once, under the
  parent it was started with, a node without a parent being a root, and siblings stand in the
  order of their identifiers.
\<close>
theorem reconstruct_places_every_node:
  assumes "reconstruct_tree rs = Some (Inr ts)"
  shows "mset (concat (map (places None) ts))
      = mset (map (\<lambda>s. (ns_parent s, ns_node s)) (starts (map tr_event rs)))
    \<and> sorted_wrt (<) (map (\<lambda>t. th_id (root_head t)) ts) \<and> list_all ordered_tree ts"
proof -
  obtain nodes where n: "collect_starts (map tr_event rs) [] = Inr nodes"
    "assemble (accounted (map tr_event rs) nodes) = Some (Inr ts)"
    using reconstruct_InrD assms unfolding reconstruct_tree_def by blast
  let ?a = "accounted (map tr_event rs) nodes"
  note c = collected [OF n(1)]
  have w: "bt_wf ?a" using c(1) by (simp add: bt_wf_def keys_shape)
  note a = assemble_cases(3) [OF c(2) n(2)]
  show ?thesis
    using mset_places [OF c(2) n(2)] mset_starts [OF n(1)] a children_of_sorted [OF w, of None]
      tree_of_ordered [OF w] by (auto simp: list_all_iff)
qed

text \<open>
  C20. The reconstruction always returns: it never panics, whatever the records are, and it gives
  a forest exactly when no node starts twice, every parent is a started node and no node is an
  ancestor of itself; otherwise it gives an error.
\<close>
theorem reconstruct_total:
  "reconstruct_tree rs \<noteq> None
    \<and> ((\<exists>ts. reconstruct_tree rs = Some (Inr ts)) \<longleftrightarrow>
         distinct (map ns_node (starts (map tr_event rs)))
         \<and> fst ` start_edge (map tr_event rs) \<subseteq> ns_node ` set (starts (map tr_event rs))
         \<and> acyclic (start_edge (map tr_event rs)))"
proof (cases "collect_starts (map tr_event rs) []")
  case (Inl e)
  moreover have "(\<exists>n. collect_starts (map tr_event rs) [] = Inl n)
      \<longleftrightarrow> \<not> distinct (map ns_node (starts (map tr_event rs)))"
    using collect_starts_Inl [of "[]" "map tr_event rs"] by (simp add: bt_wf_def)
  ultimately show ?thesis by (simp add: reconstruct_tree_def reconstruct_events_def)
next
  case (Inr nodes)
  let ?es = "map tr_event rs" and ?a = "accounted (map tr_event rs) nodes"
  note c = collected [OF Inr]
  have d: "distinct (map ns_node (starts ?es))"
    using collect_starts_Inr [OF Inr] by (simp add: bt_wf_def)
  have "start_edge ?es \<subseteq> (\<lambda>s. (the (ns_parent s), ns_node s)) ` set (starts ?es)"
    by (force simp: start_edge_def)
  then have "finite (start_edge ?es)" by (rule finite_surj [OF List.finite_set])
  then have w: "wf (edge ?a) \<longleftrightarrow> acyclic (start_edge ?es)"
    by (simp only: c(5) wf_iff_acyclic_if_finite)
  have cl: "closed ?a \<longleftrightarrow> fst ` start_edge ?es \<subseteq> ns_node ` set (starts ?es)"
    unfolding closed_def c(3) c(5) by auto
  have r: "reconstruct_tree rs = assemble ?a"
    using Inr by (simp add: reconstruct_tree_def reconstruct_events_def)
  show ?thesis unfolding r using assemble_cases(1,2) [OF c(2)] d w cl by blast
qed

section \<open>The figures of a node\<close>

definition usage_sum :: "usage list \<Rightarrow> usage" where
  "usage_sum us = foldr usage_add us usage_default"

lemma usage_sum_simps [simp]:
  "usage_sum [] = usage_default" "usage_sum (u # us) = usage_add u (usage_sum us)"
  by (simp_all add: usage_sum_def)

lemma usage_sum_append [simp]: "usage_sum (us @ vs) = usage_add (usage_sum us) (usage_sum vs)"
  by (induction us) (simp_all add: usage_add_assoc)

lemma usage_sum_mset: "mset us = mset vs \<Longrightarrow> usage_sum us = usage_sum vs"
proof (induction us arbitrary: vs)
  case (Cons u us)
  then have "u \<in> set vs" by (metis list.set_intros(1) set_mset_mset)
  then obtain a b where v: "vs = a @ u # b" by (auto simp: in_set_conv_decomp)
  then have "usage_sum us = usage_add (usage_sum a) (usage_sum b)"
    using Cons.IH [of "a @ b"] Cons.prems by simp
  then show ?case by (simp add: v) (metis usage_add_assoc usage_add_commute)
qed simp

fun is_turn :: "node_id \<Rightarrow> trace_event \<Rightarrow> bool" where
  "is_turn n (MessageEvent m msg) \<longleftrightarrow> m = n \<and> msg_role msg = Assistant"
| "is_turn n _ \<longleftrightarrow> False"

text \<open>The attempts that count: the first end recorded for each attempt identifier.\<close>

fun first_ends :: "u64 set \<Rightarrow> trace_event list \<Rightarrow> attempt_end list" where
  "first_ends seen [] = []"
| "first_ends seen (AttemptEnd a # es) =
     (if ae_attempt a \<in> seen then first_ends seen es
      else a # first_ends (insert (ae_attempt a) seen) es)"
| "first_ends seen (_ # es) = first_ends seen es"

definition charges :: "node_id \<Rightarrow> attempt_end list \<Rightarrow> usage list" where
  "charges n as = map attempt_usage (filter (\<lambda>a. ae_node a = n) as)"

fun outcome_of :: "node_id \<Rightarrow> trace_event \<Rightarrow> agent_outcome option" where
  "outcome_of n (NodeEnd oc) = (if ao_node oc = n then Some oc else None)"
| "outcome_of n _ = None"

definition outcomes :: "trace_event list \<Rightarrow> node_id \<Rightarrow> agent_outcome list" where
  "outcomes es n = List.map_filter (outcome_of n) es"

definition measured :: "trace_event list \<Rightarrow> u64 set \<Rightarrow> node_id \<Rightarrow> tree_head \<Rightarrow> tree_head" where
  "measured es seen n h = h\<lparr>th_turns := th_turns h + of_nat (length (filter (is_turn n) es)),
     th_usage_self := usage_add (th_usage_self h) (usage_sum (charges n (first_ends seen es)))\<rparr>"

definition concluded_head :: "agent_outcome list \<Rightarrow> tree_head \<Rightarrow> tree_head" where
  "concluded_head ocs h = (if ocs = [] then h else end_head (last ocs) h)"

text \<open>What the tree should say of a node: its recorded outcome if it ended, and otherwise its
  assistant messages and the usage of its attempts, each counted once.\<close>

definition expected_head :: "trace_event list \<Rightarrow> node_start \<Rightarrow> tree_head" where
  "expected_head es s = concluded_head (outcomes es (ns_node s)) (measured es {} (ns_node s) (start_head s))"

definition on_head :: "('h \<Rightarrow> 'h) \<Rightarrow> ('p \<times> 'h) option \<Rightarrow> ('p \<times> 'h) option" where
  "on_head f = map_option (\<lambda>(p, h). (p, f h))"

lemma on_head_simps [simp]:
  "on_head id x = x" "on_head (\<lambda>h. h) x = x" "on_head f (on_head g x) = on_head (f \<circ> g) x"
  "on_head f (Some (p, h)) = Some (p, f h)"
  by (cases x; auto simp: on_head_def)+

lemma map_of_with_tree:
  "map_of (with_tree n f nodes) k = map_option (\<lambda>(p, h). (p, if k = n then f h else h)) (map_of nodes k)"
  by (induction nodes) (auto simp: with_tree_def)

lemma with_tree_step:
  "map_of (with_tree n f nodes) k = on_head (if k = n then f else id) (map_of nodes k)"
  by (cases "map_of nodes k") (auto simp: map_of_with_tree on_head_def)

lemma map_of_account:
  "map_of (snd (fold account es (seen, nodes))) k
     = on_head (measured es seen k) (map_of nodes k)"
proof (induction es arbitrary: seen nodes)
  case Nil
  have "measured [] seen k = id" by (simp add: fun_eq_iff measured_def charges_def)
  then show ?case by (simp add: option.map_ident)
next
  case (Cons e es)
  show ?case
  proof (cases e)
    case (MessageEvent n m)
    then have "measured (e # es) seen k = measured es seen k
        \<circ> (if k = n \<and> msg_role m = Assistant then add_turn else id)"
      by (auto simp: measured_def fun_eq_iff add_turn_def)
    then show ?thesis
      using Cons.IH MessageEvent by (simp add: with_tree_step comp_def)
  next
    case (AttemptEnd a)
    show ?thesis
    proof (cases "ae_attempt a \<in> seen")
      case True
      then show ?thesis using Cons.IH AttemptEnd by (simp add: measured_def)
    next
      case False
      have "measured (e # es) seen k = measured es (insert (ae_attempt a) seen) k
          \<circ> (if k = ae_node a then add_usage (attempt_usage a) else id)"
        using AttemptEnd False
        by (auto simp: measured_def fun_eq_iff charges_def add_usage_def usage_add_assoc)
      then show ?thesis
        using Cons.IH AttemptEnd False
        by (simp add: with_tree_step comp_def)
    qed
  qed (use Cons.IH in \<open>simp_all add: measured_def\<close>)
qed

lemma concluded_head_simps [simp]: "concluded_head [] = id" "concluded_head [oc] = end_head oc"
  by (simp_all add: fun_eq_iff concluded_head_def)

lemma map_of_record_ends:
  "map_of (fold record_end es nodes) k
     = on_head (concluded_head (outcomes es k)) (map_of nodes k)"
proof (induction es arbitrary: nodes)
  case Nil
  show ?case by (simp add: outcomes_def map_filter_simps)
next
  case (Cons e es)
  have e: "map_of (record_end e nodes) k = on_head (concluded_head (outcomes [e] k)) (map_of nodes k)"
  proof (cases e)
    case (NodeEnd oc)
    then show ?thesis
      by (simp add: with_tree_step outcomes_def map_filter_simps)
  qed (simp_all add: outcomes_def map_filter_simps)
  have o: "outcomes (e # es) k = outcomes [e] k @ outcomes es k"
    by (simp add: outcomes_def map_filter_simps split: option.split)
  have "concluded_head (outcomes es k) \<circ> concluded_head (outcomes [e] k) = concluded_head (outcomes (e # es) k)"
    unfolding o by (auto simp: concluded_head_def end_head_def fun_eq_iff)
  then show ?case using Cons.IH e by (simp add:)
qed

lemma map_of_accounted:
  assumes "collect_starts es [] = Inr nodes" "s \<in> set (starts es)"
  shows "map_of (accounted es nodes) (ns_node s) = Some (ns_parent s, expected_head es s)"
proof -
  note c = collect_starts_Inr [OF assms(1)]
  have "map_of nodes (ns_node s) = Some (ns_parent s, start_head s)"
    using c assms(2) by (auto simp: bt_wf_def comp_def map_of_eq_Some_iff)
  then show ?thesis
    by (simp add: accounted_def map_of_record_ends map_of_account expected_head_def)
qed

fun heads :: "recursion_tree \<Rightarrow> tree_head list" where
  "heads (Tree h cs) = h # concat (map heads cs)"

fun subtrees :: "recursion_tree \<Rightarrow> recursion_tree list" where
  "subtrees (Tree h cs) = Tree h cs # concat (map subtrees cs)"

definition own_usage :: "recursion_tree \<Rightarrow> usage" where
  "own_usage t = usage_sum (map th_usage_self (heads t))"

lemma fold_subtree_usage:
  "fold (\<lambda>c u. usage_add u (th_usage_subtree (root_head c))) cs v
     = usage_add v (usage_sum (map (\<lambda>c. th_usage_subtree (root_head c)) cs))"
  by (induction cs arbitrary: v) (simp_all add: usage_add_assoc)

lemma own_usage_Tree: "own_usage (Tree h cs) = usage_add (th_usage_self h) (usage_sum (map own_usage cs))"
proof -
  have "usage_sum (map th_usage_self (concat (map heads cs))) = usage_sum (map own_usage cs)"
    by (induction cs) (simp_all add: own_usage_def)
  then show ?thesis by (simp add: own_usage_def)
qed

lemma tree_of_subtree_usage:
  "tree_of nodes t \<Longrightarrow> th_usage_subtree (root_head t) = own_usage t"
proof (induction t)
  case (Tree h cs)
  then obtain p h0 where h: "Tree h cs = finish_head h0 cs" by auto
  have "map (\<lambda>c. th_usage_subtree (root_head c)) cs = map own_usage cs"
    using Tree by (simp add: list_all_iff)
  moreover have "h = h0\<lparr>th_usage_subtree := fold (\<lambda>c u. usage_add u (th_usage_subtree (root_head c))) cs
      (th_usage_self h0)\<rparr>"
    using h by (simp add: finish_head_def)
  ultimately show ?case by (simp only: fold_subtree_usage own_usage_Tree) simp
qed

lemma tree_of_subtrees: "tree_of nodes t \<Longrightarrow> u \<in> set (subtrees t) \<Longrightarrow> tree_of nodes u"
proof (induction t)
  case (Tree h cs)
  then show ?case by (cases "u = Tree h cs") (auto simp: list_all_iff simp del: tree_of.simps
      dest: tree_of.simps [THEN iffD1])
qed

lemma tree_of_head:
  assumes "tree_of nodes t"
  obtains p h where "map_of nodes (th_id (root_head t)) = Some (p, h)"
    "root_head t = h\<lparr>th_usage_subtree := own_usage t\<rparr>"
proof -
  obtain h cs where t: "t = Tree h cs" by (cases t)
  then obtain p h0 where h: "map_of nodes (th_id h) = Some (p, h0)" "Tree h cs = finish_head h0 cs"
    using assms by auto
  have "th_usage_subtree h = own_usage t" using tree_of_subtree_usage [OF assms] t by simp
  then have "h = h0\<lparr>th_usage_subtree := own_usage t\<rparr>"
    using h(2) by (auto simp: finish_head_def)
  then show ?thesis using that h(1) t by simp
qed

text \<open>
  C22. The figures of the reconstructed tree: a node that ended shows the outcome its last end record
  gives; any other node is shown as running, with one turn per assistant message of its own and
  the usage of its attempts, each attempt counted once however often its end is recorded; and
  the subtree usage of every node, at any depth, is the sum of what it and all its descendants
  used themselves.
\<close>
theorem reconstruct_figures:
  assumes "reconstruct_tree rs = Some (Inr ts)" "t \<in> set (concat (map subtrees ts))"
  shows "\<exists>s. s \<in> set (starts (map tr_event rs))
    \<and> root_head t = (expected_head (map tr_event rs) s)\<lparr>th_usage_subtree := own_usage t\<rparr>"
proof -
  let ?es = "map tr_event rs"
  obtain nodes where n: "collect_starts ?es [] = Inr nodes"
    "assemble (accounted ?es nodes) = Some (Inr ts)"
    using reconstruct_InrD assms(1) unfolding reconstruct_tree_def by blast
  note c = collected [OF n(1)]
  have "tree_of (accounted ?es nodes) t"
    using assemble_cases(3) [OF c(2) n(2)] assms(2) tree_of_subtrees by (auto simp: list_all_iff)
  then obtain p h where h: "map_of (accounted ?es nodes) (th_id (root_head t)) = Some (p, h)"
    "root_head t = h\<lparr>th_usage_subtree := own_usage t\<rparr>" by (rule tree_of_head)
  then have "th_id (root_head t) \<in> keys (accounted ?es nodes)"
    by (metis map_of_eq_None_iff list.set_map option.distinct(1))
  then obtain s where s: "s \<in> set (starts ?es)" "ns_node s = th_id (root_head t)" using c(3) by auto
  then have "h = expected_head ?es s" using map_of_accounted [OF n(1) s(1)] h(1) by simp
  then show ?thesis using s(1) h(2) by blast
qed

section \<open>Independence of the schedule\<close>

fun event_end :: "trace_event \<Rightarrow> attempt_end option" where
  "event_end (AttemptEnd a) = Some a"
| "event_end _ = None"

definition attempt_ends :: "trace_event list \<Rightarrow> attempt_end list" where
  "attempt_ends es = List.map_filter event_end es"

lemma mset_map_filter: "mset xs = mset ys \<Longrightarrow> mset (List.map_filter f xs) = mset (List.map_filter f ys)"
proof (induction xs arbitrary: ys)
  case (Cons x xs)
  then have "x \<in> set ys" by (metis list.set_intros(1) set_mset_mset)
  then obtain a b where v: "ys = a @ x # b" by (auto simp: in_set_conv_decomp)
  then have "mset (List.map_filter f xs) = mset (List.map_filter f (a @ b))" using Cons by simp
  then show ?case by (simp add: v map_filter_def)
qed simp

lemma first_ends_distinct:
  "distinct (map ae_attempt (attempt_ends es)) \<Longrightarrow> set (map ae_attempt (attempt_ends es)) \<inter> seen = {}
    \<Longrightarrow> first_ends seen es = attempt_ends es"
proof (induction es arbitrary: seen)
  case (Cons e es)
  show ?case
  proof (cases e)
    case (AttemptEnd a)
    then show ?thesis
      using Cons.prems Cons.IH [of "insert (ae_attempt a) seen"]
      by (auto simp: attempt_ends_def map_filter_simps)
  qed (use Cons in \<open>simp_all add: attempt_ends_def map_filter_simps\<close>)
qed (simp add: attempt_ends_def map_filter_simps)

text \<open>A log in which nothing is recorded twice: every start, attempt end and node end is there at most once.\<close>

definition recorded_once :: "trace_event list \<Rightarrow> bool" where
  "recorded_once es \<longleftrightarrow> distinct (map ns_node (starts es))
     \<and> distinct (map ae_attempt (attempt_ends es))
     \<and> (\<forall>n. length (outcomes es n) \<le> 1)"

lemma short_mset: "mset xs = mset ys \<Longrightarrow> length xs \<le> 1 \<Longrightarrow> xs = ys"
  by (cases xs; cases "tl xs") (auto dest: mset_eq_length)

lemma expected_head_mset:
  assumes "mset es = mset es'" "recorded_once es"
  shows "expected_head es s = expected_head es' s"
proof -
  let ?n = "ns_node s"
  have m: "mset (attempt_ends es) = mset (attempt_ends es')" "mset (outcomes es ?n) = mset (outcomes es' ?n)"
    using mset_map_filter [OF assms(1)] by (simp_all add: attempt_ends_def outcomes_def)
  have d: "distinct (map ae_attempt (attempt_ends es))" "distinct (map ae_attempt (attempt_ends es'))"
    using assms(2) m(1) by (simp add: recorded_once_def)
      (metis assms(2) m(1) mset_eq_imp_distinct_iff mset_map recorded_once_def)
  have "usage_sum (charges ?n (first_ends {} es)) = usage_sum (charges ?n (first_ends {} es'))"
    using m(1) d by (intro usage_sum_mset) (simp add: charges_def first_ends_distinct)
  moreover have "length (filter (is_turn ?n) es) = length (filter (is_turn ?n) es')"
    using assms(1) by (metis mset_filter size_mset)
  moreover have "outcomes es ?n = outcomes es' ?n"
    using short_mset [OF m(2)] assms(2) by (simp add: recorded_once_def)
  ultimately show ?thesis by (simp add: expected_head_def measured_def)
qed

lemma bt_wf_ext:
  assumes "bt_wf m" "bt_wf m'" "map_of m = map_of m'"
  shows "m = m'"
proof -
  have "set m = set m'" using assms bt_wf_distinct map_of_inject_set by blast
  moreover have "sorted (map fst m)" "sorted (map fst m')"
    using assms(1,2) by (simp_all add: bt_wf_def strict_sorted_iff)
  ultimately show ?thesis
    using map_sorted_distinct_set_unique [of fst m m'] bt_wf_distinct [OF assms(1)]
      bt_wf_distinct [OF assms(2)] by (simp add: distinct_map)
qed

text \<open>
  C23. The reconstruction does not depend on scheduling: for a log in which no start, attempt end or
  node end is recorded twice, any reordering of its records gives the same forest or the same
  error.
\<close>
theorem reconstruct_schedule_independent:
  assumes "mset (map tr_event rs) = mset (map tr_event rs')" "recorded_once (map tr_event rs)"
  shows "reconstruct_tree rs = reconstruct_tree rs'"
proof -
  let ?es = "map tr_event rs" and ?es' = "map tr_event rs'"
  have ms: "mset (starts ?es) = mset (starts ?es')"
    using mset_map_filter [OF assms(1)] by (simp add: starts_def)
  have d: "distinct (map ns_node (starts ?es))" "distinct (map ns_node (starts ?es'))"
    using assms(2) ms by (auto simp: recorded_once_def) (metis mset_eq_imp_distinct_iff mset_map)
  have "\<exists>nodes. collect_starts es [] = Inr nodes" if "distinct (map ns_node (starts es))" for es
    using collect_starts_Inl [of "[]" es] that by (cases "collect_starts es []") (auto simp: bt_wf_def)
  then obtain nodes nodes' where n: "collect_starts ?es [] = Inr nodes" "collect_starts ?es' [] = Inr nodes'"
    using d by blast
  have k: "set (map ns_node (starts ?es)) = set (map ns_node (starts ?es'))"
    using ms by (metis mset_map set_mset_mset)
  have eq: "map_of (accounted ?es nodes) k = map_of (accounted ?es' nodes') k" for k
  proof (cases "k \<in> set (map ns_node (starts ?es))")
    case True
    then obtain s where s: "s \<in> set (starts ?es)" "k = ns_node s" by auto
    then have "s \<in> set (starts ?es')" using ms by (metis set_mset_mset)
    then show ?thesis
      using map_of_accounted [OF n(1) s(1)] map_of_accounted [OF n(2)] s(2)
        expected_head_mset [OF assms, of s] by simp
  next
    case False
    then have "k \<notin> keys (accounted ?es nodes)" "k \<notin> keys (accounted ?es' nodes')"
      using collected(3) [OF n(1)] collected(3) [OF n(2)] k by metis+
    then show ?thesis by (metis map_of_eq_None_iff list.set_map)
  qed
  have "bt_wf (accounted ?es nodes)" "bt_wf (accounted ?es' nodes')"
    using collected(1) [OF n(1)] collected(1) [OF n(2)] by (simp_all add: bt_wf_def keys_shape)
  then have "accounted ?es nodes = accounted ?es' nodes'" using eq by (intro bt_wf_ext) auto
  then show ?thesis using n by (simp add: reconstruct_tree_def reconstruct_events_def)
qed

section \<open>A sample log\<close>

definition start_of :: "node_id \<Rightarrow> node_id option \<Rightarrow> node_start" where
  "start_of n p = \<lparr>ns_node = n, ns_parent = p, ns_depth = 0, ns_kind = ''agent'', ns_name = ''a'',
     ns_model = ''m'', ns_origin_cell = None, ns_system = None, ns_tools = [],
     ns_limits = limits_default, ns_prompt = None\<rparr>"

definition end_of :: "node_id \<Rightarrow> u64 \<Rightarrow> attempt_end" where
  "end_of n a = \<lparr>ae_node = n, ae_attempt = a, ae_request_id = None, ae_outcome = ''completed'',
     ae_charged = 7, ae_excess = 0, ae_usage = None, ae_stop_reason = None, ae_ms = 1\<rparr>"

definition sample_events :: "trace_event list" where
  "sample_events = [NodeStart (start_of 0 None), NodeStart (start_of 1 (Some 0)),
     AttemptEnd (end_of 1 5), AttemptEnd (end_of 0 6), MessageEvent 1 (assistant_text ''x'')]"

definition record_of :: "trace_event \<Rightarrow> trace_record" where
  "record_of e = trace_record_new [] e None"

lemmas sample_log_defs = sample_events_def start_of_def end_of_def record_of_def trace_record_new_def
  assistant_text_def

lemma sample_event_list [simp]: "map tr_event (map record_of es) = es"
  by (simp add: record_of_def trace_record_new_def comp_def)

lemma sample_event_comp [simp]: "map (tr_event \<circ> record_of) es = es"
  using sample_event_list [of es] by simp

definition sample_head :: "node_id \<Rightarrow> u32 \<Rightarrow> u64 \<Rightarrow> tree_head" where
  "sample_head n turns sub = \<lparr>th_id = n, th_kind = ''agent'', th_name = ''a'', th_model = ''m'',
     th_origin_cell = None, th_status = None, th_turns = turns,
     th_usage_self = usage_default\<lparr>input_tokens := 7\<rparr>,
     th_usage_subtree = usage_default\<lparr>input_tokens := sub\<rparr>\<rparr>"

definition sample_forest :: "recursion_tree list" where
  "sample_forest = [Tree (sample_head 0 0 14) [Tree (sample_head 1 1 7) []]]"

lemma sample_tree: "reconstruct_tree (map record_of sample_events) = Some (Inr sample_forest)"
  by (simp add: reconstruct_tree_def reconstruct_events_def accounted_def assemble_def
      sample_log_defs sample_forest_def sample_head_def start_head_def with_tree_def add_turn_def
      add_usage_def attempt_usage_def missing_parent_def children_of_def parent_of_def
      build.simps finish_head_def usage_add_def usage_default_def comp_def)

lemma sample_recorded_once: "recorded_once sample_events"
  by (simp add: recorded_once_def sample_log_defs attempt_ends_def outcomes_def map_filter_simps)

theorem reconstruct_places_every_node_witness:
  "mset (concat (map (places None) sample_forest)) = {#(None, 0), (Some 0, 1)#}"
  using reconstruct_places_every_node [OF sample_tree]
  by (simp add: sample_log_defs comp_def)

theorem reconstruct_total_witness:
  "reconstruct_tree (map record_of sample_events) \<noteq> None"
  using reconstruct_total [of "map record_of sample_events"] by simp

theorem reconstruct_figures_witness:
  "th_usage_subtree (root_head (hd sample_forest)) = own_usage (hd sample_forest)"
proof -
  have "hd sample_forest \<in> set (concat (map subtrees sample_forest))" by (simp add: sample_forest_def)
  from reconstruct_figures [OF sample_tree this] show ?thesis by auto
qed

theorem reconstruct_schedule_independent_witness:
  "reconstruct_tree (map record_of (rev sample_events)) = Some (Inr sample_forest)"
  using reconstruct_schedule_independent [of "map record_of sample_events" "map record_of (rev sample_events)"]
    sample_recorded_once sample_tree by simp

end
