(* ===== verification/Tool_Registry.thy ===== *)
theory Tool_Registry
  imports Protocol
begin

text \<open>
  Tool registries, input validation and bounded results: `crates/core/src/tool.rs`.  What a tool
  does when it is called is not part of the registry and is a parameter where the runtime calls
  it; a tool is its frozen specification and its declarations.
\<close>

section \<open>The schema subset\<close>

datatype validate_error =
    UnsupportedType string | WrongType json | NotInEnum json | InvalidRequired
  | MissingProperty string | UnexpectedProperty string

text \<open>Equality of JSON values: numbers compare as numbers, so the two zeros are equal.\<close>

definition float_zero :: "u64 \<Rightarrow> bool" where
  "float_zero b = (b = 0 \<or> b = 0x8000000000000000)"

fun num_eq :: "json_number \<Rightarrow> json_number \<Rightarrow> bool" where
  "num_eq (Float a) (Float b) \<longleftrightarrow> a = b \<or> float_zero a \<and> float_zero b"
| "num_eq a b \<longleftrightarrow> a = b"

function (sequential) json_eq :: "json \<Rightarrow> json \<Rightarrow> bool" where
  "json_eq (JNum a) (JNum b) \<longleftrightarrow> num_eq a b"
| "json_eq (JArr xs) (JArr ys) \<longleftrightarrow> list_all2 json_eq xs ys"
| "json_eq (JObj xs) (JObj ys) \<longleftrightarrow> list_all2 (\<lambda>(k, v) (l, w). k = l \<and> json_eq v w) xs ys"
| "json_eq JNull JNull \<longleftrightarrow> True"
| "json_eq (JBool a) (JBool b) \<longleftrightarrow> a = b"
| "json_eq (JStr a) (JStr b) \<longleftrightarrow> a = b"
| "json_eq _ _ \<longleftrightarrow> False"
  by pat_completeness auto
termination
  by (relation "measure (\<lambda>(v, w). size v)")
    (auto simp: less_Suc_eq_le size_list_estimation' intro!: size_list_estimation')

fun type_matches :: "string \<Rightarrow> json \<Rightarrow> bool option" where
  "type_matches t v =
     (if t = ''object'' then Some (is_object v)
      else if t = ''array'' then Some (as_array v \<noteq> None)
      else if t = ''string'' then Some (as_str v \<noteq> None)
      else if t = ''integer'' then Some (case v of JNum (Float _) \<Rightarrow> False | JNum _ \<Rightarrow> True | _ \<Rightarrow> False)
      else if t = ''number'' then Some (case v of JNum _ \<Rightarrow> True | _ \<Rightarrow> False)
      else if t = ''boolean'' then Some (case v of JBool _ \<Rightarrow> True | _ \<Rightarrow> False)
      else if t = ''null'' then Some (v = JNull)
      else None)"

definition check_type :: "json \<Rightarrow> json \<Rightarrow> validate_error option" where
  "check_type schema input = (case as_str (jindex schema ''type'') of
       None \<Rightarrow> None
     | Some t \<Rightarrow>
         (case type_matches t input of
            None \<Rightarrow> Some (UnsupportedType t)
          | Some True \<Rightarrow> None
          | Some False \<Rightarrow> Some (WrongType (jindex schema ''type''))))"

definition check_enum :: "json \<Rightarrow> json \<Rightarrow> validate_error option" where
  "check_enum schema input = (case Option.bind (jget schema ''enum'') as_array of
       None \<Rightarrow> None
     | Some vs \<Rightarrow> if list_ex (\<lambda>v. json_eq v input) vs then None
         else Some (NotInEnum (jindex schema ''enum'')))"

fun check_required :: "json list \<Rightarrow> (string \<times> json) list \<Rightarrow> validate_error option" where
  "check_required [] ms = None"
| "check_required (k # ks) ms = (case as_str k of
       None \<Rightarrow> Some InvalidRequired
     | Some k' \<Rightarrow> if map_of ms k' = None then Some (MissingProperty k') else check_required ks ms)"

definition required_of :: "json \<Rightarrow> (string \<times> json) list \<Rightarrow> validate_error option" where
  "required_of schema ms = (case as_array (jindex schema ''required'') of
       None \<Rightarrow> None | Some ks \<Rightarrow> check_required ks ms)"

lemma size_jget: "jget v k = Some w \<Longrightarrow> size w < size v"
proof (cases v)
  case (JObj ms)
  assume "jget v k = Some w"
  then have "(k, w) \<in> set ms" using JObj by (simp add: map_of_SomeD)
  from size_list_estimation' [OF this, of "Suc (size w)" "\<lambda>x. Suc (size (snd x))"]
  show ?thesis using JObj by (simp add: size_prod_simp)
qed auto

lemma size_jindex: "jget (jindex v k) l = Some w \<Longrightarrow> size w < size v"
  using size_jget [of v k] size_jget [of "jindex v k" l]
  by (auto simp: jindex_def split: option.splits)

definition or_error :: "'e option \<Rightarrow> 'e option \<Rightarrow> 'e option" where
  "or_error a b = (case a of Some e \<Rightarrow> Some e | None \<Rightarrow> b)"

lemma or_error_None [simp]: "or_error a b = None \<longleftrightarrow> a = None \<and> b = None"
  by (simp add: or_error_def split: option.split)

lemma or_error_Some: "or_error a b = Some e \<longleftrightarrow> a = Some e \<or> a = None \<and> b = Some e"
  by (auto simp: or_error_def split: option.split)

function validate :: "json \<Rightarrow> json \<Rightarrow> validate_error option"
  and validate_members :: "json \<Rightarrow> (string \<times> json) list \<Rightarrow> validate_error option"
  and validate_items :: "json \<Rightarrow> json list \<Rightarrow> validate_error option" where
  "validate schema input =
     or_error (check_type schema input)
    (or_error (check_enum schema input)
    (or_error
      (case input of JObj ms \<Rightarrow> or_error (required_of schema ms) (validate_members schema ms)
                   | _ \<Rightarrow> None)
      (case (jget schema ''items'', input) of
         (Some items, JArr vs) \<Rightarrow> validate_items items vs
       | _ \<Rightarrow> None)))"
| "validate_members schema [] = None"
| "validate_members schema ((k, v) # ms) =
     or_error
       (case jget (jindex schema ''properties'') k of
          Some property \<Rightarrow> validate property v
        | None \<Rightarrow> if jindex schema ''additionalProperties'' = JBool False
            then Some (UnexpectedProperty k) else None)
       (validate_members schema ms)"
| "validate_items items [] = None"
| "validate_items items (v # vs) = or_error (validate items v) (validate_items items vs)"
  by pat_completeness auto
termination
  by (relation "measures [
      \<lambda>x. case x of Inl (s, _) \<Rightarrow> size s | Inr (Inl (s, _)) \<Rightarrow> size s | Inr (Inr (s, _)) \<Rightarrow> size s,
      \<lambda>x. case x of Inl _ \<Rightarrow> 1 | Inr (Inl _) \<Rightarrow> 0 | Inr (Inr _) \<Rightarrow> 2,
      \<lambda>x. case x of Inl _ \<Rightarrow> 0 | Inr (Inl (_, ms)) \<Rightarrow> length ms | Inr (Inr (_, vs)) \<Rightarrow> length vs]")
    (auto dest: size_jindex size_jget [OF sym])

section \<open>Schemas that can be enforced\<close>

definition TYPES :: "string list" where
  "TYPES = [''object'', ''array'', ''string'', ''integer'', ''number'', ''boolean'', ''null'']"

datatype schema_error =
    SchemaNotObject | UnsupportedSchemaType json | RequiredNotNames | EnumNotArray | PropertiesNotObject

definition schema_type_error :: "json \<Rightarrow> schema_error option" where
  "schema_type_error schema = (case jget schema ''type'' of
       None \<Rightarrow> None
     | Some t \<Rightarrow> (case as_str t of
           Some name \<Rightarrow> if name \<in> set TYPES then None else Some (UnsupportedSchemaType t)
         | None \<Rightarrow> Some (UnsupportedSchemaType t)))"

definition schema_required_error :: "json \<Rightarrow> schema_error option" where
  "schema_required_error schema = (case jget schema ''required'' of
       None \<Rightarrow> None
     | Some r \<Rightarrow> (case as_array r of
           Some names \<Rightarrow> if list_all (\<lambda>n. as_str n \<noteq> None) names then None else Some RequiredNotNames
         | None \<Rightarrow> Some RequiredNotNames))"

definition schema_enum_error :: "json \<Rightarrow> schema_error option" where
  "schema_enum_error schema = (case jget schema ''enum'' of
       None \<Rightarrow> None
     | Some e \<Rightarrow> if as_array e = None then Some EnumNotArray else None)"

fun jsize_members :: "(string \<times> json) list \<Rightarrow> nat" where
  "jsize_members ms = size_list (\<lambda>p. Suc (size (snd p))) ms"

function check_schema :: "json \<Rightarrow> schema_error option"
  and check_properties :: "(string \<times> json) list \<Rightarrow> schema_error option" where
  "check_schema schema =
     (if \<not> is_object schema then Some SchemaNotObject
      else
        or_error (schema_type_error schema)
       (or_error (schema_required_error schema)
       (or_error (schema_enum_error schema)
       (or_error
         (case jget schema ''properties'' of
            None \<Rightarrow> None
          | Some (JObj ps) \<Rightarrow> check_properties ps
          | Some _ \<Rightarrow> Some PropertiesNotObject)
         (case jget schema ''items'' of
            None \<Rightarrow> None
          | Some items \<Rightarrow> check_schema items)))))"
| "check_properties [] = None"
| "check_properties ((k, p) # ps) = or_error (check_schema p) (check_properties ps)"
  by pat_completeness auto
termination
  by (relation "measure (\<lambda>x. case x of Inl s \<Rightarrow> size s | Inr ps \<Rightarrow> jsize_members ps)")
    (auto dest!: size_jget simp: size_prod_simp)

section \<open>Bounded results\<close>

definition omission_marker :: "nat \<Rightarrow> string" where
  "omission_marker n = ''[... '' @ show_nat n @ '' characters omitted ...]''"

function cut_from :: "string list \<Rightarrow> nat \<Rightarrow> nat \<Rightarrow> string list" where
  "cut_from chars cap kept =
     (let marker = omission_marker (length chars - kept)
      in if length marker > cap then take cap chars
         else let nxt = cap - length marker
              in if nxt \<ge> kept
                 then take ((kept + 1) div 2) chars @ map (\<lambda>c. [c]) marker
                   @ drop (length chars - kept div 2) chars
                 else cut_from chars cap nxt)"
  by pat_completeness auto
termination by (relation "measure (\<lambda>(_, _, kept). kept)") auto

declare cut_from.simps [simp del]

definition truncate_text :: "string \<Rightarrow> nat \<Rightarrow> string" where
  "truncate_text text cap =
     (let chars = utf8_chars text
      in if length chars \<le> cap then text else concat (cut_from chars cap cap))"

section \<open>Registries\<close>

datatype effect = ReadOnly | Mutating

record tool =
  tl_spec :: tool_spec
  tl_large_input :: bool
  tl_effect :: effect
  tl_validate_locally :: bool
  tl_truncated :: bool

definition text_content :: "tool_result_part list \<Rightarrow> string" where
  "text_content ps = concat (map (\<lambda>p. case p of PartText t \<Rightarrow> t) ps)"

record toolset =
  tls_entries :: "(string \<times> tool_spec \<times> tool) list"
  tls_own_validation :: "string list"

definition frozen_spec :: "tool \<Rightarrow> tool_spec" where
  "frozen_spec t = (tl_spec t)\<lparr>ts_large_input := tl_large_input t\<rparr>"

fun toolset_entries :: "tool list \<Rightarrow> (string \<times> tool_spec \<times> tool) list
    \<Rightarrow> (string \<times> tool_spec \<times> tool) list option" where
  "toolset_entries [] es = Some es"
| "toolset_entries (t # ts) es =
     (let name = ts_name (frozen_spec t)
      in if map_of es name \<noteq> None then None
         else toolset_entries ts (bt_insert name (frozen_spec t, t) es))"

text \<open>None is the error of a duplicate name.\<close>

definition toolset_new :: "tool list \<Rightarrow> toolset option" where
  "toolset_new ts = map_option (\<lambda>es. \<lparr>tls_entries = es, tls_own_validation = []\<rparr>) (toolset_entries ts [])"

definition with_own_validation :: "toolset \<Rightarrow> tool \<Rightarrow> toolset option" where
  "with_own_validation s t =
     (let name = ts_name (frozen_spec t)
      in if map_of (tls_entries s) name \<noteq> None then None
         else Some \<lparr>tls_entries = bt_insert name (frozen_spec t, t) (tls_entries s),
                tls_own_validation = tls_own_validation s @ [name]\<rparr>)"

fun select_entries :: "toolset \<Rightarrow> string list \<Rightarrow> (string \<times> tool_spec \<times> tool) list
    \<Rightarrow> string + (string \<times> tool_spec \<times> tool) list" where
  "select_entries s [] es = Inr es"
| "select_entries s (n # ns) es = (case map_of (tls_entries s) n of
       None \<Rightarrow> Inl n
     | Some e \<Rightarrow> select_entries s ns (bt_insert n e es))"

text \<open>The error is the first unknown name.\<close>

definition select :: "toolset \<Rightarrow> string list option \<Rightarrow> string + toolset" where
  "select s selection = (case selection of
       None \<Rightarrow> Inr s
     | Some names \<Rightarrow>
         (case select_entries s names [] of
            Inl n \<Rightarrow> Inl n
          | Inr es \<Rightarrow> Inr \<lparr>tls_entries = es,
              tls_own_validation = filter (\<lambda>n. map_of es n \<noteq> None) (tls_own_validation s)\<rparr>))"

definition specs :: "toolset \<Rightarrow> tool_spec list" where
  "specs s = map (\<lambda>(_, sp, _). sp) (tls_entries s)"

datatype input_error = UnknownTool string | BadInput validate_error

definition object_schema :: json where
  "object_schema = jobj [(''type'', JStr ''object'')]"

definition toolset_validate :: "toolset \<Rightarrow> string \<Rightarrow> json \<Rightarrow> input_error option" where
  "toolset_validate s name input = (case map_of (tls_entries s) name of
       None \<Rightarrow> Some (UnknownTool name)
     | Some (sp, t) \<Rightarrow>
         map_option BadInput
           (if name \<in> set (tls_own_validation s) \<or> \<not> tl_validate_locally t
            then validate object_schema input else validate (ts_input_schema sp) input))"

definition toolset_get :: "toolset \<Rightarrow> string \<Rightarrow> tool option" where
  "toolset_get s name = map_option snd (map_of (tls_entries s) name)"

end
