(* ===== verification/Tool_Props.thy ===== *)
theory Tool_Props
  imports Tool_Registry "HOL-Library.Sublist"
begin

text \<open>
  Properties of the registry: a checked schema can always be enforced, truncation stays within its
  cap and says what it left out, and a selection never adds a tool.
\<close>

section \<open>Schemas\<close>

definition schema_fault :: "validate_error option \<Rightarrow> bool" where
  "schema_fault e \<longleftrightarrow> e = Some InvalidRequired \<or> (\<exists>t. e = Some (UnsupportedType t))"

lemma schema_fault_or [simp]:
  "schema_fault (or_error a b) \<longleftrightarrow> schema_fault a \<or> (a = None \<and> schema_fault b)"
  by (auto simp: or_error_def schema_fault_def split: option.splits)

lemma schema_fault_simps [simp]:
  "\<not> schema_fault None" "\<not> schema_fault (Some (UnexpectedProperty k))"
  by (simp_all add: schema_fault_def)

lemma TYPES_matches: "t \<in> set TYPES \<Longrightarrow> type_matches t v \<noteq> None"
  by (auto simp: TYPES_def)

lemma check_type_ok: "schema_type_error schema = None \<Longrightarrow> \<not> schema_fault (check_type schema input)"
  using TYPES_matches
  by (fastforce simp: schema_type_error_def check_type_def jindex_def schema_fault_def
      split: option.splits if_splits bool.splits)

lemma check_required_ok:
  "list_all (\<lambda>n. as_str n \<noteq> None) ks \<Longrightarrow> \<not> schema_fault (check_required ks ms)"
  by (induction ks) (auto simp: schema_fault_def split: option.splits)

lemma required_of_ok: "schema_required_error schema = None \<Longrightarrow> \<not> schema_fault (required_of schema ms)"
  using check_required_ok
  by (auto simp: schema_required_error_def required_of_def jindex_def split: option.splits if_splits)

lemma check_properties_all: "check_properties ps = None \<Longrightarrow> (k, p) \<in> set ps \<Longrightarrow> check_schema p = None"
  by (induction ps rule: list.induct) (auto simp del: check_schema.simps)

lemma check_schema_parts:
  assumes "check_schema schema = None"
  shows "schema_type_error schema = None" "schema_required_error schema = None"
    "jget schema ''items'' = Some items \<Longrightarrow> check_schema items = None"
    "jget (jindex schema ''properties'') k = Some p \<Longrightarrow> check_schema p = None"
proof -
  note c = assms [unfolded check_schema.simps [of schema]]
  show "schema_type_error schema = None" "schema_required_error schema = None"
    using c by (auto split: if_splits)
  show "jget schema ''items'' = Some items \<Longrightarrow> check_schema items = None"
    using c by (auto simp del: check_schema.simps split: if_splits)
  assume p: "jget (jindex schema ''properties'') k = Some p"
  then obtain ps where "jget schema ''properties'' = Some (JObj ps)" "map_of ps k = Some p"
    by (auto simp: jindex_def split: option.splits elim: jget.elims)
  moreover from this have "check_properties ps = None"
    using c by (auto simp del: check_schema.simps split: if_splits)
  ultimately show "check_schema p = None" using check_properties_all by (metis map_of_SomeD)
qed

text \<open>
  C27. A schema that passed the check can always be enforced: validation against it never fails
  because of the schema itself, at any depth, whatever the input; it accepts the input or names
  what is wrong with the input.
\<close>
theorem checked_schema_enforceable:
  assumes "check_schema schema = None"
  shows "validate schema input \<noteq> Some InvalidRequired
    \<and> (\<forall>t. validate schema input \<noteq> Some (UnsupportedType t))"
proof -
  have "check_schema schema = None \<Longrightarrow> \<not> schema_fault (validate schema input)"
    and "(\<And>k p. jget (jindex s2 ''properties'') k = Some p \<Longrightarrow> check_schema p = None)
      \<Longrightarrow> \<not> schema_fault (validate_members s2 ms)"
    and "check_schema s3 = None \<Longrightarrow> \<not> schema_fault (validate_items s3 vs)" for s2 s3 ms vs
  proof (induction schema input and s2 ms and s3 vs rule: validate_validate_members_validate_items.induct)
    case (1 schema input)
    have "\<not> schema_fault (check_enum schema input)"
      by (auto simp: check_enum_def schema_fault_def split: option.splits)
    then show ?case
      using 1 check_schema_parts [OF 1(3)] check_type_ok [of schema input] required_of_ok [of schema]
      by (auto split: json.splits option.splits simp del: check_schema.simps)
  next
    case (3 schema k v ms)
    then show ?case
      by (auto split: option.splits if_splits simp del: check_schema.simps validate.simps)
  qed (simp_all del: check_schema.simps validate.simps)
  then show ?thesis using assms unfolding schema_fault_def by blast
qed

definition sample_schema :: json where
  "sample_schema = jobj [(''type'', JStr ''object''), (''required'', JArr [JStr ''task'']),
     (''properties'', jobj [(''task'', jobj [(''type'', JStr ''string'')])])]"

theorem checked_schema_enforceable_witness:
  "validate sample_schema (jobj [(''task'', JNull)]) \<noteq> Some InvalidRequired"
proof -
  have "check_schema sample_schema = None"
    by (simp add: sample_schema_def jobj_def schema_type_error_def schema_required_error_def
        schema_enum_error_def TYPES_def)
  then show ?thesis by (rule checked_schema_enforceable [THEN conjunct1])
qed
section \<open>Truncation\<close>

abbreviation char_count :: "string \<Rightarrow> nat" where
  "char_count s \<equiv> length (utf8_chars s)"

definition leads :: "string \<Rightarrow> nat" where
  "leads s = length (filter (\<lambda>c. \<not> utf8_cont c) s)"

lemma leads_takeWhile [simp]: "leads (takeWhile utf8_cont s) = 0"
  by (induction s) (auto simp: leads_def)

lemma leads_append [simp]: "leads (a @ b) = leads a + leads b"
  by (simp add: leads_def)

lemma char_count_leads:
  "char_count s = leads s + (if s \<noteq> [] \<and> utf8_cont (hd s) then 1 else 0)"
proof (induction s rule: utf8_chars.induct)
  case (2 c cs)
  have "leads cs = leads (dropWhile utf8_cont cs)"
    by (metis add_0 leads_append leads_takeWhile takeWhile_dropWhile_id)
  moreover have "\<not> (dropWhile utf8_cont cs \<noteq> [] \<and> utf8_cont (hd (dropWhile utf8_cont cs)))"
    using hd_dropWhile [of utf8_cont cs] by auto
  ultimately show ?case using 2 by (auto simp: leads_def)
qed (simp add: leads_def)

lemma char_count_append: "char_count (a @ b) \<le> char_count a + char_count b"
  unfolding char_count_leads leads_append by (cases a) auto

lemma char_count_pieces: "set xs \<subseteq> set (utf8_chars s) \<Longrightarrow> char_count (concat xs) \<le> length xs"
proof (induction xs)
  case (Cons x xs)
  have "char_count x \<le> 1" if "x \<in> set (utf8_chars s)" for x
    using that
  proof (induction s rule: utf8_chars.induct)
    case (2 c cs)
    have d: "dropWhile utf8_cont (takeWhile utf8_cont cs) = []"
      by (simp only: dropWhile_eq_Nil_conv) (auto dest: set_takeWhileD)
    have "char_count (c # takeWhile utf8_cont cs) = 1" by (simp only: utf8_chars.simps d) simp
    then show ?case using 2 by auto
  qed simp
  then have "char_count x \<le> 1" "char_count (concat xs) \<le> length xs" using Cons by simp_all
  then show ?case using char_count_append [of x "concat xs"] by simp
qed simp

lemma utf8_chars_drop: "utf8_chars (concat (drop n (utf8_chars s))) = drop n (utf8_chars s)"
proof (induction s arbitrary: n rule: utf8_chars.induct)
  case (2 c cs)
  have "concat (utf8_chars (c # cs)) = c # cs" by (rule concat_utf8_chars)
  then show ?case using 2 by (cases n) simp_all
qed simp

lemma while_append:
  assumes "x = [] \<or> \<not> P (hd x)"
  shows "takeWhile P (takeWhile P cs @ x) = takeWhile P cs" "dropWhile P (takeWhile P cs @ x) = x"
proof -
  have "takeWhile P x = [] \<and> dropWhile P x = x" using assms by (cases x) simp_all
  then show "takeWhile P (takeWhile P cs @ x) = takeWhile P cs" "dropWhile P (takeWhile P cs @ x) = x"
    by (induction cs) simp_all
qed

lemma utf8_chars_take: "utf8_chars (concat (take n (utf8_chars s))) = take n (utf8_chars s)"
proof (induction s arbitrary: n rule: utf8_chars.induct)
  case (2 c cs)
  show ?case
  proof (cases n)
    case (Suc m)
    let ?rest = "dropWhile utf8_cont cs"
    let ?x = "concat (take m (utf8_chars ?rest))"
    have "prefix ?x ?rest"
      by (metis append_take_drop_id concat_append concat_utf8_chars prefixI)
    then have "?x = [] \<or> \<not> utf8_cont (hd ?x)"
      using hd_dropWhile [of utf8_cont cs] by (metis hd_append2 append_is_Nil_conv prefix_def)
    note tw = while_append [of ?x utf8_cont, OF this]
    have "concat (take n (utf8_chars (c # cs))) = c # takeWhile utf8_cont cs @ ?x"
      by (simp add: Suc)
    then have "utf8_chars (concat (take n (utf8_chars (c # cs))))
        = (c # takeWhile utf8_cont cs) # utf8_chars ?x"
      by (simp only: utf8_chars.simps tw)
    also have "\<dots> = take n (utf8_chars (c # cs))" by (simp only: 2) (simp add: Suc)
    finally show ?thesis .
  qed simp
qed simp

lemma char_count_ascii: "\<forall>c \<in> set s. \<not> utf8_cont c \<Longrightarrow> char_count s = length s"
  by (simp add: utf8_chars_ascii)

lemma show_nat_ascii: "c \<in> set (show_nat n) \<Longrightarrow> \<not> utf8_cont c"
proof (induction n rule: show_nat.induct)
  case (1 n)
  have "\<not> utf8_cont (digit (n mod 10))" by (simp add: digit_def utf8_cont_def)
  moreover have "n < 10 \<Longrightarrow> \<not> utf8_cont (digit n)" by (simp add: digit_def utf8_cont_def)
  ultimately show ?case using 1 by (auto split: if_splits simp del: show_nat.simps simp: show_nat.simps [of n])
qed

lemma marker_ascii: "\<forall>c \<in> set (omission_marker n). \<not> utf8_cont c"
  by (auto simp: omission_marker_def dest: show_nat_ascii) (auto simp: utf8_cont_def)

lemma length_show_nat_mono: "a \<le> b \<Longrightarrow> length (show_nat a) \<le> length (show_nat b)"
proof (induction b arbitrary: a rule: less_induct)
  case (less b)
  show ?case
  proof (cases "a < 10")
    case True
    then show ?thesis by (simp add: show_nat.simps [of a] show_nat.simps [of b])
  next
    case False
    then have "a div 10 \<le> b div 10" "b div 10 < b" using less.prems by (simp_all add: div_le_mono)
    then have "length (show_nat (a div 10)) \<le> length (show_nat (b div 10))" using less.IH by blast
    then show ?thesis using False less.prems by (simp add: show_nat.simps [of a] show_nat.simps [of b])
  qed
qed

text \<open>`k` of `n` characters fit within the cap together with the marker for the others.\<close>

definition fits :: "nat \<Rightarrow> nat \<Rightarrow> nat \<Rightarrow> bool" where
  "fits n cap k \<longleftrightarrow> k + length (omission_marker (n - k)) \<le> cap"

lemma fits_marker: "fits n cap k \<Longrightarrow> k \<le> kept \<Longrightarrow> k + length (omission_marker (n - kept)) \<le> cap"
  using length_show_nat_mono [OF diff_le_mono2, of k kept n] by (simp add: fits_def omission_marker_def)

text \<open>The loop finds the most characters that fit, if any number does.\<close>

lemma cut_from_fits:
  assumes "\<And>k. fits (length chars) cap k \<Longrightarrow> k \<le> kept"
  shows "(\<nexists>k. fits (length chars) cap k) \<and> cut_from chars cap kept = take cap chars
    \<or> (\<exists>k. fits (length chars) cap k \<and> (\<forall>j. fits (length chars) cap j \<longrightarrow> j \<le> k)
        \<and> cut_from chars cap kept = take ((k + 1) div 2) chars
          @ map (\<lambda>c. [c]) (omission_marker (length chars - k)) @ drop (length chars - k div 2) chars)"
  using assms
proof (induction chars cap kept rule: cut_from.induct)
  case (1 chars cap kept)
  let ?m = "omission_marker (length chars - kept)"
  note marker = fits_marker [of "length chars" cap _ kept, OF _ 1(2)]
  consider "length ?m > cap" | "length ?m \<le> cap" "cap - length ?m \<ge> kept" | "length ?m \<le> cap" "cap - length ?m < kept"
    by linarith
  then show ?case
  proof cases
    case 1
    then have "\<nexists>k. fits (length chars) cap k" using marker by fastforce
    then show ?thesis using 1 by (simp add: cut_from.simps [of chars cap kept])
  next
    case 2
    then have "fits (length chars) cap kept" by (simp add: fits_def)
    then show ?thesis using 2 \<open>\<And>k. fits (length chars) cap k \<Longrightarrow> k \<le> kept\<close>
      by (intro disjI2 exI [of _ kept]) (simp add: cut_from.simps [of chars cap kept] Let_def)
  next
    case 3
    have "k \<le> cap - length ?m" if "fits (length chars) cap k" for k using marker [OF that that] by simp
    from 1(1) [OF refl _ refl _ this] 3 show ?thesis
      by (simp add: cut_from.simps [of chars cap kept] Let_def)
  qed
qed

text \<open>
  C28. Truncation ends, never gives more characters than the cap, and leaves a text within the cap
  unchanged.  A longer text keeps the most characters that fit beside a marker for the others, half
  of them (rounded up) from its head and the rest from its tail, and the marker between them says
  exactly how many are missing; only when no marker fits at all is it cut to its first characters.
\<close>
theorem truncate_within_cap:
  "char_count (truncate_text body cap) \<le> cap
    \<and> (if char_count body \<le> cap then truncate_text body cap = body
       else if \<exists>k. fits (char_count body) cap k
       then \<exists>k hd_part mid tl_part. fits (char_count body) cap k
         \<and> {j. fits (char_count body) cap j} \<subseteq> {..k}
         \<and> body = hd_part @ mid @ tl_part
         \<and> char_count hd_part = (k + 1) div 2 \<and> char_count mid = char_count body - k
         \<and> char_count tl_part = k div 2
         \<and> truncate_text body cap = hd_part @ omission_marker (char_count mid) @ tl_part
       else truncate_text body cap = concat (take cap (utf8_chars body)))"
proof (cases "char_count body \<le> cap")
  case False
  let ?cs = "utf8_chars body"
  have "fits (length ?cs) cap k \<Longrightarrow> k \<le> cap" for k by (simp add: fits_def)
  from cut_from_fits [of ?cs cap cap, OF this]
  consider "\<nexists>k. fits (length ?cs) cap k" "cut_from ?cs cap cap = take cap ?cs"
    | k where "fits (length ?cs) cap k" "\<forall>j. fits (length ?cs) cap j \<longrightarrow> j \<le> k"
      "cut_from ?cs cap cap = take ((k + 1) div 2) ?cs
        @ map (\<lambda>c. [c]) (omission_marker (length ?cs - k)) @ drop (length ?cs - k div 2) ?cs" by blast
  then show ?thesis
  proof cases
    case 1
    have "char_count (concat (take cap ?cs)) \<le> cap" by (simp add: utf8_chars_take)
    then show ?thesis using 1 False by (simp add: truncate_text_def Let_def)
  next
    case (2 k)
    let ?m = "omission_marker (length ?cs - k)"
    let ?h = "take ((k + 1) div 2) ?cs" and ?t = "drop (length ?cs - k div 2) ?cs"
    let ?mid = "take (length ?cs - k) (drop ((k + 1) div 2) ?cs)"
    have t: "truncate_text body cap = concat ?h @ ?m @ concat ?t"
      using 2(3) False by (simp add: truncate_text_def Let_def concat_map_singleton)
    have k: "k < length ?cs" using 2(1) False unfolding fits_def by linarith
    have kk: "(k + 1) div 2 + k div 2 = k" by presburger
    have h: "char_count (concat ?h) = (k + 1) div 2" using k kk unfolding utf8_chars_take length_take by linarith
    have tl: "char_count (concat ?t) = k div 2" using k kk unfolding utf8_chars_drop length_drop by linarith
    have "char_count ?m = length ?m" using marker_ascii by (rule char_count_ascii)
    then have "char_count (truncate_text body cap) \<le> cap"
      using char_count_append [of "concat ?h" "?m @ concat ?t"] char_count_append [of ?m "concat ?t"]
        2(1) h tl kk unfolding t fits_def by linarith
    moreover have cut: "?cs = ?h @ ?mid @ ?t"
    proof -
      have "length ?cs - k + (k + 1) div 2 = length ?cs - k div 2" using kk k by linarith
      then have "drop (length ?cs - k) (drop ((k + 1) div 2) ?cs) = ?t" by simp
      then show ?thesis by (metis append_take_drop_id)
    qed
    then have "body = concat ?h @ concat ?mid @ concat ?t" by (metis concat_append concat_utf8_chars)
    moreover have mid: "char_count (concat ?mid) = length ?cs - k"
      using utf8_chars_take [of "length ?cs - k" "concat (drop ((k + 1) div 2) ?cs)"] k kk
      by (simp add: utf8_chars_drop)
    moreover have "{j. fits (length ?cs) cap j} \<subseteq> {..k}" using 2(2) by auto
    ultimately show ?thesis using t False 2(1) h tl
      by (simp only: if_False) (metis (no_types, lifting) if_P)
  qed
qed (simp add: truncate_text_def)

end
