(* ===== verification/Attempts.thy ===== *)
theory Attempts
  imports Ledger_Props Provider Trace
begin

text \<open>
  One provider request of a node: `Runtime::attempts` of `crates/core/src/runtime.rs` with its
  reservation guard.  What the code waits for (a slot, the provider, the trace, the clock, the
  other agents) is an environment, one record per turn of the retry loop; the operations the
  other agents run on the shared ledger meanwhile are part of it, and can settle their own
  reservations but not the one held here, which `ReservationGuard` owns.
\<close>

section \<open>Outcomes\<close>

type_synonym stream_result = "provider_error + (model_response \<times> (string \<times> string) list)"

datatype call_error = CallBudget | CallProvider provider_error | CallInternal string

datatype call_result =
    Answered model_response "(string \<times> string) list"
  | CallFailed call_error
  | Unwound
  | OutOfEnvironment

text \<open>
  How a dispatched request ends: stopped before it was dispatched; the stream finished first;
  cancelled or timed out, with what the provider still gave within the grace period and whether
  the node was stopped when the grace ran out and afterwards; or a panic.
\<close>

datatype dispatch =
    StoppedBefore
  | Streamed stream_result
  | Interrupted "stream_result option" bool bool
  | DispatchPanic

record attempt_env =
  ev_slot :: bool
  ev_stopped :: bool
  ev_before :: "ledger_op list"
  ev_start_write :: "string option"
  ev_dropped :: "bool option"
  ev_dispatch :: dispatch
  ev_partial :: bool
  ev_during :: "ledger_op list"
  ev_end_write :: "string option"
  ev_ms :: u64
  ev_stopped_after :: bool
  ev_random :: rat
  ev_reset_write :: "string option"
  ev_woken :: bool

fun dispatch_result :: "dispatch \<Rightarrow> stream_result" where
  "dispatch_result StoppedBefore = Inl (NotSent ''cancelled before dispatch'')"
| "dispatch_result (Streamed r) = r"
| "dispatch_result (Interrupted late stopped_at_grace stopped_now) =
     (let r = (case late of Some r \<Rightarrow> r
        | None \<Rightarrow> Inl (if stopped_at_grace then ProviderCancelled else IdleTimeout))
      in if r = Inl ProviderCancelled \<and> \<not> stopped_now then Inl IdleTimeout else r)"
| "dispatch_result DispatchPanic = Inl (ProviderOther ''provider task panicked'')"

section \<open>The ledger meanwhile\<close>

text \<open>The operations of the other agents that can happen: on existing nodes, settling only
  reservations that exist and are not the one held here.\<close>

definition op_allowed :: "u64 option \<Rightarrow> ledger \<Rightarrow> ledger_op \<Rightarrow> bool" where
  "op_allowed own l op = (op_valid l op \<and>
     (case op of Settle r _ \<Rightarrow> own \<noteq> Some (rv_id r) | _ \<Rightarrow> True))"

fun other_ops :: "u64 option \<Rightarrow> ledger_op list \<Rightarrow> ledger \<Rightarrow> ledger" where
  "other_ops own [] l = l"
| "other_ops own (op # ops) l =
     (if op_allowed own l op
      then case ledger_step l op of None \<Rightarrow> other_ops own ops l | Some l' \<Rightarrow> other_ops own ops l'
      else other_ops own ops l)"

section \<open>One attempt\<close>

fun charge_for :: "stream_result \<Rightarrow> charge" where
  "charge_for (Inr (resp, _)) = ChargeUsage (rs_usage resp)"
| "charge_for (Inl e) = ChargeFailed (error_charge e)"

text \<open>The charge of a guard that is dropped with its reservation unsettled, when the attempt
  unwinds before (False) or after (True) the dispatch.\<close>

definition guard_drop :: "bool \<Rightarrow> charge" where
  "guard_drop dispatched = ChargeFailed (if dispatched then Reserved else Zero)"

text \<open>What the loop did with its reservations, in order.\<close>

datatype guard_event = Reserved_ev reservation | Settled_ev reservation charge settlement

definition attempt_start :: "node_id \<Rightarrow> model_ref \<Rightarrow> reservation \<Rightarrow> trace_event" where
  "attempt_start n model r = AttemptStart n (rv_id r) (model_ref_display model) (rv_tokens r) (rv_max_tokens r)"

definition attempt_end_event :: "node_id \<Rightarrow> reservation \<Rightarrow> settlement \<Rightarrow> u64 \<Rightarrow> stream_result \<Rightarrow> trace_event" where
  "attempt_end_event n r st ms res = AttemptEnd \<lparr>ae_node = n, ae_attempt = rv_id r,
     ae_request_id = (case res of Inr (resp, _) \<Rightarrow> rs_id resp | Inl _ \<Rightarrow> None),
     ae_outcome = (case res of Inr _ \<Rightarrow> ''completed'' | Inl e \<Rightarrow> provider_error_display e),
     ae_charged = st_charged st, ae_excess = st_excess st,
     ae_usage = (case res of Inr (resp, _) \<Rightarrow> Some (rs_usage resp) | Inl _ \<Rightarrow> None),
     ae_stop_reason = (case res of Inr (resp, _) \<Rightarrow> Some (rs_stop_reason resp) | Inl _ \<Rightarrow> None),
     ae_ms = ms\<rparr>"

record attempt_log =
  al_guard :: "guard_event list"
  al_trace :: "trace_event list"

definition log_guard :: "guard_event list \<Rightarrow> attempt_log \<Rightarrow> attempt_log" where
  "log_guard gs lg = lg\<lparr>al_guard := al_guard lg @ gs\<rparr>"

definition log_trace :: "trace_event list \<Rightarrow> attempt_log \<Rightarrow> attempt_log" where
  "log_trace es lg = lg\<lparr>al_trace := al_trace lg @ es\<rparr>"

text \<open>
  What follows a settled attempt: the end record, a panic or an answer, or the decision whether
  to retry; Inr is the number of failures and of unhinted 429 answers to go on with.
\<close>

definition after_attempt :: "retry_policy \<Rightarrow> attempt_env \<Rightarrow> stream_result \<Rightarrow> nat \<Rightarrow> nat
    \<Rightarrow> call_result + (nat \<times> nat)" where
  "after_attempt policy ev res failures unhinted =
     (case ev_end_write ev of
        Some e \<Rightarrow> Inl (CallFailed (CallInternal e))
      | None \<Rightarrow>
          if ev_dispatch ev = DispatchPanic then Inl Unwound
          else case res of
            Inr (resp, invalid) \<Rightarrow> Inl (Answered resp invalid)
          | Inl error \<Rightarrow>
              if ev_stopped_after ev then Inl (CallFailed (CallProvider ProviderCancelled))
              else
                let failures' = failures + 1;
                    unhinted' = (if is_http_429 error \<and> error_retry_after error = None
                      then unhinted + 1 else unhinted)
                in case next_delay policy error failures' unhinted' (ev_random ev) of
                     None \<Rightarrow> Inl (CallFailed (CallProvider error))
                   | Some delay \<Rightarrow>
                       if ev_partial ev \<and> ev_reset_write ev \<noteq> None
                       then Inl (CallFailed (CallInternal (the (ev_reset_write ev))))
                       else if \<not> ev_woken ev then Inl (CallFailed (CallProvider ProviderCancelled))
                       else Inr (failures', unhinted'))"

definition reset_events :: "retry_policy \<Rightarrow> node_id \<Rightarrow> attempt_env \<Rightarrow> stream_result \<Rightarrow> nat \<Rightarrow> nat
    \<Rightarrow> trace_event list" where
  "reset_events policy n ev res failures unhinted =
     (case after_attempt policy (ev\<lparr>ev_reset_write := None, ev_woken := True\<rparr>) res failures unhinted of
        Inr _ \<Rightarrow> if ev_partial ev then [StreamReset n] else []
      | Inl _ \<Rightarrow> [])"

text \<open>None is a panic of the ledger.\<close>

fun attempt_loop :: "retry_policy \<Rightarrow> node_id \<Rightarrow> model_ref \<Rightarrow> u64 \<Rightarrow> u32 \<Rightarrow> nat \<Rightarrow> nat
    \<Rightarrow> attempt_env list \<Rightarrow> attempt_log \<Rightarrow> ledger \<Rightarrow> (call_result \<times> attempt_log \<times> ledger) option" where
  "attempt_loop policy n model prompt max_tokens failures unhinted [] lg l =
     Some (OutOfEnvironment, lg, l)"
| "attempt_loop policy n model prompt max_tokens failures unhinted (ev # evs) lg l0 =
     (if \<not> ev_slot ev \<or> ev_stopped ev
      then Some (CallFailed (CallProvider ProviderCancelled), lg, l0)
      else
        let l = other_ops None (ev_before ev) l0
        in case reserve l n prompt max_tokens of
          None \<Rightarrow> None
        | Some (Inl _, l1) \<Rightarrow> Some (CallFailed CallBudget, lg, l1)
        | Some (Inr r, l1) \<Rightarrow>
            let lg1 = log_trace [attempt_start n model r] (log_guard [Reserved_ev r] lg);
                l2 = other_ops (Some (rv_id r)) (ev_during ev) l1
            in case (ev_start_write ev, ev_dropped ev) of
              (Some e, _) \<Rightarrow>
                (case settle l2 r (ChargeFailed Zero) of
                   None \<Rightarrow> None
                 | Some (st, l3) \<Rightarrow> Some (CallFailed (CallInternal e),
                     log_guard [Settled_ev r (ChargeFailed Zero) st] lg1, l3))
            | (None, Some dispatched) \<Rightarrow>
                (case settle l2 r (guard_drop dispatched) of
                   None \<Rightarrow> None
                 | Some (st, l3) \<Rightarrow> Some (Unwound,
                     log_guard [Settled_ev r (guard_drop dispatched) st] lg1, l3))
            | (None, None) \<Rightarrow>
                (let res = dispatch_result (ev_dispatch ev) in
                 case settle l2 r (charge_for res) of
                   None \<Rightarrow> None
                 | Some (st, l3) \<Rightarrow>
                     let lg2 = log_trace (attempt_end_event n r st (ev_ms ev) res
                           # reset_events policy n ev res failures unhinted)
                         (log_guard [Settled_ev r (charge_for res) st] lg1)
                     in case after_attempt policy ev res failures unhinted of
                          Inl done \<Rightarrow> Some (done, lg2, l3)
                        | Inr (failures', unhinted') \<Rightarrow>
                            attempt_loop policy n model prompt (rv_max_tokens r) failures' unhinted'
                              evs lg2 l3))"

section \<open>A call\<close>

datatype info_result = InfoStopped | InfoTimedOut | InfoFailed provider_error | InfoKnown model_info

record call_env =
  ce_stopped :: bool
  ce_info :: info_result
  ce_attempts :: "attempt_env list"

definition empty_log :: attempt_log where
  "empty_log = \<lparr>al_guard = [], al_trace = []\<rparr>"

definition attempts ::
    "(content_block list \<Rightarrow> string) \<Rightarrow> (tool_spec list \<Rightarrow> string) \<Rightarrow> string list \<Rightarrow> limits
      \<Rightarrow> retry_policy \<Rightarrow> node_id \<Rightarrow> model_ref \<Rightarrow> model_request \<Rightarrow> (usage \<times> nat) option
      \<Rightarrow> call_env \<Rightarrow> ledger \<Rightarrow> (call_result \<times> attempt_log \<times> ledger) option" where
  "attempts ser_content ser_tools providers limits policy n model request previous env l =
     (if mref_provider model \<notin> set providers
      then Some (CallFailed (CallInternal (''unknown provider: '' @ mref_provider model)), empty_log, l)
      else if ce_stopped env then Some (CallFailed (CallProvider ProviderCancelled), empty_log, l)
      else case ce_info env of
        InfoStopped \<Rightarrow> Some (CallFailed (CallProvider ProviderCancelled), empty_log, l)
      | InfoTimedOut \<Rightarrow> Some (CallFailed (CallProvider IdleTimeout), empty_log, l)
      | InfoFailed e \<Rightarrow> Some (CallFailed (CallProvider e), empty_log, l)
      | InfoKnown info \<Rightarrow>
          let max_tokens = min (mr_max_tokens request)
                (case mi_max_output_tokens info of Some m \<Rightarrow> m | None \<Rightarrow> lim_max_output_tokens limits);
              prompt = estimate ser_content ser_tools (request\<lparr>mr_max_tokens := max_tokens\<rparr>) previous
          in attempt_loop policy n model prompt max_tokens 0 0 (ce_attempts env) empty_log l)"

text \<open>`status_for`, with the status of a cancelled node as `cancel_status` gives it.\<close>

definition cancel_status :: "bool \<Rightarrow> status" where
  "cancel_status past_deadline = (if past_deadline then Timeout else CancelledStatus)"

fun status_for :: "call_error \<Rightarrow> bool \<Rightarrow> status" where
  "status_for CallBudget past_deadline = BudgetExhaustedStatus"
| "status_for (CallProvider ProviderCancelled) past_deadline = cancel_status past_deadline"
| "status_for (CallProvider (ContextTooLarge _)) past_deadline = ContextExhausted"
| "status_for (CallProvider (Http s _ _)) past_deadline = (if s = 413 then ContextExhausted else Failed)"
| "status_for _ past_deadline = Failed"

text \<open>The messages of the errors.\<close>

fun call_error_display :: "call_error \<Rightarrow> string" where
  "call_error_display CallBudget = ''budget exhausted''"
| "call_error_display (CallProvider e) = provider_error_display e"
| "call_error_display (CallInternal e) = e"

end
