(* ===== verification/Guarded_Store.thy ===== *)
theory Guarded_Store
  imports Ledger_Props
begin

text \<open>
  The interface between a holder of a reservation and the store it reserves from, which others use
  at the same time: what is taken is fresh, stays held until its holder gives it back, can then
  be given back, and is never held again.  The ledger interprets it.
\<close>

locale guarded_store =
  fixes ok :: "'s \<Rightarrow> bool"
    and held :: "'s \<Rightarrow> 'i set"
    and spent :: "'s \<Rightarrow> 'i \<Rightarrow> bool"
    and take_item :: "'s \<Rightarrow> 'r \<Rightarrow> ('i \<times> 's) option"
    and give :: "'s \<Rightarrow> 'i \<Rightarrow> 'c \<Rightarrow> 's option"
    and other :: "'s \<Rightarrow> 'o \<Rightarrow> 's option"
    and gives :: "'o \<Rightarrow> 'i option"
  assumes take_law: "ok s \<Longrightarrow> take_item s r = Some (i, s') \<Longrightarrow>
      ok s' \<and> i \<notin> held s \<and> held s' = insert i (held s) \<and> (spent s j \<longrightarrow> spent s' j)"
    and give_total: "ok s \<Longrightarrow> i \<in> held s \<Longrightarrow> \<exists>s'. give s i c = Some s'"
    and give_law: "ok s \<Longrightarrow> i \<in> held s \<Longrightarrow> give s i c = Some s' \<Longrightarrow>
      ok s' \<and> held s' = held s - {i} \<and> spent s' i \<and> (spent s j \<longrightarrow> spent s' j)"
    and other_law: "ok s \<Longrightarrow> other s x = Some s' \<Longrightarrow>
      ok s' \<and> (i \<in> held s \<longrightarrow> gives x \<noteq> Some i \<longrightarrow> i \<in> held s') \<and> (spent s j \<longrightarrow> spent s' j)"
    and spent_not_held: "spent s i \<Longrightarrow> i \<notin> held s"
begin

fun others :: "'i option \<Rightarrow> 'o list \<Rightarrow> 's \<Rightarrow> 's" where
  "others own [] s = s"
| "others own (x # xs) s =
     (if own \<noteq> None \<and> gives x = own then others own xs s
      else case other s x of None \<Rightarrow> others own xs s | Some s' \<Rightarrow> others own xs s')"

lemma others_keep:
  assumes "ok s"
  shows "ok (others own xs s)" "own = Some i \<Longrightarrow> i \<in> held s \<Longrightarrow> i \<in> held (others own xs s)"
    "spent s j \<Longrightarrow> spent (others own xs s) j"
proof -
  have "ok (others own xs s) \<and> (own = Some i \<longrightarrow> i \<in> held s \<longrightarrow> i \<in> held (others own xs s))
      \<and> (spent s j \<longrightarrow> spent (others own xs s) j)"
    using assms
  proof (induction xs arbitrary: s)
    case (Cons x xs)
    show ?case
    proof (cases "other s x")
      case (Some s')
      then show ?thesis using other_law [OF Cons.prems Some, of i j] Cons.IH [of s] Cons.IH [of s'] Cons.prems
        by auto
    qed (use Cons in auto)
  qed simp
  then show "ok (others own xs s)" "own = Some i \<Longrightarrow> i \<in> held s \<Longrightarrow> i \<in> held (others own xs s)"
    "spent s j \<Longrightarrow> spent (others own xs s) j" by blast+
qed

text \<open>Whatever the others do meanwhile, the holder can give back what it took, and it is gone for good.\<close>

lemma hold_then_give:
  assumes "ok s" "take_item s r = Some (i, s1)"
  shows "\<exists>s2. give (others (Some i) xs s1) i c = Some s2 \<and> ok s2 \<and> spent s2 i \<and> (spent s j \<longrightarrow> spent s2 j)"
proof -
  note t = take_law [OF assms, of j]
  then have o: "ok (others (Some i) xs s1)" "i \<in> held (others (Some i) xs s1)"
    using others_keep(1,2) [of s1 "Some i"] by auto
  then obtain s2 where g: "give (others (Some i) xs s1) i c = Some s2" using give_total by blast
  then show ?thesis
    using give_law [OF o g, of i] give_law [OF o g, of j] t others_keep(3) [of s1 j] by auto
qed

end

section \<open>The ledger\<close>

definition held_ids :: "ledger \<Rightarrow> u64 set" where
  "held_ids l = fst ` set (lg_attempts l)"

definition spent_id :: "ledger \<Rightarrow> u64 \<Rightarrow> bool" where
  "spent_id l i \<longleftrightarrow> i \<notin> held_ids l \<and> i < lg_next_attempt l"

definition take_reservation :: "ledger \<Rightarrow> node_id \<times> u64 \<times> u32 \<Rightarrow> (u64 \<times> ledger) option" where
  "take_reservation l = (\<lambda>(n, prompt, max_tokens).
     if lg_next_attempt l = - 1 then None
     else case reserve l n prompt max_tokens of
            Some (Inr r, l') \<Rightarrow> Some (rv_id r, l')
          | _ \<Rightarrow> None)"

definition give_back :: "ledger \<Rightarrow> u64 \<Rightarrow> charge \<Rightarrow> ledger option" where
  "give_back l i c = map_option snd (settle l \<lparr>rv_id = i, rv_tokens = 0, rv_max_tokens = 0\<rparr> c)"

definition other_step :: "ledger \<Rightarrow> ledger_op \<Rightarrow> ledger option" where
  "other_step l op = (if lg_next_attempt l = - 1 \<or> \<not> op_valid l op then None else ledger_step l op)"

fun op_settles :: "ledger_op \<Rightarrow> u64 option" where
  "op_settles (Settle r _) = Some (rv_id r)"
| "op_settles _ = None"

lemma settle_id: "settle l r c = settle l \<lparr>rv_id = rv_id r, rv_tokens = 0, rv_max_tokens = 0\<rparr> c"
  unfolding settle_def by (simp only: reservation.select_convs)

lemma held_ids_dom: "held_ids l = dom (map_of (lg_attempts l))"
  by (simp add: held_ids_def dom_map_of_conv_image_fst)

lemma settle_held:
  assumes "ledger_inv l" "settle l r c = Some (st, l')"
  shows "held_ids l' = held_ids l - {rv_id r}" "lg_next_attempt l' = lg_next_attempt l" "rv_id r \<in> held_ids l"
proof -
  have "\<exists>x. map_of (lg_attempts l) (rv_id r) = Some x" "lg_next_attempt l' = lg_next_attempt l"
    "lg_attempts l' = AList.delete (rv_id r) (lg_attempts l)"
    using assms(2) by (auto simp: settle_def Let_def split: option.splits prod.splits)
  then show "held_ids l' = held_ids l - {rv_id r}" "lg_next_attempt l' = lg_next_attempt l"
    "rv_id r \<in> held_ids l"
    by (auto simp: held_ids_dom delete_conv')
qed

lemma held_less_next: "ledger_inv l \<Longrightarrow> i \<in> held_ids l \<Longrightarrow> i < lg_next_attempt l"
  by (fastforce simp: held_ids_def dest!: ledger_invD(6) simp: inv_attempts_def)

lemma reserve_held:
  assumes "ledger_inv l" "lg_next_attempt l \<noteq> - 1" "reserve l n prompt mt = Some (Inr r, l')"
  shows "rv_id r \<notin> held_ids l" "held_ids l' = insert (rv_id r) (held_ids l)"
    "rv_id r = lg_next_attempt l" "lg_next_attempt l' = lg_next_attempt l + 1"
    "lg_next_attempt l < lg_next_attempt l'"
proof -
  note r = reserve_InrD(5,6) [OF assms(3,1)]
  show id: "rv_id r = lg_next_attempt l" "lg_next_attempt l' = lg_next_attempt l + 1" using r by simp_all
  show "lg_next_attempt l < lg_next_attempt l'"
    using unat_succ_not_max [OF assms(2)] by (simp add: id word_less_nat_alt)
  show "rv_id r \<notin> held_ids l" using held_less_next [OF assms(1)] by (auto simp: id)
  show "held_ids l' = insert (rv_id r) (held_ids l)"
    by (simp add: held_ids_dom r(2) id update_conv')
qed

lemma step_held:
  assumes "ledger_inv l" "lg_next_attempt l \<noteq> - 1" "ledger_step l op = Some l'"
  shows "i \<in> held_ids l \<Longrightarrow> op_settles op \<noteq> Some i \<Longrightarrow> i \<in> held_ids l'"
    "spent_id l i \<Longrightarrow> spent_id l' i"
proof -
  have "(i \<in> held_ids l \<longrightarrow> op_settles op \<noteq> Some i \<longrightarrow> i \<in> held_ids l') \<and> (spent_id l i \<longrightarrow> spent_id l' i)"
  proof (cases op)
    case (Admit p agent b)
    then have "lg_attempts l' = lg_attempts l \<and> lg_next_attempt l' = lg_next_attempt l"
      using assms(3) by (auto simp: admit_def Let_def admit_scope_def split: if_splits option.splits)
    then show ?thesis by (simp add: held_ids_def spent_id_def)
  next
    case (Reserve n prompt mt)
    then obtain res where r: "reserve l n prompt mt = Some (res, l')" using assms(3) by auto
    show ?thesis
    proof (cases res)
      case (Inl e)
      then show ?thesis using reserve_Inl_same r by blast
    next
      case (Inr rv)
      note h = reserve_held [OF assms(1,2) r [unfolded Inr]]
      show ?thesis using h(2,3,5) by (auto simp: spent_id_def)
    qed
  next
    case (Settle r c)
    then obtain st where s: "settle l r c = Some (st, l')" using assms(3) by auto
    show ?thesis using settle_held [OF assms(1) s] Settle by (auto simp: spent_id_def)
  qed (use assms(3) in \<open>auto simp: close_admission_def shutdown_def held_ids_def spent_id_def
      split: if_splits\<close>)
  then show "i \<in> held_ids l \<Longrightarrow> op_settles op \<noteq> Some i \<Longrightarrow> i \<in> held_ids l'"
    "spent_id l i \<Longrightarrow> spent_id l' i" by blast+
qed

interpretation reservations: guarded_store ledger_inv held_ids spent_id take_reservation give_back
  other_step op_settles
proof
  fix s r i s' j
  assume a: "ledger_inv s" "take_reservation s r = Some (i, s')"
  then obtain n prompt mt rv where r: "r = (n, prompt, mt)" "lg_next_attempt s \<noteq> - 1"
    "reserve s n prompt mt = Some (Inr rv, s')" "i = rv_id rv"
    by (auto simp: take_reservation_def split: if_splits option.splits sum.splits prod.splits)
  note h = reserve_held [OF a(1) r(2,3)]
  show "ledger_inv s' \<and> i \<notin> held_ids s \<and> held_ids s' = insert i (held_ids s) \<and> (spent_id s j \<longrightarrow> spent_id s' j)"
    using reserve_inv [OF a(1) r(3,2)] h by (auto simp: r(4) spent_id_def)
next
  fix s i c
  assume a: "ledger_inv s" "i \<in> held_ids s"
  then have "map_of (lg_attempts s) i \<noteq> None"
    by (auto simp: held_ids_def map_of_eq_None_iff)
  then show "\<exists>s'. give_back s i c = Some s'"
    using settle_total [OF a(1), of "\<lparr>rv_id = i, rv_tokens = 0, rv_max_tokens = 0\<rparr>" c]
    by (auto simp: give_back_def)
next
  fix s i c s' j
  assume a: "ledger_inv s" "i \<in> held_ids s" "give_back s i c = Some s'"
  then obtain st where s: "settle s \<lparr>rv_id = i, rv_tokens = 0, rv_max_tokens = 0\<rparr> c = Some (st, s')"
    by (auto simp: give_back_def)
  show "ledger_inv s' \<and> held_ids s' = held_ids s - {i} \<and> spent_id s' i \<and> (spent_id s j \<longrightarrow> spent_id s' j)"
    using settle_inv [OF a(1) s] settle_held [OF a(1) s] held_less_next [OF a(1,2)] by (auto simp: spent_id_def)
next
  fix s x s' i j
  assume a: "ledger_inv s" "other_step s x = Some s'"
  then have "lg_next_attempt s \<noteq> - 1" "ledger_step s x = Some s'"
    by (auto simp: other_step_def split: if_splits)
  then show "ledger_inv s' \<and> (i \<in> held_ids s \<longrightarrow> op_settles x \<noteq> Some i \<longrightarrow> i \<in> held_ids s')
      \<and> (spent_id s j \<longrightarrow> spent_id s' j)"
    using ledger_step_inv [OF a(1)] step_held [OF a(1)] by blast
qed (simp add: spent_id_def)

end
