(* ===== verification/Attempts_Props.thy ===== *)
theory Attempts_Props
  imports Attempts Guarded_Store
begin

text \<open>
  What a request promises: every reservation it takes is settled exactly once, whatever happens to
  the request and whatever the other agents do to the ledger meanwhile, with the charge its
  outcome calls for; it never panics on its own account and ends within the retry budget.
\<close>

section \<open>The other agents\<close>

lemma other_step_bound:
  assumes "ledger_step l op = Some l'" "lg_next_attempt l \<noteq> - 1"
  shows "unat (lg_next_attempt l') \<le> unat (lg_next_attempt l) + 1"
  using ledger_step_next [OF assms(1)] unat_succ_not_max [OF assms(2)] by auto

lemma other_ops_others:
  assumes "ledger_inv l" "unat (lg_next_attempt l) + length ops < 2 ^ 64"
  shows "other_ops own ops l = reservations.others own ops l
    \<and> unat (lg_next_attempt (other_ops own ops l)) \<le> unat (lg_next_attempt l) + length ops"
  using assms
proof (induction ops arbitrary: l)
  case (Cons op ops)
  have nxt: "lg_next_attempt l \<noteq> - 1" using Cons.prems(2) by (auto simp: unat_minus_one_eq)
  have own: "op_allowed own l op \<longleftrightarrow> op_valid l op \<and> \<not> (own \<noteq> None \<and> op_settles op = own)"
    by (cases op; cases own) (auto simp: op_allowed_def)
  have st: "other_step l op = (if op_valid l op then ledger_step l op else None)"
    using nxt by (simp add: other_step_def)
  note same = Cons.IH [OF Cons.prems(1)]
  show ?case
  proof (cases "op_allowed own l op")
    case False
    then show ?thesis using same Cons.prems(2) own st by auto
  next
    case True
    show ?thesis
    proof (cases "ledger_step l op")
      case None
      then show ?thesis using same Cons.prems(2) own True st by auto
    next
      case (Some l')
      have "unat (lg_next_attempt l') \<le> unat (lg_next_attempt l) + 1"
        using other_step_bound [OF Some nxt] .
      then show ?thesis
        using Cons.IH [of l'] ledger_step_inv [OF Cons.prems(1) Some nxt] Cons.prems(2) own True Some st
        by auto
    qed
  qed
qed simp

section \<open>The guard\<close>

fun settled_once :: "guard_event list \<Rightarrow> bool" where
  "settled_once [] = True"
| "settled_once (Reserved_ev r # Settled_ev r' c st # gs) = (r' = r \<and> settled_once gs)"
| "settled_once _ = False"

lemma settled_once_append:
  "settled_once gs \<Longrightarrow> settled_once (gs @ [Reserved_ev r, Settled_ev r c st])"
  by (induction gs rule: settled_once.induct) simp_all

fun reserved_ids :: "guard_event list \<Rightarrow> u64 list" where
  "reserved_ids [] = []"
| "reserved_ids (Reserved_ev r # gs) = rv_id r # reserved_ids gs"
| "reserved_ids (_ # gs) = reserved_ids gs"

lemma reserved_ids_append [simp]: "reserved_ids (gs @ hs) = reserved_ids gs @ reserved_ids hs"
  by (induction gs rule: reserved_ids.induct) simp_all

text \<open>The identifiers an environment can use up.\<close>

definition env_ids :: "attempt_env \<Rightarrow> nat" where
  "env_ids ev = length (ev_before ev) + length (ev_during ev) + 1"

lemma one_attempt:
  assumes "ledger_inv l0" "unat (lg_next_attempt l0) + env_ids ev < 2 ^ 64"
    "l = other_ops None (ev_before ev) l0"
  shows "\<exists>res l1. reserve l n prompt mt = Some (res, l1) \<and> (\<forall>e. res = Inl e \<longrightarrow> ledger_inv l1
      \<and> (\<forall>j. spent_id l0 j \<longrightarrow> spent_id l1 j))
    \<and> (\<forall>r. res = Inr r \<longrightarrow> (\<exists>st l3. settle (other_ops (Some (rv_id r)) (ev_during ev) l1) r c = Some (st, l3)
         \<and> ledger_inv l3 \<and> spent_id l3 (rv_id r) \<and> (\<forall>j. spent_id l0 j \<longrightarrow> spent_id l3 j)
         \<and> unat (lg_next_attempt l3) \<le> unat (lg_next_attempt l0) + env_ids ev))"
proof -
  have before: "l = reservations.others None (ev_before ev) l0"
    "unat (lg_next_attempt l) \<le> unat (lg_next_attempt l0) + length (ev_before ev)"
    using other_ops_others [OF assms(1), of "ev_before ev" None] assms(2,3) by (auto simp: env_ids_def)
  note inv = reservations.others_keep(1) [OF assms(1), of None "ev_before ev", folded before(1)]
  have keep: "spent_id l0 j \<Longrightarrow> spent_id l j" for j
    using reservations.others_keep(3) [OF assms(1), of j None "ev_before ev"] before(1) by simp
  obtain res l1 where res: "reserve l n prompt mt = Some (res, l1)" using reserve_total [OF inv] by blast
  have nxt: "lg_next_attempt l \<noteq> - 1" using before(2) assms(2) by (auto simp: env_ids_def unat_minus_one_eq)
  have "ledger_inv l1 \<and> (\<forall>j. spent_id l0 j \<longrightarrow> spent_id l1 j)" if "res = Inl e" for e
    using reserve_Inl_same res that inv keep by blast
  moreover have "\<exists>st l3. settle (other_ops (Some (rv_id r)) (ev_during ev) l1) r c = Some (st, l3)
      \<and> ledger_inv l3 \<and> spent_id l3 (rv_id r) \<and> (\<forall>j. spent_id l0 j \<longrightarrow> spent_id l3 j)
      \<and> unat (lg_next_attempt l3) \<le> unat (lg_next_attempt l0) + env_ids ev" if r: "res = Inr r" for r
  proof -
    have tk: "take_reservation l (n, prompt, mt) = Some (rv_id r, l1)"
      using res r nxt by (simp add: take_reservation_def)
    note h = reserve_held [OF inv nxt res [unfolded r]]
    have "unat (lg_next_attempt l1) \<le> unat (lg_next_attempt l) + 1"
      using h(4) unat_succ_not_max [OF nxt] by simp
    then have d: "other_ops (Some (rv_id r)) (ev_during ev) l1 = reservations.others (Some (rv_id r)) (ev_during ev) l1"
      "unat (lg_next_attempt (other_ops (Some (rv_id r)) (ev_during ev) l1)) \<le> unat (lg_next_attempt l0) + env_ids ev"
      using other_ops_others [OF reserve_inv [OF inv res nxt], of "ev_during ev" "Some (rv_id r)"]
        before(2) assms(2) by (auto simp: env_ids_def)
    let ?l2 = "reservations.others (Some (rv_id r)) (ev_during ev) l1"
    have give: "\<exists>s2. give_back ?l2 (rv_id r) c = Some s2 \<and> ledger_inv s2 \<and> spent_id s2 (rv_id r)
        \<and> (spent_id l j \<longrightarrow> spent_id s2 j)" for j
      by (rule reservations.hold_then_give [OF inv tk])
    obtain l3 where gb: "give_back ?l2 (rv_id r) c = Some l3" using give by blast
    then obtain st where s: "settle ?l2 r c = Some (st, l3)"
      by (auto simp: give_back_def settle_id [of _ r c])
    have g: "ledger_inv l3 \<and> spent_id l3 (rv_id r) \<and> (spent_id l j \<longrightarrow> spent_id l3 j)" for j
      using give [of j] gb by simp
    have i2: "ledger_inv ?l2"
      using reservations.others_keep(1) [OF reserve_inv [OF inv res nxt]] by blast
    have "lg_next_attempt l3 = lg_next_attempt ?l2" by (rule settle_held(2) [OF i2 s])
    then show ?thesis using s g keep d by auto
  qed
  ultimately show ?thesis using res by blast
qed
section \<open>The loop\<close>

definition guard_ok :: "attempt_log \<Rightarrow> ledger \<Rightarrow> bool" where
  "guard_ok lg l \<longleftrightarrow> ledger_inv l \<and> settled_once (al_guard lg)
     \<and> (\<forall>i \<in> set (reserved_ids (al_guard lg)). spent_id l i)"

definition taken_count :: "attempt_log \<Rightarrow> nat" where
  "taken_count lg = length (reserved_ids (al_guard lg))"

lemma al_guard_log [simp]:
  "al_guard (log_guard gs lg) = al_guard lg @ gs" "al_guard (log_trace es lg) = al_guard lg"
  by (simp_all add: log_guard_def log_trace_def)

lemma guard_ok_settled:
  assumes "guard_ok lg l0" "ledger_inv l3" "spent_id l3 (rv_id r)" "\<forall>j. spent_id l0 j \<longrightarrow> spent_id l3 j"
    "al_guard lg' = al_guard lg @ [Reserved_ev r, Settled_ev r c st]"
  shows "guard_ok lg' l3" "taken_count lg' = taken_count lg + 1"
  using assms by (auto simp: guard_ok_def taken_count_def settled_once_append)

lemma after_attempt_Inr:
  assumes "after_attempt policy ev res failures unhinted = Inr (f', u')"
  shows "f' = failures + 1" "f' \<le> rp_max_retries policy"
  using assms
  by (auto simp: after_attempt_def Let_def split: option.splits if_splits sum.splits
      dest: next_delay_SomeD(2))

lemma after_attempt_Inl: "after_attempt policy ev res failures unhinted \<noteq> Inl OutOfEnvironment"
  by (auto simp: after_attempt_def Let_def split: option.splits if_splits sum.splits)

lemma attempt_loop_spec:
  assumes "guard_ok lg l" "unat (lg_next_attempt l) + sum_list (map env_ids evs) < 2 ^ 64"
    "failures \<le> rp_max_retries policy"
  shows "\<exists>res lg' l'. attempt_loop policy n model prompt mt failures unhinted evs lg l = Some (res, lg', l')
    \<and> guard_ok lg' l'
    \<and> taken_count lg' \<le> taken_count lg + (rp_max_retries policy + 1 - failures)
    \<and> (res = OutOfEnvironment \<longrightarrow> length evs + failures \<le> rp_max_retries policy)"
  using assms
proof (induction evs arbitrary: mt failures unhinted lg l)
  case (Cons ev evs)
  show ?case
  proof (cases "\<not> ev_slot ev \<or> ev_stopped ev")
    case True
    then show ?thesis using Cons.prems(1) by auto
  next
    case go: False
    let ?l = "other_ops None (ev_before ev) l"
    have inv: "ledger_inv l" using Cons.prems(1) by (simp add: guard_ok_def)
    have b: "unat (lg_next_attempt l) + env_ids ev < 2 ^ 64" using Cons.prems(2) by simp
    note one = one_attempt [OF inv b refl, of n prompt mt]
    obtain res l1 where r: "reserve ?l n prompt mt = Some (res, l1)" using one by blast
    show ?thesis
    proof (cases res)
      case (Inl e)
      have "ledger_inv l1 \<and> (\<forall>j. spent_id l j \<longrightarrow> spent_id l1 j)" using one r Inl by fastforce
      then have "guard_ok lg l1" using Cons.prems(1) by (auto simp: guard_ok_def)
      then show ?thesis using go r Inl by (auto simp: Let_def)
    next
      case (Inr rv)
      let ?l2 = "other_ops (Some (rv_id rv)) (ev_during ev) l1"
      have s: "\<exists>st l3. settle ?l2 rv c = Some (st, l3) \<and> ledger_inv l3 \<and> spent_id l3 (rv_id rv)
          \<and> (\<forall>j. spent_id l j \<longrightarrow> spent_id l3 j)
          \<and> unat (lg_next_attempt l3) \<le> unat (lg_next_attempt l) + env_ids ev" for c
        using one [of c] r Inr by fastforce
      have ends: "\<exists>res lg' l'. Some (out, lg2, l3) = Some (res, lg', l') \<and> guard_ok lg' l'
          \<and> taken_count lg' \<le> taken_count lg + (rp_max_retries policy + 1 - failures)
          \<and> (res = OutOfEnvironment \<longrightarrow> length (ev # evs) + failures \<le> rp_max_retries policy)"
        if "guard_ok lg2 l3" "taken_count lg2 = taken_count lg + 1" "out \<noteq> OutOfEnvironment" for out lg2 l3
        using that Cons.prems(3) by simp
      consider (unwritten) e where "ev_start_write ev = Some e"
        | (dropped) d where "ev_start_write ev = None" "ev_dropped ev = Some d"
        | (sent) "ev_start_write ev = None" "ev_dropped ev = None"
        by (cases "ev_start_write ev"; cases "ev_dropped ev") auto
      then show ?thesis
      proof cases
        case unwritten
        obtain st l3 where s3: "settle ?l2 rv (ChargeFailed Zero) = Some (st, l3)" "ledger_inv l3"
          "spent_id l3 (rv_id rv)" "\<forall>j. spent_id l j \<longrightarrow> spent_id l3 j" using s by blast
        let ?lg = "log_guard [Settled_ev rv (ChargeFailed Zero) st]
          (log_trace [attempt_start n model rv] (log_guard [Reserved_ev rv] lg))"
        note g = guard_ok_settled [OF Cons.prems(1) s3(2-4), of ?lg "ChargeFailed Zero" st]
        show ?thesis using ends [OF g, of "CallFailed (CallInternal e)"] go r Inr unwritten s3(1) by (simp add: Let_def)
      next
        case dropped
        obtain st l3 where s3: "settle ?l2 rv (guard_drop d) = Some (st, l3)" "ledger_inv l3"
          "spent_id l3 (rv_id rv)" "\<forall>j. spent_id l j \<longrightarrow> spent_id l3 j" using s by blast
        let ?lg = "log_guard [Settled_ev rv (guard_drop d) st]
          (log_trace [attempt_start n model rv] (log_guard [Reserved_ev rv] lg))"
        note g = guard_ok_settled [OF Cons.prems(1) s3(2-4), of ?lg "guard_drop d" st]
        show ?thesis using ends [OF g, of Unwound] go r Inr dropped s3(1) by (simp add: Let_def)
      next
        case sent
        let ?res = "dispatch_result (ev_dispatch ev)"
        obtain st l3 where s3: "settle ?l2 rv (charge_for ?res) = Some (st, l3)" "ledger_inv l3"
          "spent_id l3 (rv_id rv)" "\<forall>j. spent_id l j \<longrightarrow> spent_id l3 j"
          "unat (lg_next_attempt l3) \<le> unat (lg_next_attempt l) + env_ids ev" using s by blast
        let ?lg = "log_trace (attempt_end_event n rv st (ev_ms ev) ?res
            # reset_events policy n ev ?res failures unhinted)
          (log_guard [Settled_ev rv (charge_for ?res) st]
            (log_trace [attempt_start n model rv] (log_guard [Reserved_ev rv] lg)))"
        note g = guard_ok_settled [OF Cons.prems(1) s3(2-4), of ?lg "charge_for ?res" st]
        show ?thesis
        proof (cases "after_attempt policy ev ?res failures unhinted")
          case (Inl out)
          then have "out \<noteq> OutOfEnvironment" using after_attempt_Inl by metis
          then show ?thesis using ends [OF g] go r \<open>res = Inr rv\<close> sent s3(1) Inl by (simp add: Let_def)
        next
          case (Inr fu)
          obtain f' u' where fu: "fu = (f', u')" by (cases fu)
          note f = after_attempt_Inr [OF Inr [unfolded fu]]
          have "unat (lg_next_attempt l3) + sum_list (map env_ids evs) < 2 ^ 64"
            using s3(5) Cons.prems(2) by simp
          from Cons.IH [OF g(1) this f(2), of "rv_max_tokens rv" u'] g(2) f(1,2)
          show ?thesis using go r \<open>res = Inr rv\<close> sent s3(1) Inr fu
            by (fastforce simp: Let_def)
        qed
      qed
    qed
  qed
qed simp

text \<open>
  C32. A request settles everything it reserves.  From a sound ledger, whatever the slots, the clock,
  the trace, the provider (errors, panics, being dropped) and the other agents do, the request
  returns without a ledger panic; its reservations and settlements alternate, each reservation
  being settled once and never outstanding again; the ledger is sound afterwards; it dispatches
  at most one attempt more than the retry policy allows retries; and with one environment step
  more than that it has returned an answer or an error.
\<close>
theorem attempts_settle_every_reservation:
  assumes "ledger_inv l" "unat (lg_next_attempt l) + sum_list (map env_ids (ce_attempts env)) < 2 ^ 64"
  shows "\<exists>res lg l'. attempts ser_content ser_tools providers limits policy n model request previous env l
      = Some (res, lg, l')
    \<and> ledger_inv l' \<and> settled_once (al_guard lg)
    \<and> (\<forall>i \<in> set (reserved_ids (al_guard lg)). spent_id l' i)
    \<and> length (reserved_ids (al_guard lg)) \<le> rp_max_retries policy + 1
    \<and> (rp_max_retries policy < length (ce_attempts env) \<longrightarrow> res \<noteq> OutOfEnvironment)"
proof -
  have g: "guard_ok empty_log l" using assms(1) by (simp add: guard_ok_def empty_log_def)
  have none: "taken_count empty_log = 0" by (simp add: taken_count_def empty_log_def)
  have stop: "ledger_inv l \<and> settled_once (al_guard empty_log)
      \<and> (\<forall>i \<in> set (reserved_ids (al_guard empty_log)). spent_id l i)
      \<and> length (reserved_ids (al_guard empty_log)) \<le> rp_max_retries policy + 1"
    using assms(1) by (simp add: empty_log_def)
  show ?thesis
  proof (cases "mref_provider model \<notin> set providers \<or> ce_stopped env \<or> \<not> (\<exists>i. ce_info env = InfoKnown i)")
    case True
    then show ?thesis using stop by (cases "ce_info env") (auto simp: attempts_def)
  next
    case False
    then obtain i where "ce_info env = InfoKnown i" by blast
    then obtain prompt mt where "attempts ser_content ser_tools providers limits policy n model request previous env l
        = attempt_loop policy n model prompt mt 0 0 (ce_attempts env) empty_log l"
      using False by (simp add: attempts_def Let_def)
    then show ?thesis
      using attempt_loop_spec [OF g assms(2), of 0 policy n model prompt mt 0] none
      by (fastforce simp: guard_ok_def taken_count_def)
  qed
qed

section \<open>A sample request\<close>

definition sample_env :: call_env where
  "sample_env = \<lparr>ce_stopped = False,
     ce_info = InfoKnown \<lparr>mi_id = ''m'', mi_context_window = None, mi_max_output_tokens = None\<rparr>,
     ce_attempts = [\<lparr>ev_slot = True, ev_stopped = False, ev_before = [], ev_start_write = None,
       ev_dropped = None, ev_dispatch = Streamed (Inl IdleTimeout), ev_partial = False, ev_during = [],
       ev_end_write = None, ev_ms = 1, ev_stopped_after = False, ev_random = 0,
       ev_reset_write = None, ev_woken = True\<rparr>]\<rparr>"

definition sample_request :: model_request where
  "sample_request = \<lparr>mr_model = ''m'', mr_system = None, mr_messages = [user_text ''hi''], mr_tools = [],
     mr_max_tokens = 100, mr_options = \<lparr>ro_effort = None, ro_thinking_display = None,
       ro_disable_cache = False, ro_task_budget_total = None\<rparr>,
     mr_metadata = \<lparr>rm_node_id = None, rm_depth = 0\<rparr>\<rparr>"

theorem attempts_settle_every_reservation_witness:
  "\<exists>res lg l'. attempts (\<lambda>_. []) (\<lambda>_. []) [''p''] sample_limits retry_default 0
      \<lparr>mref_provider = ''p'', mref_model = ''m''\<rparr> sample_request None sample_env sample_ledger = Some (res, lg, l')
    \<and> settled_once (al_guard lg)"
proof -
  have "unat (lg_next_attempt sample_ledger) + sum_list (map env_ids (ce_attempts sample_env)) < 2 ^ 64"
    by (simp add: sample_env_def env_ids_def sample_ledger_def)
  then show ?thesis
    using attempts_settle_every_reservation [OF sample_inv, of sample_env "\<lambda>_. []" "\<lambda>_. []" "[''p'']"
        sample_limits retry_default 0 "\<lparr>mref_provider = ''p'', mref_model = ''m''\<rparr>" sample_request None] by blast
qed

end
