(* ===== verification/Agent.thy ===== *)
theory Agent
  imports Attempts Tool_Registry
begin

text \<open>
  The conversation of one agent: `Runtime::agent` of `crates/core/src/runtime.rs` with `accept`,
  `user_turn`, `deliver` and `message`, and the end of a node in `run_node`.  One turn of the loop
  takes its environment as a record: whether the node is stopped at each point where the code
  looks, what the request returned (see the theory of attempts), what each tool did, and what the
  mailbox handed over.  A trace write can fail at any point, which ends the agent with an error.
\<close>

section \<open>State\<close>

record agent_state =
  ag_history :: "message list"
  ag_turns :: u32
  ag_answer :: answer
  ag_previous :: "(usage \<times> nat) option"
  ag_cap :: u32
  ag_invalid_retry :: bool
  ag_reminded :: bool
  ag_trace :: "trace_event list"

datatype agent_error = WriteFailed | AgentPanic string

datatype round_end =
    Continue agent_state
  | Finish status agent_state
  | Raise agent_error agent_state

text \<open>What does not change while an agent runs.  `ax_writes n` says whether the trace write that
  follows `n` earlier ones succeeds.\<close>

record agent_ctx =
  ax_node :: node_id
  ax_depth :: u32
  ax_model :: model_ref
  ax_system :: string
  ax_tools :: toolset
  ax_output :: "json option"
  ax_max_turns :: u32
  ax_limits :: limits
  ax_options :: request_options
  ax_writes :: "nat \<Rightarrow> bool"
  ax_from_str :: "string \<Rightarrow> string + json"
  ax_show_json :: "json \<Rightarrow> string"
  ax_render :: "envelope \<Rightarrow> string"

section \<open>Records and messages\<close>

definition emit :: "agent_ctx \<Rightarrow> trace_event \<Rightarrow> agent_state \<Rightarrow> (agent_state \<Rightarrow> round_end) \<Rightarrow> round_end" where
  "emit cx e s k =
     (if ax_writes cx (length (ag_trace s)) then k (s\<lparr>ag_trace := ag_trace s @ [e]\<rparr>)
      else Raise WriteFailed s)"

text \<open>A write whose failure is ignored where it is made.\<close>

definition emit_quiet :: "agent_ctx \<Rightarrow> trace_event \<Rightarrow> agent_state \<Rightarrow> agent_state" where
  "emit_quiet cx e s = s\<lparr>ag_trace := ag_trace s @ [e]\<rparr>"

definition push_message :: "agent_ctx \<Rightarrow> message \<Rightarrow> agent_state \<Rightarrow> (agent_state \<Rightarrow> round_end) \<Rightarrow> round_end" where
  "push_message cx m s k =
     emit cx (MessageEvent (ax_node cx) m) s (\<lambda>s. k (s\<lparr>ag_history := ag_history s @ [m]\<rparr>))"

type_synonym delivered = "envelope list \<times> nat"

definition delivery_blocks :: "agent_ctx \<Rightarrow> delivered \<Rightarrow> content_block list" where
  "delivery_blocks cx = (\<lambda>(taken, queued). map (\<lambda>e. Text (ax_render cx e)) taken
     @ (if queued > 0 then [Text (''['' @ more_note queued @ '']'')] else []))"

definition deliver :: "agent_ctx \<Rightarrow> content_block list \<Rightarrow> delivered \<Rightarrow> agent_state
    \<Rightarrow> (agent_state \<Rightarrow> round_end) \<Rightarrow> round_end" where
  "deliver cx content batch s k =
     push_message cx \<lparr>msg_role = User, msg_content = content @ delivery_blocks cx batch\<rparr>
       (if fst batch \<noteq> [] then emit_quiet cx (MessageDelivered (ax_node cx) (map env_id (fst batch)) Turn) s
        else s) k"

definition user_turn :: "agent_ctx \<Rightarrow> content_block list \<Rightarrow> bool \<Rightarrow> delivered \<Rightarrow> agent_state
    \<Rightarrow> (agent_state \<Rightarrow> round_end) \<Rightarrow> round_end" where
  "user_turn cx content dlv batch s k =
     (if dlv \<and> (fst batch \<noteq> [] \<or> snd batch > 0) then deliver cx content batch s k
      else push_message cx \<lparr>msg_role = User, msg_content = content\<rparr> s k)"

section \<open>Tools\<close>

fun validate_error_display :: "(json \<Rightarrow> string) \<Rightarrow> validate_error \<Rightarrow> string" where
  "validate_error_display sj (UnsupportedType t) = ''unsupported schema type: '' @ t"
| "validate_error_display sj (WrongType t) = ''invalid input type, expected '' @ sj t"
| "validate_error_display sj (NotInEnum vs) = ''value must be one of '' @ sj vs"
| "validate_error_display sj InvalidRequired = ''invalid required schema''"
| "validate_error_display sj (MissingProperty k) = ''missing property: '' @ k"
| "validate_error_display sj (UnexpectedProperty k) = ''unexpected property: '' @ k"

fun input_error_display :: "(json \<Rightarrow> string) \<Rightarrow> input_error \<Rightarrow> string" where
  "input_error_display sj (UnknownTool n) = ''unknown tool: '' @ n"
| "input_error_display sj (BadInput e) = validate_error_display sj e"

text \<open>`ToolOutput` with the answer it may commit.\<close>

record tool_output =
  ou_content :: "tool_result_part list"
  ou_is_error :: bool
  ou_final :: "answer option"

definition error_output :: "string \<Rightarrow> tool_output" where
  "error_output t = \<lparr>ou_content = [PartText t], ou_is_error = True, ou_final = None\<rparr>"

text \<open>What happens to one tool call: whether the node is stopped before it, what the tool returns,
  whether the call is interrupted, and whether the node is stopped (and past its deadline)
  when its answer is looked at.\<close>

record tool_env =
  te_stopped :: bool
  te_output :: tool_output
  te_interrupted :: bool
  te_stopped_after :: "bool option"

definition quiet_tool :: tool_env where
  "quiet_tool = \<lparr>te_stopped = False, te_output = error_output [], te_interrupted = False,
     te_stopped_after = None\<rparr>"

definition accept :: "agent_ctx \<Rightarrow> answer \<Rightarrow> string + answer" where
  "accept cx a = (case ax_output cx of
       None \<Rightarrow> Inr a
     | Some schema \<Rightarrow>
         (case a of
            AnswerText _ \<Rightarrow> Inl ''a task with an output schema finishes only through submit_result''
          | AnswerValue raw \<Rightarrow>
              (case ax_from_str cx raw of
                 Inl e \<Rightarrow> Inl (''result is not JSON: '' @ e)
               | Inr v \<Rightarrow>
                   (case validate schema v of
                      Some e \<Rightarrow> Inl (''result does not match the output schema: ''
                        @ validate_error_display (ax_show_json cx) e)
                    | None \<Rightarrow>
                        if length (utf8_chars raw) > lim_message_chars (ax_limits cx)
                        then Inl (''result exceeds '' @ show_nat (lim_message_chars (ax_limits cx)) @ '' characters'')
                        else Inr a))))"

text \<open>The output of one call and whether it is kept whole; None is the panic of a validated tool that
  is not in the registry.\<close>

definition tool_result :: "agent_ctx \<Rightarrow> (string \<times> string) list \<Rightarrow> stop_reason \<Rightarrow> bool \<Rightarrow> tool_env
    \<Rightarrow> string \<times> string \<times> json \<Rightarrow> (tool_output \<times> bool) option" where
  "tool_result cx invalid reason committed te = (\<lambda>(i, name, input).
     case map_of invalid i of
       Some raw \<Rightarrow> Some (error_output (ax_show_json cx (jobj [(''INVALID_JSON'', JStr raw)])), False)
     | None \<Rightarrow>
         if reason \<noteq> ToolUseStop then Some (error_output (''not executed: '' @ stop_reason_serialize reason), False)
         else if committed then Some (error_output ''skipped: final answer already committed'', False)
         else if te_stopped te then Some (error_output ''cancelled'', False)
         else case toolset_validate (ax_tools cx) name input of
                Some e \<Rightarrow> Some (error_output (input_error_display (ax_show_json cx) e), False)
              | None \<Rightarrow>
                  (case toolset_get (ax_tools cx) name of
                     None \<Rightarrow> None
                   | Some t \<Rightarrow>
                       Some (if tl_effect t = ReadOnly \<and> te_interrupted te
                               then error_output ''cancelled'' else te_output te,
                             \<not> tl_truncated t)))"

text \<open>The answer a call commits, if it is the first and is accepted; otherwise its output says why not.\<close>

definition commit_answer :: "agent_ctx \<Rightarrow> tool_env \<Rightarrow> answer option \<Rightarrow> tool_output \<Rightarrow> answer option \<times> tool_output" where
  "commit_answer cx te committed o1 =
     (case (committed, ou_final o1) of
        (None, Some a) \<Rightarrow>
          (case (case te_stopped_after te of
                   Some past \<Rightarrow> Inl (if past then ''the agent had timed out'' else ''the agent was cancelled'')
                 | None \<Rightarrow> accept cx a) of
             Inr a' \<Rightarrow> (Some a', o1)
           | Inl why \<Rightarrow> (None, o1\<lparr>ou_is_error := True,
               ou_content := ou_content o1 @ [PartText (CHR 0x0A # ''final answer not accepted: '' @ why)]\<rparr>))
      | _ \<Rightarrow> (committed, o1))"

definition result_text :: "agent_ctx \<Rightarrow> bool \<Rightarrow> tool_output \<Rightarrow> string" where
  "result_text cx whole o1 = (if whole then text_content (ou_content o1)
     else truncate_text (text_content (ou_content o1)) (lim_tool_output_chars (ax_limits cx)))"

text \<open>The calls of an assistant message, in order, with their results and the committed answer.\<close>

fun run_tools :: "agent_ctx \<Rightarrow> (string \<times> string) list \<Rightarrow> stop_reason \<Rightarrow> tool_env list
    \<Rightarrow> (string \<times> string \<times> json) list \<Rightarrow> content_block list \<Rightarrow> answer option \<Rightarrow> agent_state
    \<Rightarrow> (content_block list \<Rightarrow> answer option \<Rightarrow> agent_state \<Rightarrow> round_end) \<Rightarrow> round_end" where
  "run_tools cx invalid reason tes [] results committed s k = k results committed s"
| "run_tools cx invalid reason tes ((i, name, input) # calls) results committed s k =
     emit cx (ToolCall (ax_node cx) i name (case map_of invalid i of Some raw \<Rightarrow> JStr raw | None \<Rightarrow> input)) s
       (\<lambda>s. let te = (case tes of [] \<Rightarrow> quiet_tool | t # _ \<Rightarrow> t) in
         case tool_result cx invalid reason (committed \<noteq> None) te (i, name, input) of
           None \<Rightarrow> Raise (AgentPanic ''validated tool'') s
         | Some (o1, whole) \<Rightarrow>
             (let (committed', o2) = commit_answer cx te committed o1;
                  content = result_text cx whole o2
              in emit cx (ToolResultEvent (ax_node cx) i content (ou_is_error o2)) s
                   (\<lambda>s. run_tools cx invalid reason (tl tes) calls
                      (results @ [ToolResult i [PartText content] (ou_is_error o2)]) committed' s k)))"

section \<open>One turn\<close>

record round_env =
  re_stopped :: "bool option"
  re_call :: call_result
  re_past_deadline :: bool
  re_tools :: "tool_env list"
  re_stopped_turn :: bool
  re_batch :: delivered
  re_stopped_after :: "bool option"
  re_idle :: "delivered option"
  re_stopped_idle :: "bool option"

definition turn_request :: "agent_ctx \<Rightarrow> agent_state \<Rightarrow> model_request" where
  "turn_request cx s = \<lparr>mr_model = mref_model (ax_model cx), mr_system = Some (ax_system cx),
     mr_messages = ag_history s, mr_tools = specs (ax_tools cx), mr_max_tokens = ag_cap s,
     mr_options = ax_options cx,
     mr_metadata = \<lparr>rm_node_id = Some (show_nat (ax_node cx)), rm_depth = ax_depth cx\<rparr>\<rparr>"

text \<open>`entry(id).or_insert_with` on the invalid inputs, for each call whose input the tools reject.\<close>

fun add_invalid :: "agent_ctx \<Rightarrow> (string \<times> string \<times> json) list \<Rightarrow> (string \<times> string) list
    \<Rightarrow> (string \<times> string) list" where
  "add_invalid cx [] invalid = invalid"
| "add_invalid cx ((i, name, input) # calls) invalid =
     add_invalid cx calls
       (if toolset_get (ax_tools cx) name \<noteq> None \<and> toolset_validate (ax_tools cx) name input \<noteq> None
          \<and> map_of invalid i = None
        then bt_insert i (ax_show_json cx input) invalid else invalid)"

fun emit_invalid :: "agent_ctx \<Rightarrow> (string \<times> string) list \<Rightarrow> agent_state \<Rightarrow> (agent_state \<Rightarrow> round_end)
    \<Rightarrow> round_end" where
  "emit_invalid cx [] s k = k s"
| "emit_invalid cx ((call, raw) # rest) s k =
     emit cx (InvalidToolInput (ax_node cx) call raw) s (\<lambda>s. emit_invalid cx rest s k)"

definition saturating_double :: "u32 \<Rightarrow> u32" where
  "saturating_double c = (if unat c * 2 < 2 ^ 32 then c * 2 else - 1)"

fun sanitize :: "(string \<times> string) list \<Rightarrow> content_block \<Rightarrow> content_block" where
  "sanitize invalid (ToolUse i name input) =
     ToolUse i name (if map_of invalid i \<noteq> None then JObj [] else input)"
| "sanitize invalid b = b"

definition SUBMIT_REMINDER :: string where
  "SUBMIT_REMINDER = ''You have not submitted a result. Call submit_result with a result that matches its input schema; ending your turn again without it fails the task.''"

definition continues :: "agent_ctx \<Rightarrow> answer option \<Rightarrow> bool \<Rightarrow> u32 \<Rightarrow> stop_reason \<Rightarrow> bool" where
  "continues cx committed stopped turns reason =
     (committed = None \<and> \<not> stopped \<and> turns < ax_max_turns cx
      \<and> reason \<in> {ToolUseStop, PauseTurn, MaxTokens})"

text \<open>The branch of `EndTurn`, with the text of the assistant message.\<close>

definition end_turn :: "agent_ctx \<Rightarrow> round_env \<Rightarrow> string \<Rightarrow> agent_state \<Rightarrow> round_end" where
  "end_turn cx re reply s0 =
     (let s = s0\<lparr>ag_answer := AnswerText reply\<rparr>;
          contract = (ax_output cx \<noteq> None)
      in if \<not> ag_turns s < ax_max_turns cx then Finish (if contract then MaxTurns else Completed) s
         else case re_idle re of
           Some batch \<Rightarrow> deliver cx [] batch s Continue
         | None \<Rightarrow>
             (case re_stopped_idle re of
                Some past \<Rightarrow> Finish (cancel_status past) s
              | None \<Rightarrow>
                  if \<not> contract then Finish Completed s
                  else if \<not> ag_reminded s
                  then user_turn cx [Text SUBMIT_REMINDER] True (re_batch re) (s\<lparr>ag_reminded := True\<rparr>) Continue
                  else emit cx (ErrorEvent (ax_node cx) ''ended without calling submit_result'') s
                    (\<lambda>s. Finish Failed (s\<lparr>ag_answer := AnswerText
                       (if reply = [] then ''ended without calling submit_result.''
                        else ''ended without calling submit_result. Last reply: '' @ reply)\<rparr>))))"

text \<open>What follows the tool results of a turn.\<close>

definition after_tools :: "agent_ctx \<Rightarrow> round_env \<Rightarrow> stop_reason \<Rightarrow> string \<Rightarrow> bool \<Rightarrow> answer option
    \<Rightarrow> agent_state \<Rightarrow> round_end" where
  "after_tools cx re reason reply has_tools committed s =
     (case committed of
        Some a \<Rightarrow> Finish Completed (s\<lparr>ag_answer := a\<rparr>)
      | None \<Rightarrow>
          (case re_stopped_after re of
             Some past \<Rightarrow> Finish (cancel_status past) s
           | None \<Rightarrow>
               (case reason of
                  ToolUseStop \<Rightarrow> Continue s
                | PauseTurn \<Rightarrow> Continue s
                | EndTurn \<Rightarrow> end_turn cx re reply s
                | MaxTokens \<Rightarrow>
                    if has_tools then Continue s
                    else user_turn cx [Text ''continue''] (ag_turns s < ax_max_turns cx) (re_batch re) s Continue
                | ModelContextWindowExceeded \<Rightarrow> Finish ContextExhausted s
                | Refusal \<Rightarrow> Finish Refused s
                | _ \<Rightarrow> Finish Failed s)))"

text \<open>An admitted response: the turn is counted, the assistant message recorded, its calls run and
  their results recorded.\<close>

definition admit_response :: "agent_ctx \<Rightarrow> round_env \<Rightarrow> model_response \<Rightarrow> (string \<times> string) list \<Rightarrow> nat
    \<Rightarrow> agent_state \<Rightarrow> round_end" where
  "admit_response cx re resp invalid sent s0 =
     (let turns = ag_turns s0 + 1;
          assistant = \<lparr>msg_role = Assistant, msg_content = map (sanitize invalid) (rs_content resp)\<rparr>;
          reply = message_text assistant;
          s = s0\<lparr>ag_invalid_retry := False, ag_cap := lim_max_output_tokens (ax_limits cx),
                 ag_previous := Some (rs_usage resp, sent), ag_turns := turns,
                 ag_answer := (if reply \<noteq> [] then AnswerText reply else ag_answer s0)\<rparr>;
          reason = rs_stop_reason resp
      in push_message cx assistant s
           (\<lambda>s. run_tools cx invalid reason (re_tools re) (tool_uses assistant) [] None s
              (\<lambda>results committed s.
                 let next_step = after_tools cx re reason reply (results \<noteq> []) committed
                 in if results \<noteq> []
                    then user_turn cx results (continues cx committed (re_stopped_turn re) turns reason)
                           (re_batch re) s next_step
                    else next_step s)))"

definition agent_round :: "agent_ctx \<Rightarrow> round_env \<Rightarrow> agent_state \<Rightarrow> round_end" where
  "agent_round cx re s =
     (case re_stopped re of
        Some past \<Rightarrow> Finish (cancel_status past) s
      | None \<Rightarrow>
          if \<not> ag_turns s < ax_max_turns cx then Finish MaxTurns s
          else case re_call re of
            Unwound \<Rightarrow> Raise (AgentPanic ''agent task panicked'') s
          | OutOfEnvironment \<Rightarrow> Raise (AgentPanic ''request still running'') s
          | CallFailed e \<Rightarrow>
              emit cx (ErrorEvent (ax_node cx) (call_error_display e)) s
                (Finish (status_for e (re_past_deadline re)))
          | Answered resp invalid0 \<Rightarrow>
              (let calls = tool_uses \<lparr>msg_role = Assistant, msg_content = rs_content resp\<rparr>;
                   invalid = add_invalid cx calls invalid0
               in emit_invalid cx invalid s
                    (\<lambda>s. if invalid \<noteq> [] \<and> rs_stop_reason resp = MaxTokens \<and> \<not> ag_invalid_retry s
                       then emit cx (StreamReset (ax_node cx))
                              (s\<lparr>ag_invalid_retry := True, ag_cap := saturating_double (ag_cap s)\<rparr>) Continue
                       else admit_response cx re resp invalid (length (ag_history s)) s)))"

text \<open>The loop; None while the environment has no further turn.\<close>

fun agent_loop :: "agent_ctx \<Rightarrow> round_env list \<Rightarrow> agent_state \<Rightarrow> (agent_error + status) option \<times> agent_state" where
  "agent_loop cx [] s = (None, s)"
| "agent_loop cx (re # res) s =
     (case agent_round cx re s of
        Continue s' \<Rightarrow> agent_loop cx res s'
      | Finish st s' \<Rightarrow> (Some (Inr st), s')
      | Raise e s' \<Rightarrow> (Some (Inl e), s'))"

section \<open>Beginning and end\<close>

definition agent_initial :: "agent_ctx \<Rightarrow> agent_state" where
  "agent_initial cx = \<lparr>ag_history = [], ag_turns = 0, ag_answer = AnswerText [], ag_previous = None,
     ag_cap = lim_max_output_tokens (ax_limits cx), ag_invalid_retry = False, ag_reminded = False,
     ag_trace = []\<rparr>"

text \<open>The node start record and the task, with the messages that arrived before the first request.\<close>

definition agent_start :: "agent_ctx \<Rightarrow> node_start \<Rightarrow> string \<Rightarrow> delivered \<Rightarrow> round_end" where
  "agent_start cx ns task batch =
     emit cx (NodeStart ns) (agent_initial cx)
       (\<lambda>s. user_turn cx [Text task] True batch s Continue)"

definition agent_run :: "agent_ctx \<Rightarrow> node_start \<Rightarrow> string \<Rightarrow> delivered \<Rightarrow> round_env list
    \<Rightarrow> (agent_error + status) option \<times> agent_state" where
  "agent_run cx ns task batch res =
     (case agent_start cx ns task batch of
        Continue s \<Rightarrow> agent_loop cx res s
      | Finish st s \<Rightarrow> (Some (Inr st), s)
      | Raise e s \<Rightarrow> (Some (Inl e), s))"

end
