(* ===== verification/Agent_Props.thy ===== *)
theory Agent_Props
  imports Agent
begin

text \<open>
  What the conversation loop promises: it ends within its turns, every request it sends is a history
  in which each tool call is answered right after it, and an agent with an output contract
  completes only with an answer that keeps the contract.
\<close>

section \<open>Steps\<close>

definition traced :: "agent_state \<Rightarrow> agent_state \<Rightarrow> bool" where
  "traced s s' \<longleftrightarrow> (\<exists>t. s' = s\<lparr>ag_trace := t\<rparr>)"

lemma traced_simps [simp]:
  "traced s s" "traced s (s\<lparr>ag_trace := t\<rparr>)"
  by (auto simp: traced_def intro: exI [of _ "ag_trace s"])

lemma traced_trans [trans]: "traced a b \<Longrightarrow> traced b c \<Longrightarrow> traced a c"
  by (auto simp: traced_def)

lemma tracedD:
  assumes "traced s s'"
  shows "ag_history s' = ag_history s" "ag_turns s' = ag_turns s" "ag_answer s' = ag_answer s"
    "ag_invalid_retry s' = ag_invalid_retry s" "ag_reminded s' = ag_reminded s"
  using assms by (auto simp: traced_def)

definition raised :: "round_end \<Rightarrow> bool" where
  "raised r \<longleftrightarrow> (\<exists>e s. r = Raise e s)"

lemma raised_simps [simp]:
  "raised (Raise e s)" "\<not> raised (Continue s)" "\<not> raised (Finish st s)"
  by (simp_all add: raised_def)

lemma emit_cases:
  "raised (emit cx e s k) \<or> emit cx e s k = k (s\<lparr>ag_trace := ag_trace s @ [e]\<rparr>)"
  by (simp add: emit_def)

lemma push_cases:
  "raised (push_message cx m s k)
    \<or> (\<exists>s'. traced s s' \<and> push_message cx m s k = k (s'\<lparr>ag_history := ag_history s @ [m]\<rparr>))"
proof -
  let ?s = "s\<lparr>ag_trace := ag_trace s @ [MessageEvent (ax_node cx) m]\<rparr>"
  have "traced s ?s" by simp
  then show ?thesis by (auto simp: push_message_def emit_def intro!: exI [of _ ?s])
qed

text \<open>A user message is the given content followed by what was delivered with it.\<close>

lemma deliver_cases:
  "raised (deliver cx content batch s k)
    \<or> (\<exists>s' extra. traced s s' \<and> deliver cx content batch s k
        = k (s'\<lparr>ag_history := ag_history s @ [\<lparr>msg_role = User, msg_content = content @ extra\<rparr>]\<rparr>))"
proof -
  let ?s = "if fst batch \<noteq> []
    then emit_quiet cx (MessageDelivered (ax_node cx) (map env_id (fst batch)) Turn) s else s"
  let ?m = "\<lparr>msg_role = User, msg_content = content @ delivery_blocks cx batch\<rparr>"
  have t: "traced s ?s" by (simp add: emit_quiet_def)
  then have h: "ag_history ?s = ag_history s" by (rule tracedD)
  show ?thesis
    using push_cases [of cx ?m ?s k] traced_trans [OF t] unfolding deliver_def h by blast
qed

lemma user_turn_cases:
  "raised (user_turn cx content dlv batch s k)
    \<or> (\<exists>s' extra. traced s s' \<and> user_turn cx content dlv batch s k
        = k (s'\<lparr>ag_history := ag_history s @ [\<lparr>msg_role = User, msg_content = content @ extra\<rparr>]\<rparr>))"
proof (cases "dlv \<and> (fst batch \<noteq> [] \<or> snd batch > 0)")
  case True
  then show ?thesis using deliver_cases by (simp add: user_turn_def)
next
  case False
  then have u: "user_turn cx content dlv batch s k = push_message cx \<lparr>msg_role = User, msg_content = content @ []\<rparr> s k"
    by (auto simp: user_turn_def)
  show ?thesis using push_cases unfolding u by blast
qed

text \<open>An answer the contract of the agent allows.\<close>

definition kept :: "agent_ctx \<Rightarrow> answer \<Rightarrow> bool" where
  "kept cx a \<longleftrightarrow> (\<forall>schema. ax_output cx = Some schema \<longrightarrow> (\<exists>raw v. a = AnswerValue raw
     \<and> ax_from_str cx raw = Inr v \<and> validate schema v = None
     \<and> length (utf8_chars raw) \<le> lim_message_chars (ax_limits cx)))"

lemma accept_kept: "accept cx a = Inr a' \<Longrightarrow> a' = a \<and> kept cx a'"
  by (auto simp: accept_def kept_def split: option.splits answer.splits sum.splits if_splits)

lemma commit_kept:
  "commit_answer cx te committed o1 = (committed', o2) \<Longrightarrow> (\<forall>a. committed = Some a \<longrightarrow> kept cx a)
    \<Longrightarrow> committed' = Some a \<Longrightarrow> kept cx a"
  by (auto simp: commit_answer_def dest: accept_kept split: option.splits sum.splits if_splits)

fun result_id :: "content_block \<Rightarrow> string option" where
  "result_id (ToolResult i _ _) = Some i"
| "result_id _ = None"

lemma run_tools_cases:
  assumes "\<forall>a. committed = Some a \<longrightarrow> kept cx a"
  shows "raised (run_tools cx invalid reason tes calls results committed s k)
    \<or> (\<exists>more_results committed' s'. run_tools cx invalid reason tes calls results committed s k
          = k (results @ more_results) committed' s'
        \<and> map result_id more_results = map (\<lambda>(i, _). Some i) calls
        \<and> traced s s' \<and> (\<forall>a. committed' = Some a \<longrightarrow> kept cx a))"
  using assms
proof (induction cx invalid reason tes calls results committed s k rule: run_tools.induct)
  case (2 cx invalid reason tes i name inp calls results committed s k)
  let ?call = "ToolCall (ax_node cx) i name (case map_of invalid i of Some raw \<Rightarrow> JStr raw | None \<Rightarrow> inp)"
  let ?s1 = "s\<lparr>ag_trace := ag_trace s @ [?call]\<rparr>"
  let ?te = "case tes of [] \<Rightarrow> quiet_tool | t # _ \<Rightarrow> t"
  show ?case
  proof (cases "ax_writes cx (length (ag_trace s))")
    case False
    then show ?thesis by (simp add: emit_def)
  next
    case w1: True
    show ?thesis
    proof (cases "tool_result cx invalid reason (committed \<noteq> None) ?te (i, name, inp)")
      case None
      then show ?thesis using w1 by (simp add: emit_def Let_def)
    next
      case (Some ow)
      obtain o1 whole where ow: "ow = (o1, whole)" by (cases ow)
      obtain c' o2 where c: "commit_answer cx ?te committed o1 = (c', o2)" by fastforce
      let ?content = "result_text cx whole o2"
      let ?s2 = "?s1\<lparr>ag_trace := ag_trace ?s1 @ [ToolResultEvent (ax_node cx) i ?content (ou_is_error o2)]\<rparr>"
      have keep: "\<forall>a. c' = Some a \<longrightarrow> kept cx a" using commit_kept [OF c 2(2)] by blast
      show ?thesis
      proof (cases "ax_writes cx (length (ag_trace ?s1))")
        case False
        then show ?thesis using w1 Some ow c by (simp add: emit_def Let_def)
      next
        case w2: True
        have eq: "run_tools cx invalid reason tes ((i, name, inp) # calls) results committed s k
          = run_tools cx invalid reason (tl tes) calls
              (results @ [ToolResult i [PartText ?content] (ou_is_error o2)]) c' ?s2 k"
          using w1 w2 Some ow c by (simp add: emit_def Let_def)
        have ih: "raised (run_tools cx invalid reason (tl tes) calls
              (results @ [ToolResult i [PartText ?content] (ou_is_error o2)]) c' ?s2 k)
          \<or> (\<exists>more_results committed' s'. run_tools cx invalid reason (tl tes) calls
              (results @ [ToolResult i [PartText ?content] (ou_is_error o2)]) c' ?s2 k
                = k ((results @ [ToolResult i [PartText ?content] (ou_is_error o2)]) @ more_results) committed' s'
              \<and> map result_id more_results = map (\<lambda>(i, _). Some i) calls
              \<and> traced ?s2 s' \<and> (\<forall>a. committed' = Some a \<longrightarrow> kept cx a))"
          by (rule 2(1) [OF refl Some ow [symmetric] refl c [symmetric] refl keep])
        have t: "traced s ?s2" by simp
        show ?thesis
        proof (cases "raised (run_tools cx invalid reason (tl tes) calls
            (results @ [ToolResult i [PartText ?content] (ou_is_error o2)]) c' ?s2 k)")
          case True
          then show ?thesis by (simp only: eq simp_thms)
        next
          case False
          then obtain ms cm s' where m: "run_tools cx invalid reason (tl tes) calls
              (results @ [ToolResult i [PartText ?content] (ou_is_error o2)]) c' ?s2 k
                = k ((results @ [ToolResult i [PartText ?content] (ou_is_error o2)]) @ ms) cm s'"
            "map result_id ms = map (\<lambda>(i, _). Some i) calls" "traced ?s2 s'" "\<forall>a. cm = Some a \<longrightarrow> kept cx a"
            using ih by blast
          show ?thesis
            by (rule disjI2, rule exI [of _ "ToolResult i [PartText ?content] (ou_is_error o2) # ms"],
                rule exI [of _ cm], rule exI [of _ s'])
              (use m eq traced_trans [OF t m(3)] in simp)
        qed
      qed
    qed
  qed
next
  case (1 cx invalid reason tes results committed s k)
  then show ?case by (intro disjI2 exI [of _ "[]"] exI [of _ committed] exI [of _ s]) simp
qed

section \<open>Histories\<close>

text \<open>Every assistant message that calls tools is followed by a user message that starts with the
  results of exactly these calls, in their order.\<close>

definition answers :: "message \<Rightarrow> message \<Rightarrow> bool" where
  "answers u m \<longleftrightarrow> msg_role u = User
     \<and> take (length (tool_uses m)) (map result_id (msg_content u)) = map (\<lambda>(i, _). Some i) (tool_uses m)"

fun fully_answered :: "message list \<Rightarrow> bool" where
  "fully_answered [] \<longleftrightarrow> True"
| "fully_answered (m # ms) \<longleftrightarrow>
     (msg_role m = Assistant \<longrightarrow> tool_uses m \<noteq> [] \<longrightarrow> (case ms of [] \<Rightarrow> False | u # _ \<Rightarrow> answers u m))
     \<and> fully_answered ms"

lemma fully_answered_append: "fully_answered h \<Longrightarrow> fully_answered h' \<Longrightarrow> fully_answered (h @ h')"
  by (induction h) (auto split: list.splits)

lemma fully_answered_user: "fully_answered h \<Longrightarrow> msg_role u = User \<Longrightarrow> fully_answered (h @ [u])"
  by (rule fully_answered_append) simp_all

lemma fully_answered_assistant: "fully_answered h \<Longrightarrow> tool_uses m = [] \<Longrightarrow> fully_answered (h @ [m])"
  by (rule fully_answered_append) simp_all

lemma fully_answered_results:
  assumes "fully_answered h" "map result_id results = map (\<lambda>(i, _). Some i) (tool_uses m)"
    "msg_role m = Assistant"
  shows "fully_answered (h @ [m, \<lparr>msg_role = User, msg_content = results @ extra\<rparr>])"
proof -
  have "length results = length (tool_uses m)" using arg_cong [OF assms(2), of length] by simp
  then have "answers \<lparr>msg_role = User, msg_content = results @ extra\<rparr> m"
    using assms(2) by (simp add: answers_def)
  then show ?thesis using assms(1,3) by (intro fully_answered_append) simp_all
qed

section \<open>One turn\<close>

definition weight :: "agent_ctx \<Rightarrow> agent_state \<Rightarrow> nat" where
  "weight cx s = 2 * (unat (ax_max_turns cx) - unat (ag_turns s)) - of_bool (ag_invalid_retry s)"

definition turn_ok :: "agent_ctx \<Rightarrow> agent_state \<Rightarrow> bool" where
  "turn_ok cx s \<longleftrightarrow> fully_answered (ag_history s) \<and> ag_history s \<noteq> []
     \<and> msg_role (hd (ag_history s)) = User \<and> ag_turns s \<le> ax_max_turns cx"

text \<open>What a turn may end with: a raised error, a sound state that finishes, or one that goes on and
  is closer to the end than `w`.\<close>

definition good_end :: "agent_ctx \<Rightarrow> nat \<Rightarrow> round_end \<Rightarrow> bool" where
  "good_end cx w r = (case r of
       Raise _ _ \<Rightarrow> True
     | Finish st s \<Rightarrow> turn_ok cx s \<and> (st = Completed \<longrightarrow> kept cx (ag_answer s))
     | Continue s \<Rightarrow> turn_ok cx s \<and> weight cx s < w)"

lemma good_end_simps [simp]:
  "good_end cx w (Raise e s)"
  "good_end cx w (Finish st s) \<longleftrightarrow> turn_ok cx s \<and> (st = Completed \<longrightarrow> kept cx (ag_answer s))"
  "good_end cx w (Continue s) \<longleftrightarrow> turn_ok cx s \<and> weight cx s < w"
  by (simp_all add: good_end_def)

lemma good_end_raised: "raised r \<Longrightarrow> good_end cx w r"
  by (auto simp: raised_def)

lemma traced_ok [simp]: "traced s s' \<Longrightarrow> turn_ok cx s' = turn_ok cx s" "traced s s' \<Longrightarrow> weight cx s' = weight cx s"
  by (auto simp: turn_ok_def weight_def tracedD)

lemma turn_ok_updates [simp]:
  "turn_ok cx (s\<lparr>ag_answer := a\<rparr>) = turn_ok cx s" "turn_ok cx (s\<lparr>ag_reminded := b\<rparr>) = turn_ok cx s"
  "turn_ok cx (s\<lparr>ag_trace := t\<rparr>) = turn_ok cx s"
  "weight cx (s\<lparr>ag_answer := a\<rparr>) = weight cx s" "weight cx (s\<lparr>ag_reminded := b\<rparr>) = weight cx s"
  "weight cx (s\<lparr>ag_trace := t\<rparr>) = weight cx s"
  by (simp_all add: turn_ok_def weight_def)

lemma push_endI:
  "(\<And>s'. traced s s' \<Longrightarrow> good_end cx w (k (s'\<lparr>ag_history := ag_history s @ [m]\<rparr>)))
    \<Longrightarrow> good_end cx w (push_message cx m s k)"
  using push_cases [of cx m s k] by (elim disjE exE conjE) (simp_all add: good_end_raised)

lemma user_turn_endI:
  "(\<And>s' extra. traced s s' \<Longrightarrow>
      good_end cx w (k (s'\<lparr>ag_history := ag_history s @ [\<lparr>msg_role = User, msg_content = content @ extra\<rparr>]\<rparr>)))
    \<Longrightarrow> good_end cx w (user_turn cx content dlv batch s k)"
  using user_turn_cases [of cx content dlv batch s k] by (elim disjE exE conjE) (simp_all add: good_end_raised)

lemma emit_invalid_cases:
  "raised (emit_invalid cx invalid s k) \<or> (\<exists>s'. traced s s' \<and> emit_invalid cx invalid s k = k s')"
proof (induction cx invalid s k rule: emit_invalid.induct)
  case (1 cx s k)
  then show ?case by (intro disjI2 exI [of _ s]) simp
next
  case (2 cx call raw rest s k)
  let ?s = "s\<lparr>ag_trace := ag_trace s @ [InvalidToolInput (ax_node cx) call raw]\<rparr>"
  have t: "traced s ?s" by simp
  show ?case
  proof (cases "ax_writes cx (length (ag_trace s))")
    case True
    then show ?thesis using 2 [of ?s] traced_trans [OF t] by (simp add: emit_def) blast
  qed (simp add: emit_def)
qed

lemma emit_invalid_endI:
  "(\<And>s'. traced s s' \<Longrightarrow> good_end cx w (k s')) \<Longrightarrow> good_end cx w (emit_invalid cx invalid s k)"
  using emit_invalid_cases [of cx invalid s k] by (elim disjE exE conjE) (simp_all add: good_end_raised)

text \<open>Recording a user message and going on.\<close>

lemma user_turn_good:
  assumes "turn_ok cx s" "weight cx s < w"
  shows "good_end cx w (user_turn cx content dlv batch s Continue)" "good_end cx w (deliver cx content batch s Continue)"
proof -
  have g: "good_end cx w (Continue (s'\<lparr>ag_history := ag_history s @ [\<lparr>msg_role = User, msg_content = c\<rparr>]\<rparr>))"
    if "traced s s'" for s' c
    using assms tracedD(2,4) [OF that]
    by (auto simp: turn_ok_def weight_def intro!: fully_answered_user)
  show "good_end cx w (user_turn cx content dlv batch s Continue)"
    using user_turn_cases [of cx content dlv batch s Continue] good_end_raised g by metis
  show "good_end cx w (deliver cx content batch s Continue)"
    using deliver_cases [of cx content batch s Continue] good_end_raised g by metis
qed

lemma end_turn_good:
  assumes "turn_ok cx s" "weight cx s < w"
  shows "good_end cx w (end_turn cx re reply s)"
  using assms
  by (auto simp: end_turn_def Let_def emit_def kept_def cancel_status_def intro!: user_turn_good
      split: option.splits)

lemma after_tools_good:
  assumes "turn_ok cx s" "weight cx s < w" "\<forall>a. committed = Some a \<longrightarrow> kept cx a"
  shows "good_end cx w (after_tools cx re reason reply has_tools committed s)"
  using assms
  by (auto simp: after_tools_def cancel_status_def intro!: user_turn_good end_turn_good
      split: option.splits stop_reason.splits)

lemma turns_step:
  assumes "ag_turns s < ax_max_turns cx"
  shows "ag_turns s + 1 \<le> ax_max_turns cx"
    "unat (ax_max_turns cx) - unat (ag_turns s + 1) < unat (ax_max_turns cx) - unat (ag_turns s)"
proof -
  have lt: "unat (ag_turns s) < unat (ax_max_turns cx)" using assms by (simp add: word_less_nat_alt)
  then have "unat (ag_turns s + 1) = unat (ag_turns s) + 1"
    using unsigned_less [of "ax_max_turns cx", where ?'a = nat] by (simp add: unat_word_ariths)
  then show "ag_turns s + 1 \<le> ax_max_turns cx"
    "unat (ax_max_turns cx) - unat (ag_turns s + 1) < unat (ax_max_turns cx) - unat (ag_turns s)"
    using lt by (simp_all add: word_le_nat_alt)
qed

lemma admit_response_good:
  assumes ok: "turn_ok cx s0" and turn: "ag_turns s0 < ax_max_turns cx"
  shows "good_end cx (weight cx s0) (admit_response cx re resp invalid sent s0)"
proof -
  let ?m = "\<lparr>msg_role = Assistant, msg_content = map (sanitize invalid) (rs_content resp)\<rparr>"
  let ?reply = "message_text ?m" and ?reason = "rs_stop_reason resp" and ?turns = "ag_turns s0 + 1"
  let ?s = "s0\<lparr>ag_invalid_retry := False, ag_cap := lim_max_output_tokens (ax_limits cx),
    ag_previous := Some (rs_usage resp, sent), ag_turns := ?turns,
    ag_answer := (if ?reply \<noteq> [] then AnswerText ?reply else ag_answer s0)\<rparr>"
  let ?next = "\<lambda>results committed. after_tools cx re ?reason ?reply (results \<noteq> []) committed"
  let ?fin = "\<lambda>results committed s. if results \<noteq> []
      then user_turn cx results (continues cx committed (re_stopped_turn re) ?turns ?reason) (re_batch re) s
        (?next results committed)
      else ?next results committed s"
  let ?run = "\<lambda>s. run_tools cx invalid ?reason (re_tools re) (tool_uses ?m) [] None s ?fin"
  have eq: "admit_response cx re resp invalid sent s0 = push_message cx ?m ?s ?run"
    by (simp add: admit_response_def Let_def)
  have w: "2 * (unat (ax_max_turns cx) - unat ?turns) < weight cx s0"
    using turns_step(2) [OF turn] by (auto simp: weight_def)
  have st: "turn_ok cx s' \<and> weight cx s' < weight cx s0"
    if "ag_turns s' = ?turns" "ag_history s' = ag_history s0 @ h" "fully_answered (ag_history s0 @ h)" for s' h
    using that ok turns_step(1) [OF turn] w by (auto simp: turn_ok_def weight_def)
  have fa: "fully_answered (ag_history s0)" using ok by (simp add: turn_ok_def)
  have go: "good_end cx (weight cx s0) (?run (s1\<lparr>ag_history := ag_history ?s @ [?m]\<rparr>))" if s1: "traced ?s s1" for s1
  proof -
    let ?s2 = "s1\<lparr>ag_history := ag_history ?s @ [?m]\<rparr>"
    have t1: "ag_turns ?s2 = ?turns" "ag_history ?s2 = ag_history s0 @ [?m]"
      using tracedD [OF s1] by simp_all
    consider "raised (?run ?s2)" | rs c s3 where "?run ?s2 = ?fin ([] @ rs) c s3"
        "map result_id rs = map (\<lambda>(i, _). Some i) (tool_uses ?m)" "traced ?s2 s3" "\<forall>a. c = Some a \<longrightarrow> kept cx a"
      using run_tools_cases [of None cx invalid ?reason "re_tools re" "tool_uses ?m" "[]" ?s2 ?fin] by blast
    then show ?thesis
    proof cases
      case 1
      then show ?thesis by (rule good_end_raised)
    next
      case 2
      have t3: "ag_turns s3 = ?turns" "ag_history s3 = ag_history s0 @ [?m]"
        using tracedD(1,2) [OF 2(3)] t1 by simp_all
      show ?thesis
      proof (cases "rs = []")
        case True
        then have "fully_answered (ag_history s0 @ [?m])"
          using 2(2) fa by (intro fully_answered_assistant) simp_all
        then have "turn_ok cx s3" "weight cx s3 < weight cx s0" using st [OF t3] by simp_all
        then show ?thesis using 2(1,4) True after_tools_good by simp
      next
        case False
        have step: "good_end cx (weight cx s0) (?next rs c (s4\<lparr>ag_history := ag_history s3 @ [\<lparr>msg_role = User, msg_content = rs @ extra\<rparr>]\<rparr>))"
          if s4: "traced s3 s4" for s4 extra
        proof -
          let ?s5 = "s4\<lparr>ag_history := ag_history s3 @ [\<lparr>msg_role = User, msg_content = rs @ extra\<rparr>]\<rparr>"
          have "turn_ok cx ?s5 \<and> weight cx ?s5 < weight cx s0"
            by (rule st [of _ "[?m, \<lparr>msg_role = User, msg_content = rs @ extra\<rparr>]"])
              (use tracedD(2) [OF s4] t3 fully_answered_results [OF fa 2(2)] in simp_all)
          then show ?thesis using 2(4) after_tools_good by blast
        qed
        have "?run ?s2 = user_turn cx rs (continues cx c (re_stopped_turn re) ?turns ?reason) (re_batch re) s3 (?next rs c)"
          using 2(1) False by simp
        also have "good_end cx (weight cx s0) \<dots>" by (rule user_turn_endI) (rule step)
        finally show ?thesis .
      qed
    qed
  qed
  show ?thesis unfolding eq by (rule push_endI) (rule go)
qed

lemma status_for_not_completed: "status_for e past \<noteq> Completed"
  by (cases "(e, past)" rule: status_for.cases) (auto simp: cancel_status_def)

lemma agent_round_good:
  assumes ok: "turn_ok cx s"
  shows "good_end cx (weight cx s) (agent_round cx re s)"
proof -
  have fin: "good_end cx (weight cx s) (if invalid \<noteq> [] \<and> rs_stop_reason resp = MaxTokens \<and> \<not> ag_invalid_retry s'
       then emit cx (StreamReset (ax_node cx)) (s'\<lparr>ag_invalid_retry := True, ag_cap := saturating_double (ag_cap s')\<rparr>) Continue
       else admit_response cx re resp invalid (length (ag_history s')) s')"
    if s': "traced s s'" and turn: "ag_turns s < ax_max_turns cx" for s' resp invalid
  proof (cases "invalid \<noteq> [] \<and> rs_stop_reason resp = MaxTokens \<and> \<not> ag_invalid_retry s'")
    case True
    have "unat (ag_turns s) < unat (ax_max_turns cx)" using turn by (simp add: word_less_nat_alt)
    then have "good_end cx (weight cx s) (Continue (s'\<lparr>ag_invalid_retry := True, ag_cap := c, ag_trace := t\<rparr>))" for c t
      using True ok tracedD [OF s'] by (simp add: turn_ok_def weight_def)
    then show ?thesis using True by (simp add: emit_def)
  next
    case False
    then show ?thesis
      using admit_response_good [of cx s' re resp invalid "length (ag_history s')"] ok turn s' tracedD(2) [OF s']
      by (simp only: if_False traced_ok)
  qed
  show ?thesis
  proof (cases "re_stopped re = None \<and> ag_turns s < ax_max_turns cx")
    case False
    then show ?thesis using ok by (auto simp: agent_round_def cancel_status_def split: option.splits)
  next
    case True
    note turn = conjunct2 [OF True]
    show ?thesis
    proof (cases "re_call re")
      case (Answered resp invalid0)
      let ?invalid = "add_invalid cx (tool_uses \<lparr>msg_role = Assistant, msg_content = rs_content resp\<rparr>) invalid0"
      show ?thesis
        unfolding agent_round_def Let_def using True Answered
        by (simp split del: if_split) (rule emit_invalid_endI, rule fin [OF _ turn])
    next
      case (CallFailed e)
      then show ?thesis using True ok
        by (simp add: agent_round_def emit_def status_for_not_completed)
    qed (use True in \<open>simp_all add: agent_round_def\<close>)
  qed
qed

section \<open>The loop\<close>

lemma agent_loop_good:
  assumes "turn_ok cx s"
  shows "case agent_loop cx res s of
      (None, s') \<Rightarrow> turn_ok cx s' \<and> weight cx s' + length res \<le> weight cx s
    | (Some (Inr st), s') \<Rightarrow> turn_ok cx s' \<and> (st = Completed \<longrightarrow> kept cx (ag_answer s'))
    | (Some (Inl e), s') \<Rightarrow> True"
  using assms
proof (induction cx res s rule: agent_loop.induct)
  case (2 cx re res s)
  have good: "good_end cx (weight cx s) (agent_round cx re s)" by (rule agent_round_good [OF 2(2)])
  show ?case
  proof (cases "agent_round cx re s")
    case (Continue s')
    then have "turn_ok cx s'" "weight cx s' < weight cx s" using good by simp_all
    then show ?thesis using 2(1) [OF Continue] Continue
      by (auto split: prod.splits option.splits sum.splits)
  qed (use good in simp_all)
qed simp

definition start_state :: "agent_ctx \<Rightarrow> agent_state \<Rightarrow> bool" where
  "start_state cx s \<longleftrightarrow> turn_ok cx s \<and> weight cx s = 2 * unat (ax_max_turns cx)"

lemma agent_start_cases:
  "raised (agent_start cx ns task batch) \<or> (\<exists>s. agent_start cx ns task batch = Continue s \<and> start_state cx s)"
proof (cases "ax_writes cx 0")
  case True
  let ?s = "(agent_initial cx)\<lparr>ag_trace := [NodeStart ns]\<rparr>"
  have h: "ag_history ?s = []" by (simp add: agent_initial_def)
  have "start_state cx (s'\<lparr>ag_history := ag_history ?s @ [\<lparr>msg_role = User, msg_content = c\<rparr>]\<rparr>)"
    if "traced ?s s'" for s' c
    using tracedD(2,4) [OF that] unfolding h
    by (simp add: start_state_def turn_ok_def weight_def agent_initial_def)
  moreover have "agent_start cx ns task batch = user_turn cx [Text task] True batch ?s Continue"
    using True by (simp add: agent_start_def emit_def agent_initial_def)
  ultimately show ?thesis
    using user_turn_cases [of cx "[Text task]" True batch ?s Continue]
    by (elim disjE exE conjE) auto
qed (simp add: agent_start_def emit_def agent_initial_def)

lemma agent_run_good:
  "case agent_run cx ns task batch res of
      (None, s') \<Rightarrow> turn_ok cx s' \<and> weight cx s' + length res \<le> 2 * unat (ax_max_turns cx)
    | (Some (Inr st), s') \<Rightarrow> turn_ok cx s' \<and> (st = Completed \<longrightarrow> kept cx (ag_answer s'))
    | (Some (Inl e), s') \<Rightarrow> True"
proof -
  consider e s where "agent_start cx ns task batch = Raise e s"
    | s where "agent_start cx ns task batch = Continue s" "start_state cx s"
    using agent_start_cases [of cx ns task batch] by (auto simp: raised_def)
  then show ?thesis
  proof cases
    case 2
    then show ?thesis using agent_loop_good [of cx s res] by (auto simp: agent_run_def start_state_def split: prod.splits option.splits sum.splits)
  qed (simp add: agent_run_def)
qed

section \<open>A sample run\<close>

text \<open>An agent with an output contract and one tool: it first ends its turn without a result, is
  reminded, and then calls the tool that submits one.\<close>

definition sample_tool :: tool where
  "sample_tool = \<lparr>tl_spec = \<lparr>ts_name = ''s'', ts_description = [], ts_input_schema = JObj [],
     ts_large_input = False\<rparr>, tl_large_input = False, tl_effect = Mutating,
     tl_validate_locally = True, tl_truncated = True\<rparr>"

definition sample_ctx :: agent_ctx where
  "sample_ctx = \<lparr>ax_node = 0, ax_depth = 0, ax_model = \<lparr>mref_provider = ''p'', mref_model = ''m''\<rparr>,
     ax_system = ''sys'', ax_tools = the (toolset_new [sample_tool]),
     ax_output = Some (JObj [(''type'', JStr ''object'')]), ax_max_turns = 3, ax_limits = limits_default,
     ax_options = \<lparr>ro_effort = None, ro_thinking_display = None, ro_disable_cache = False,
       ro_task_budget_total = None\<rparr>,
     ax_writes = (\<lambda>_. True), ax_from_str = (\<lambda>raw. if raw = ''{}'' then Inr (JObj []) else Inl ''no''),
     ax_show_json = (\<lambda>_. []), ax_render = (\<lambda>_. [])\<rparr>"

definition sample_round :: "content_block list \<Rightarrow> stop_reason \<Rightarrow> tool_env list \<Rightarrow> round_env" where
  "sample_round content reason tools = \<lparr>re_stopped = None,
     re_call = Answered \<lparr>rs_id = None, rs_model = ''m'', rs_content = content, rs_stop_reason = reason,
       rs_usage = usage_default, rs_usage_iterations = []\<rparr> [],
     re_past_deadline = False, re_tools = tools, re_stopped_turn = False, re_batch = ([], 0),
     re_stopped_after = None, re_idle = None, re_stopped_idle = None\<rparr>"

definition sample_rounds :: "round_env list" where
  "sample_rounds = [sample_round [Text ''hm''] EndTurn [],
     sample_round [ToolUse ''1'' ''s'' (JObj [])] ToolUseStop
       [\<lparr>te_stopped = False, te_output = \<lparr>ou_content = [], ou_is_error = False,
          ou_final = Some (AnswerValue ''{}'')\<rparr>, te_interrupted = False, te_stopped_after = None\<rparr>]]"

definition sample_start :: node_start where
  "sample_start = \<lparr>ns_node = 0, ns_parent = None, ns_depth = 0, ns_kind = ''agent'', ns_name = ''a'',
     ns_model = ''p/m'', ns_origin_cell = None, ns_system = None, ns_tools = [],
     ns_limits = limits_default, ns_prompt = None\<rparr>"

lemmas round_simps = agent_round_def admit_response_def push_message_def emit_def emit_quiet_def
  user_turn_def deliver_def turn_request_def tool_result_def commit_answer_def
  after_tools_def end_turn_def continues_def tool_uses_def message_text_def List.map_filter_def

lemma sample_tools: "toolset_new [sample_tool] = Some \<lparr>tls_entries = [(''s'', frozen_spec sample_tool, sample_tool)],
    tls_own_validation = []\<rparr>"
  by (simp add: toolset_new_def Let_def frozen_spec_def sample_tool_def)

lemma sample_tool_simps:
  "toolset_validate \<lparr>tls_entries = [(''s'', frozen_spec sample_tool, sample_tool)], tls_own_validation = []\<rparr>
     ''s'' (JObj []) = None"
  "toolset_get \<lparr>tls_entries = [(''s'', frozen_spec sample_tool, sample_tool)], tls_own_validation = []\<rparr>
     ''s'' = Some sample_tool"
  "tl_effect sample_tool = Mutating" "tl_truncated sample_tool"
  by (simp_all add: toolset_validate_def toolset_get_def frozen_spec_def sample_tool_def check_type_def
      check_enum_def required_of_def jindex_def)

lemma sample_accept: "accept sample_ctx (AnswerValue ''{}'') = Inr (AnswerValue ''{}'')"
proof -
  have "validate (JObj [(''type'', JStr ''object'')]) (JObj []) = None"
    by (simp add: check_type_def check_enum_def required_of_def jindex_def)
  moreover have "length (utf8_chars ''{}'') \<le> lim_message_chars limits_default"
    by (simp add: limits_default_def MESSAGE_CHARS_def)
  ultimately show ?thesis unfolding accept_def by (simp only: sample_ctx_def agent_ctx.simps option.case answer.case if_True
      sum.case simp_thms not_less [symmetric] if_False)
qed

lemma sample_ctx_simps [simp]:
  "ax_node sample_ctx = 0" "ax_writes sample_ctx = (\<lambda>_. True)" "ax_max_turns sample_ctx = 3"
  "ax_output sample_ctx = Some (JObj [(''type'', JStr ''object'')])"
  "ax_limits sample_ctx = limits_default"
  "ax_tools sample_ctx = \<lparr>tls_entries = [(''s'', frozen_spec sample_tool, sample_tool)], tls_own_validation = []\<rparr>"
  by (simp_all add: sample_ctx_def sample_tools)

lemma sample_run_completes: "fst (agent_run sample_ctx sample_start ''t'' ([], 0) sample_rounds) = Some (Inr Completed)"
  by (simp add: agent_run_def agent_start_def agent_initial_def round_simps sample_rounds_def sample_round_def
      sample_tool_simps sample_accept Let_def)

section \<open>Properties\<close>

text \<open>
  C33. An agent ends.  A run that is given more than twice as many turns as the agent may take
  has ended, with an outcome or an error, whatever the provider, the tools, the mailbox and the
  trace do (a request is repeated at most once per turn for invalid tool input); and an agent
  that has not failed has never taken more turns than it may.
\<close>
theorem agent_ends_within_turns:
  assumes "2 * unat (ax_max_turns cx) < length res"
  shows "\<exists>r s. agent_run cx ns task batch res = (Some r, s)
    \<and> (\<forall>st. r = Inr st \<longrightarrow> ag_turns s \<le> ax_max_turns cx)"
  using agent_run_good [of cx res ns task batch] assms
  by (auto simp: turn_ok_def split: prod.splits option.splits sum.splits)

theorem agent_ends_within_turns_witness:
  "\<exists>r s. agent_run sample_ctx sample_start ''t'' ([], 0) (replicate 7 (sample_round [] PauseTurn [])) = (Some r, s)"
  using agent_ends_within_turns [of sample_ctx "replicate 7 (sample_round [] PauseTurn [])"] by force

text \<open>
  C34. Every request of an agent sends a history that starts with a user message and in which
  each assistant message that calls tools is followed at once by a user message that begins
  with the results of exactly these calls in their order, messages from other agents never
  standing between them; the history an agent ends with has the same shape.
\<close>
theorem histories_answer_every_call:
  assumes "agent_run cx ns task batch res = (r, s)" "\<not> (\<exists>e. r = Some (Inl e))"
  shows "fully_answered (mr_messages (turn_request cx s)) \<and> mr_messages (turn_request cx s) \<noteq> []
    \<and> msg_role (hd (mr_messages (turn_request cx s))) = User"
  using agent_run_good [of cx res ns task batch] assms
  by (auto simp: turn_ok_def turn_request_def split: option.splits sum.splits)

theorem histories_answer_every_call_witness:
  "fully_answered (ag_history (snd (agent_run sample_ctx sample_start ''t'' ([], 0) sample_rounds)))"
proof -
  have "agent_run sample_ctx sample_start ''t'' ([], 0) sample_rounds
    = (Some (Inr Completed), snd (agent_run sample_ctx sample_start ''t'' ([], 0) sample_rounds))"
    using sample_run_completes by (metis prod.collapse)
  from histories_answer_every_call [OF this] show ?thesis by (simp add: turn_request_def)
qed

text \<open>
  C35. An agent with an output contract completes only with an answer that keeps it: a raw JSON
  value that parses, that the schema of the contract accepts and that fits one message.
\<close>
theorem completed_keeps_contract:
  assumes "agent_run cx ns task batch res = (Some (Inr Completed), s)" "ax_output cx = Some schema"
  shows "\<exists>raw v. ag_answer s = AnswerValue raw \<and> ax_from_str cx raw = Inr v
    \<and> validate schema v = None \<and> length (utf8_chars raw) \<le> lim_message_chars (ax_limits cx)"
  using agent_run_good [of cx res ns task batch] assms by (auto simp: kept_def)

theorem completed_keeps_contract_witness:
  "\<exists>raw. ag_answer (snd (agent_run sample_ctx sample_start ''t'' ([], 0) sample_rounds)) = AnswerValue raw"
proof -
  have "agent_run sample_ctx sample_start ''t'' ([], 0) sample_rounds
    = (Some (Inr Completed), snd (agent_run sample_ctx sample_start ''t'' ([], 0) sample_rounds))"
    using sample_run_completes by (metis prod.collapse)
  from completed_keeps_contract [OF this] show ?thesis by fastforce
qed

end
