(* ===== verification/Recursion.thy ===== *)
theory Recursion
  imports Mailbox_Inv Ledger_Props Tool_Registry Trace
begin

text \<open>
  The agent tree of one run: the directory of `Runtime` with the contexts of its agents, and the
  operations of `NodeCtx` in `crates/core/src/runtime.rs` that spawn, address, message, wait for
  and cancel agents, with the requests of `recursion.rs` and `SubmitResult` of `agent_tools.rs`.
  Each operation is one critical section of the code; what the code awaits is the order of the
  steps.  A cancellation token is a flag of its node that is set with those of all descendants,
  as tokio's child tokens are; the tokens of cells are numbers, cancelled when they are in
  `rt_cells`.  The outer option is None where the code panics.
\<close>

section \<open>State\<close>

record node =
  nd_parent :: "node_id option"
  nd_name :: string
  nd_depth :: u32
  nd_deadline :: nat
  nd_model :: model_ref
  nd_cwd :: string
  nd_options :: request_options
  nd_owners :: "nat list"
  nd_task :: string
  nd_system :: "string option"
  nd_selection :: "string list option"
  nd_init :: "json option"
  nd_origin_cell :: "u32 option"
  nd_max_turns :: u32
  nd_output :: "json option"
  nd_notify :: bool
  nd_tools :: "string list option"
  nd_cancelled :: bool
  nd_closed :: bool
  nd_mailbox :: mailbox
  nd_outcome :: "agent_outcome option"

type_synonym nodes_map = "(node_id \<times> node) list"

text \<open>`rt_pending` holds the accepted sends and the notices whose tasks have not yet queued them.
  `rt_last_instant` is the last instant the platform's clock can represent.\<close>

record runtime =
  rt_limits :: limits
  rt_providers :: "string list"
  rt_last_instant :: nat
  rt_prompt :: string
  rt_ledger :: ledger
  rt_nodes :: nodes_map
  rt_messages :: u64
  rt_cells :: "nat set"
  rt_pending :: "envelope list"

definition update_node :: "node_id \<Rightarrow> (node \<Rightarrow> node) \<Rightarrow> nodes_map \<Rightarrow> nodes_map" where
  "update_node n f nodes = map (\<lambda>(i, nd). (i, if i = n then f nd else nd)) nodes"

definition register :: "node_id \<Rightarrow> node \<Rightarrow> runtime \<Rightarrow> runtime" where
  "register n nd rt = rt\<lparr>rt_nodes := bt_insert n nd (rt_nodes rt)\<rparr>"

definition set_mailbox :: "node_id \<Rightarrow> mailbox \<Rightarrow> runtime \<Rightarrow> runtime" where
  "set_mailbox n mb rt = rt\<lparr>rt_nodes := update_node n (\<lambda>nd. nd\<lparr>nd_mailbox := mb\<rparr>) (rt_nodes rt)\<rparr>"

text \<open>`Runtime::name`.\<close>

definition node_name :: "runtime \<Rightarrow> node_id \<Rightarrow> string" where
  "node_name rt n = (case map_of (rt_nodes rt) n of None \<Rightarrow> [] | Some nd \<Rightarrow> nd_name nd)"

definition message_size :: "runtime \<Rightarrow> envelope \<Rightarrow> nat" where
  "message_size rt e = length (utf8_chars (render e (node_name rt (env_from e))))"

section \<open>Cancellation\<close>

definition subtree :: "nodes_map \<Rightarrow> node_id \<Rightarrow> node_id set" where
  "subtree nodes n =
     fold (\<lambda>(i, nd) S. if i = n \<or> (\<exists>p \<in> S. nd_parent nd = Some p) then insert i S else S) nodes {}"

definition cancel_node :: "node_id \<Rightarrow> runtime \<Rightarrow> runtime" where
  "cancel_node n rt = rt\<lparr>rt_nodes := map (\<lambda>(i, nd).
     (i, if i \<in> subtree (rt_nodes rt) n then nd\<lparr>nd_cancelled := True\<rparr> else nd)) (rt_nodes rt)\<rparr>"

definition stopped :: "node_id \<Rightarrow> node \<Rightarrow> runtime \<Rightarrow> bool \<times> runtime" where
  "stopped n nd rt =
     (if \<not> nd_cancelled nd \<and> list_ex (\<lambda>c. c \<in> rt_cells rt) (nd_owners nd)
      then (True, cancel_node n rt) else (nd_cancelled nd, rt))"

definition check_open :: "node_id \<Rightarrow> node \<Rightarrow> nat \<Rightarrow> runtime \<Rightarrow> bool \<times> runtime" where
  "check_open n nd now rt =
     (if nd_closed nd then (False, rt)
      else case stopped n nd rt of
        (True, rt') \<Rightarrow> (False, rt')
      | (False, rt') \<Rightarrow> (now < nd_deadline nd, rt'))"

section \<open>Spawning\<close>

definition SUBMIT_RESULT :: string where
  "SUBMIT_RESULT = ''submit_result''"

record child_spec =
  cs_task :: string
  cs_name :: "string option"
  cs_model :: "model_ref option"
  cs_tools :: "string list option"
  cs_max_turns :: "u32 option"
  cs_budget :: "u64 option"
  cs_timeout :: "duration option"
  cs_init :: "json option"
  cs_preamble :: "string option"
  cs_origin_cell :: "u32 option"
  cs_output :: "json option"

definition child_spec_new :: "string \<Rightarrow> child_spec" where
  "child_spec_new task = \<lparr>cs_task = task, cs_name = None, cs_model = None, cs_tools = None,
     cs_max_turns = None, cs_budget = None, cs_timeout = None, cs_init = None, cs_preamble = None,
     cs_origin_cell = None, cs_output = None\<rparr>"

datatype owner = CellOwner nat | NodeOwner

definition validate_model :: "runtime \<Rightarrow> model_ref \<Rightarrow> recursion_error option" where
  "validate_model rt m =
     (if mref_model m = [] \<or> mref_provider m \<notin> set (rt_providers rt)
      then Some (InvalidRequest (''unknown model reference: '' @ model_ref_display m)) else None)"

definition child_deadline :: "runtime \<Rightarrow> node \<Rightarrow> nat \<Rightarrow> duration option \<Rightarrow> recursion_error + nat" where
  "child_deadline rt me now timeout = (case timeout of
       None \<Rightarrow> Inr (nd_deadline me)
     | Some t \<Rightarrow> if rt_last_instant rt < now + t then Inl (InvalidRequest ''timeout is too large'')
         else Inr (min (now + t) (nd_deadline me)))"

definition child_tools :: "string list \<Rightarrow> string list option \<Rightarrow> recursion_error + string list" where
  "child_tools owned requested = (case requested of
       None \<Rightarrow> Inr (filter (\<lambda>n. n \<in> set owned) SUBAGENT_TOOLS)
     | Some names \<Rightarrow>
         if SUBMIT_RESULT \<in> set names then Inl (InvalidRequest ''submit_result comes with an output schema'')
         else case find (\<lambda>n. n \<notin> set owned) names of
                Some n \<Rightarrow> Inl (InvalidRequest (''tool not held by parent: '' @ n))
              | None \<Rightarrow> Inr names)"

fun schema_error_display :: "(json \<Rightarrow> string) \<Rightarrow> schema_error \<Rightarrow> string" where
  "schema_error_display sj SchemaNotObject = ''schema must be an object''"
| "schema_error_display sj (UnsupportedSchemaType t) = ''unsupported schema type: '' @ sj t"
| "schema_error_display sj RequiredNotNames = ''required must list property names''"
| "schema_error_display sj EnumNotArray = ''enum must be an array''"
| "schema_error_display sj PropertiesNotObject = ''properties must be an object''"

definition output_error :: "(json \<Rightarrow> string) \<Rightarrow> json option \<Rightarrow> recursion_error option" where
  "output_error sj contract = (case contract of
       None \<Rightarrow> None
     | Some schema \<Rightarrow>
         if as_str (jindex schema ''type'') \<noteq> Some ''object''
         then Some (InvalidRequest ''output must be a JSON schema of type object'')
         else map_option (\<lambda>e. InvalidRequest (''invalid output schema: '' @ schema_error_display sj e))
           (check_schema schema))"

text \<open>Everything `spawn_agent` checks before the owner and the ledger, in its order.\<close>

definition spawn_checks :: "(json \<Rightarrow> string) \<Rightarrow> runtime \<Rightarrow> node \<Rightarrow> nat \<Rightarrow> child_spec
    \<Rightarrow> recursion_error + (nat \<times> model_ref \<times> string list)" where
  "spawn_checks sj rt me now sp =
     (if cs_max_turns sp = Some 0 \<or> cs_timeout sp = Some 0
      then Inl (InvalidRequest ''turns and timeout must be positive'')
      else case child_deadline rt me now (cs_timeout sp) of
        Inl e \<Rightarrow> Inl e
      | Inr deadline \<Rightarrow>
          let model = (case cs_model sp of Some m \<Rightarrow> m | None \<Rightarrow> nd_model me) in
          case validate_model rt model of
            Some e \<Rightarrow> Inl e
          | None \<Rightarrow>
              (case nd_tools me of
                 None \<Rightarrow> Inl (InvalidRequest ''toolset not frozen'')
               | Some owned \<Rightarrow>
                   (case child_tools owned (cs_tools sp) of
                      Inl e \<Rightarrow> Inl e
                    | Inr names \<Rightarrow>
                        (case output_error sj (cs_output sp) of
                           Some e \<Rightarrow> Inl e
                         | None \<Rightarrow> Inr (deadline, model, names)))))"

definition child_node :: "runtime \<Rightarrow> node_id \<Rightarrow> node \<Rightarrow> child_spec \<Rightarrow> owner \<Rightarrow> nat \<Rightarrow> model_ref \<Rightarrow> string list
    \<Rightarrow> node" where
  "child_node rt self me sp own deadline model names = \<lparr>
     nd_parent = Some self,
     nd_name = (case cs_name sp of Some n \<Rightarrow> n | None \<Rightarrow> []),
     nd_depth = nd_depth me + 1,
     nd_deadline = deadline,
     nd_model = model,
     nd_cwd = nd_cwd me,
     nd_options = nd_options me,
     nd_owners = nd_owners me @ (case own of CellOwner c \<Rightarrow> [c] | NodeOwner \<Rightarrow> []),
     nd_task = (case cs_preamble sp of Some p \<Rightarrow> cs_task sp @ [CHR 0x0A, CHR 0x0A] @ p | None \<Rightarrow> cs_task sp),
     nd_system = Some (rt_prompt rt),
     nd_selection = Some names,
     nd_init = cs_init sp,
     nd_origin_cell = cs_origin_cell sp,
     nd_max_turns = (case cs_max_turns sp of Some t \<Rightarrow> t | None \<Rightarrow> lim_subagent_max_turns (rt_limits rt)),
     nd_output = cs_output sp,
     nd_notify = (own = NodeOwner),
     nd_tools = None,
     nd_cancelled = nd_cancelled me,
     nd_closed = False,
     nd_mailbox = mailbox_new,
     nd_outcome = None\<rparr>"

definition expect_child :: "node_id \<Rightarrow> node_id \<Rightarrow> runtime \<Rightarrow> runtime" where
  "expect_child self child rt =
     rt\<lparr>rt_nodes := update_node self (\<lambda>nd. nd\<lparr>nd_mailbox := mb_expect (nd_mailbox nd) child\<rparr>) (rt_nodes rt)\<rparr>"

definition spawn_agent :: "(json \<Rightarrow> string) \<Rightarrow> node_id \<Rightarrow> nat \<Rightarrow> child_spec \<Rightarrow> owner \<Rightarrow> runtime
    \<Rightarrow> ((recursion_error + node_id) \<times> runtime) option" where
  "spawn_agent sj self now sp own rt = (case map_of (rt_nodes rt) self of
       None \<Rightarrow> None
     | Some me \<Rightarrow>
         (case check_open self me now rt of
            (False, rt') \<Rightarrow> Some (Inl Cancelled, rt')
          | (True, rt') \<Rightarrow>
              (case spawn_checks sj rt' me now sp of
                 Inl e \<Rightarrow> Some (Inl e, rt')
               | Inr (deadline, model, names) \<Rightarrow>
                   if (case own of CellOwner c \<Rightarrow> c \<in> rt_cells rt' | NodeOwner \<Rightarrow> False)
                   then Some (Inl Cancelled, rt')
                   else case admit (rt_ledger rt') self True (cs_budget sp) of
                          None \<Rightarrow> None
                        | Some (Inl e, l) \<Rightarrow> Some (Inl e, rt'\<lparr>rt_ledger := l\<rparr>)
                        | Some (Inr child, l) \<Rightarrow>
                            let rt1 = register child (child_node rt' self me sp own deadline model names)
                                  (rt'\<lparr>rt_ledger := l\<rparr>)
                            in Some (Inr child, if own = NodeOwner then expect_child self child rt1 else rt1))))"

section \<open>Frozen toolsets\<close>

definition submit_tool :: "json \<Rightarrow> tool" where
  "submit_tool schema = \<lparr>tl_spec = \<lparr>ts_name = SUBMIT_RESULT, ts_description =
       ''Submit your result. The input must match this schema. A valid submission ends your work at once and sends the result to your parent; an invalid one returns what to fix.'',
       ts_input_schema = schema, ts_large_input = False\<rparr>,
     tl_large_input = False, tl_effect = Mutating, tl_validate_locally = True, tl_truncated = True\<rparr>"

text \<open>The toolset factory, which the frontend provides, is the argument `factory`; None is its error,
  its panic, an unknown name or a name used twice, all of which fail the agent.\<close>

type_synonym tool_factory = "node_id \<Rightarrow> node \<Rightarrow> toolset option"

definition start_tools :: "tool_factory \<Rightarrow> node_id \<Rightarrow> node \<Rightarrow> toolset option" where
  "start_tools factory n nd = (case factory n nd of
       None \<Rightarrow> None
     | Some ts \<Rightarrow>
         (case select ts (nd_selection nd) of
            Inl _ \<Rightarrow> None
          | Inr ts' \<Rightarrow>
              (case nd_output nd of
                 Some schema \<Rightarrow> with_own_validation ts' (submit_tool schema)
               | None \<Rightarrow> Some ts')))"

text \<open>An agent begins: its tool names are frozen, once.\<close>

definition start_agent :: "tool_factory \<Rightarrow> node_id \<Rightarrow> runtime \<Rightarrow> (bool \<times> runtime) option" where
  "start_agent factory n rt = (case map_of (rt_nodes rt) n of
       None \<Rightarrow> None
     | Some nd \<Rightarrow>
         (case start_tools factory n nd of
            None \<Rightarrow> Some (False, rt)
          | Some ts \<Rightarrow>
              if nd_tools nd \<noteq> None then None
              else Some (True, rt\<lparr>rt_nodes :=
                update_node n (\<lambda>nd. nd\<lparr>nd_tools := Some (map ts_name (specs ts))\<rparr>) (rt_nodes rt)\<rparr>)))"

text \<open>`run_owned` before the root agent begins.\<close>

definition root_node :: "limits \<Rightarrow> nat \<Rightarrow> model_ref \<Rightarrow> string \<Rightarrow> request_options \<Rightarrow> string \<Rightarrow> string option
    \<Rightarrow> string list option \<Rightarrow> node" where
  "root_node l now model cwd options task system selection = \<lparr>
     nd_parent = None, nd_name = ''root'', nd_depth = 0, nd_deadline = now + lim_run_timeout l,
     nd_model = model, nd_cwd = cwd, nd_options = options, nd_owners = [], nd_task = task,
     nd_system = system, nd_selection = selection, nd_init = None, nd_origin_cell = None,
     nd_max_turns = lim_max_turns l, nd_output = None, nd_notify = False, nd_tools = None,
     nd_cancelled = False, nd_closed = False, nd_mailbox = mailbox_new, nd_outcome = None\<rparr>"

definition runtime_new :: "(duration \<Rightarrow> bool) \<Rightarrow> limits \<Rightarrow> string list \<Rightarrow> nat \<Rightarrow> string \<Rightarrow> node
    \<Rightarrow> limits_error + runtime" where
  "runtime_new fits l providers last_instant prompt root =
     (case ledger_new fits l of
        Inl e \<Rightarrow> Inl e
      | Inr ledger \<Rightarrow> Inr (register 0 root \<lparr>rt_limits = l, rt_providers = providers,
          rt_last_instant = last_instant, rt_prompt = prompt, rt_ledger = ledger, rt_nodes = [],
          rt_messages = 0, rt_cells = {}, rt_pending = []\<rparr>))"

section \<open>Addressing\<close>

definition trim :: "string \<Rightarrow> string" where
  "trim s = concat (rev (dropWhile (\<lambda>c. c \<in> set ws_encodings) (rev (utf8_chars (trim_start s)))))"

fun digits_value :: "nat \<Rightarrow> string \<Rightarrow> nat option" where
  "digits_value n [] = Some n"
| "digits_value n (c # cs) =
     (if c \<in> set ''0123456789'' then digits_value (n * 10 + (of_char c - 48)) cs else None)"

text \<open>`str::parse::<u32>`.\<close>

definition parse_u32 :: "string \<Rightarrow> nat option" where
  "parse_u32 s =
     (let ds = (case s of c # cs \<Rightarrow> if c = CHR ''+'' then cs else s | [] \<Rightarrow> s)
      in if ds = [] then None
         else case digits_value 0 ds of
                Some n \<Rightarrow> if n < 2 ^ 32 then Some n else None
              | None \<Rightarrow> None)"

definition parent_of :: "runtime \<Rightarrow> node_id \<Rightarrow> node_id option" where
  "parent_of rt n = Option.bind (map_of (rt_nodes rt) n) nd_parent"

definition resolve_name :: "runtime \<Rightarrow> node_id \<Rightarrow> string \<Rightarrow> node_id list" where
  "resolve_name rt self address =
     map fst (filter (\<lambda>(i, nd). i \<noteq> self \<and> nd_name nd \<noteq> [] \<and> nd_name nd = address
       \<and> (Some i = parent_of rt self \<or> nd_parent nd = Some self
          \<or> parent_of rt self \<noteq> None \<and> nd_parent nd = parent_of rt self)) (rt_nodes rt))"

definition resolve :: "runtime \<Rightarrow> node_id \<Rightarrow> string \<Rightarrow> recursion_error + node_id" where
  "resolve rt self raw =
     (let address = trim raw in
      if address = ''parent''
      then (case parent_of rt self of
              Some p \<Rightarrow> Inr p | None \<Rightarrow> Inl (InvalidRequest ''the root agent has no parent''))
      else case parse_u32 (case address of c # cs \<Rightarrow> if c = CHR ''#'' then cs else address | [] \<Rightarrow> []) of
        Some n \<Rightarrow> Inr n
      | None \<Rightarrow>
          (case resolve_name rt self address of
             [n] \<Rightarrow> Inr n
           | [] \<Rightarrow> Inl (InvalidRequest (''unknown agent: '' @ address))
           | _ \<Rightarrow> Inl (InvalidRequest (''ambiguous agent name: '' @ address @ ''; use its id''))))"

definition kin :: "runtime \<Rightarrow> node_id \<Rightarrow> node_id \<Rightarrow> recursion_error + node_id option" where
  "kin rt self other =
     (let unknown = Inl (InvalidRequest (''unknown agent: '' @ show_nat other)) in
      case (map_of (rt_nodes rt) self, map_of (rt_nodes rt) other) of
        (Some me, Some target) \<Rightarrow>
          if other = self then Inl (InvalidRequest ''cannot send a message to yourself'')
          else if nd_parent me = Some other then Inr (Some self)
          else if nd_parent target = Some self then Inr (Some other)
          else if nd_parent me \<noteq> None \<and> nd_parent me = nd_parent target then Inr None
          else Inl (InvalidRequest (''agent '' @ show_nat other
            @ '' is not this agent's parent, child or sibling''))
      | _ \<Rightarrow> unknown)"

section \<open>Messages\<close>

text \<open>An accepted send: room is granted in the recipient's mailbox and the message waits for the
  sender's earlier ones.\<close>

definition send_message :: "node_id \<Rightarrow> nat \<Rightarrow> node_id \<Rightarrow> string \<Rightarrow> runtime
    \<Rightarrow> ((recursion_error + u64) \<times> runtime) option" where
  "send_message self now other body rt =
     (if lim_message_chars (rt_limits rt) < length (utf8_chars body)
      then Some (Inl (InvalidRequest (''message exceeds '' @ show_nat (lim_message_chars (rt_limits rt))
        @ '' characters'')), rt)
      else case map_of (rt_nodes rt) self of
        None \<Rightarrow> None
      | Some me \<Rightarrow>
          (case check_open self me now rt of
             (False, rt') \<Rightarrow> Some (Inl Cancelled, rt')
           | (True, rt') \<Rightarrow>
               (case (kin rt' self other, map_of (rt_nodes rt') other) of
                  (Inl e, _) \<Rightarrow> Some (Inl e, rt')
                | (Inr _, None) \<Rightarrow> None
                | (Inr spawn, Some target) \<Rightarrow>
                    (case mb_reserve (nd_mailbox target) (unat (lim_mailbox_capacity (rt_limits rt'))) of
                       (Inl Full, _) \<Rightarrow> Some (Inl (MailboxFull other), rt')
                     | (Inl Closed, _) \<Rightarrow> Some (Inl (AgentFinished other), rt')
                     | (Inr _, mb) \<Rightarrow>
                         (let e = \<lparr>env_id = rt_messages rt', env_from = self, env_to = other,
                              env_kind = KMessage, env_body = body, env_sent_at = now,
                              env_spawn = spawn, env_status = None\<rparr>
                          in Some (Inr (env_id e), (set_mailbox other mb rt')
                               \<lparr>rt_messages := rt_messages rt' + 1, rt_pending := rt_pending rt' @ [e]\<rparr>))))))"

text \<open>The oldest pending envelope of a sender is queued, or reported undelivered when its recipient
  has closed its mailbox.\<close>

definition queue_next :: "node_id \<Rightarrow> runtime \<Rightarrow> runtime option" where
  "queue_next sender rt = (case find (\<lambda>e. env_from e = sender) (rt_pending rt) of
       None \<Rightarrow> Some rt
     | Some e \<Rightarrow>
         (case map_of (rt_nodes rt) (env_to e) of
            None \<Rightarrow> None
          | Some nd \<Rightarrow>
              map_option (\<lambda>(_, mb). (set_mailbox (env_to e) mb rt)\<lparr>rt_pending := remove1 e (rt_pending rt)\<rparr>)
                (mb_push (nd_mailbox nd) e)))"

definition notice_of :: "runtime \<Rightarrow> nat \<Rightarrow> node_id \<Rightarrow> agent_outcome \<Rightarrow> envelope" where
  "notice_of rt now parent oc = \<lparr>env_id = rt_messages rt, env_from = ao_node oc, env_to = parent,
     env_kind = for_status (ao_status oc),
     env_body = truncate_text (answer_text (ao_answer oc)) (lim_message_chars (rt_limits rt)),
     env_sent_at = now, env_spawn = Some (ao_node oc), env_status = Some (ao_status oc)\<rparr>"

definition post_notice :: "nat \<Rightarrow> node_id \<Rightarrow> agent_outcome \<Rightarrow> runtime \<Rightarrow> runtime" where
  "post_notice now parent oc rt = rt\<lparr>rt_messages := rt_messages rt + 1,
     rt_pending := rt_pending rt @ [notice_of rt now parent oc]\<rparr>"

section \<open>Ending\<close>

definition end_mailbox :: "node_id \<Rightarrow> runtime \<Rightarrow> (envelope list \<times> runtime) option" where
  "end_mailbox n rt = map_option (\<lambda>nd. case mb_close (nd_mailbox nd) of
     (left_over, mb) \<Rightarrow> (left_over, set_mailbox n mb rt)) (map_of (rt_nodes rt) n)"

text \<open>The critical section of `join_descendants`.\<close>

definition close_work :: "node_id \<Rightarrow> runtime \<Rightarrow> runtime option" where
  "close_work n rt = map_option (\<lambda>l. cancel_node n (rt\<lparr>rt_ledger := l,
       rt_nodes := update_node n (\<lambda>nd. nd\<lparr>nd_closed := True\<rparr>) (rt_nodes rt)\<rparr>))
     (close_admission (rt_ledger rt) n)"

text \<open>The tasks a node owns: its children with their notices, its sends and the notices it staged.\<close>

definition joined :: "node_id \<Rightarrow> runtime \<Rightarrow> bool" where
  "joined n rt \<longleftrightarrow> list_all (\<lambda>(i, nd). nd_parent nd = Some n \<longrightarrow> nd_outcome nd \<noteq> None) (rt_nodes rt)
     \<and> list_all (\<lambda>e. env_from e \<noteq> n \<and> (env_to e = n \<longrightarrow> is_plain e)) (rt_pending rt)"

definition outcome_of :: "runtime \<Rightarrow> node_id \<Rightarrow> status \<Rightarrow> answer \<Rightarrow> u32 \<Rightarrow> agent_outcome option" where
  "outcome_of rt n st ans turns = map_option (\<lambda>(own, sub). \<lparr>ao_node = n, ao_status = st, ao_answer = ans,
     ao_usage_self = own, ao_usage_subtree = sub, ao_turns = turns\<rparr>) (usage_of (rt_ledger rt) n)"

text \<open>Once its tasks are joined a node's scope is shut down and its outcome published; a node-owned
  child then posts its notice.\<close>

definition finish_agent :: "node_id \<Rightarrow> nat \<Rightarrow> status \<Rightarrow> answer \<Rightarrow> u32 \<Rightarrow> runtime \<Rightarrow> runtime option" where
  "finish_agent n now st ans turns rt =
     (case (map_of (rt_nodes rt) n, outcome_of rt n st ans turns, shutdown (rt_ledger rt) n) of
        (Some nd, Some oc, Some l) \<Rightarrow>
          (if nd_closed nd \<and> joined n rt \<and> nd_outcome nd = None then
             (let rt1 = rt\<lparr>rt_ledger := l,
                rt_nodes := update_node n (\<lambda>nd. nd\<lparr>nd_outcome := Some oc\<rparr>) (rt_nodes rt)\<rparr>
              in Some (case nd_parent nd of
                   Some p \<Rightarrow> if nd_notify nd then post_notice now p oc rt1 else rt1
                 | None \<Rightarrow> rt1))
           else Some rt)
      | _ \<Rightarrow> None)"

section \<open>Receiving and waiting\<close>

definition take_for :: "node_id \<Rightarrow> node \<Rightarrow> (envelope \<Rightarrow> bool) \<Rightarrow> runtime \<Rightarrow> (batch \<times> runtime) option" where
  "take_for self me pick rt = map_option (\<lambda>(b, mb). (b, set_mailbox self mb rt))
     (take_batch (nd_mailbox me) (lim_delivery_chars (rt_limits rt)) pick (message_size rt))"

text \<open>One round of `receive`: messages (none when this turn's budget is spent), an error, or nothing
  yet.\<close>

datatype received = Received "envelope list" | ReceiveFailed recursion_error | NothingYet

definition receive :: "node_id \<Rightarrow> nat \<Rightarrow> runtime \<Rightarrow> (received \<times> runtime) option" where
  "receive self now rt = (case map_of (rt_nodes rt) self of
       None \<Rightarrow> None
     | Some me \<Rightarrow>
         (case check_open self me now rt of
            (False, rt') \<Rightarrow> Some (ReceiveFailed Cancelled, rt')
          | (True, rt') \<Rightarrow>
              map_option (\<lambda>(b, rt'').
                (if bt_taken b \<noteq> [] then Received (bt_taken b)
                 else if 0 < bt_queued b then Received []
                 else if mb_is_closed (nd_mailbox me) then ReceiveFailed Cancelled
                 else NothingYet, rt''))
              (take_for self me (\<lambda>_. True) rt')))"

definition children_of_node :: "runtime \<Rightarrow> node_id \<Rightarrow> node_id list" where
  "children_of_node rt self = map fst (filter (\<lambda>(i, nd). nd_parent nd = Some self) (rt_nodes rt))"

definition wait_targets :: "runtime \<Rightarrow> node_id \<Rightarrow> node \<Rightarrow> node_id list option
    \<Rightarrow> recursion_error + node_id list" where
  "wait_targets rt self me agents =
     (let children = children_of_node rt self in
      case agents of
        Some ids \<Rightarrow> (case find (\<lambda>i. i \<notin> set children) ids of
            Some i \<Rightarrow> Inl (InvalidRequest (''agent '' @ show_nat i @ '' is not a child of this agent''))
          | None \<Rightarrow> Inr (sorted_list_of_set (set ids)))
      | None \<Rightarrow> Inr (filter (\<lambda>i. i \<in> mb_outstanding (nd_mailbox me)) children))"

definition node_outcome :: "runtime \<Rightarrow> node_id \<Rightarrow> agent_outcome option" where
  "node_outcome rt n = Option.bind (map_of (rt_nodes rt) n) nd_outcome"

definition stage_notice :: "node_id \<Rightarrow> nat \<Rightarrow> node_id \<Rightarrow> runtime \<Rightarrow> runtime" where
  "stage_notice self now child rt = (case (map_of (rt_nodes rt) self, node_outcome rt child) of
       (Some me, Some oc) \<Rightarrow>
         (case mb_stage (nd_mailbox me) child of
            (True, mb) \<Rightarrow> post_notice now self oc (set_mailbox self mb rt)
          | (False, _) \<Rightarrow> rt)
     | _ \<Rightarrow> rt)"

text \<open>One round of the wait: the notices of finished targets that post none are staged.\<close>

definition wait_round :: "node_id \<Rightarrow> nat \<Rightarrow> node_id list \<Rightarrow> runtime \<Rightarrow> (bool \<times> runtime) option" where
  "wait_round self now targets rt = (case map_of (rt_nodes rt) self of
       None \<Rightarrow> None
     | Some me \<Rightarrow>
         (case check_open self me now rt of
            (False, rt') \<Rightarrow> Some (False, rt')
          | (True, rt') \<Rightarrow> Some (True, fold (stage_notice self now) targets rt')))"

definition child_finished :: "runtime \<Rightarrow> node \<Rightarrow> node_id \<Rightarrow> bool" where
  "child_finished rt me child =
     (node_outcome rt child \<noteq> None \<and> \<not> mb_is_awaiting (nd_mailbox me) child)"

record waited =
  wt_messages :: "envelope list"
  wt_finished :: "agent_outcome list"
  wt_deferred :: "node_id \<rightharpoonup> nat"
  wt_running :: "node_id list"

definition wait_take :: "node_id \<Rightarrow> nat \<Rightarrow> node_id list \<Rightarrow> runtime
    \<Rightarrow> ((recursion_error + waited) \<times> runtime) option" where
  "wait_take self now targets rt = (case map_of (rt_nodes rt) self of
       None \<Rightarrow> None
     | Some me \<Rightarrow>
         (let finished = filter (child_finished rt me) targets in
          case check_open self me now rt of
            (False, rt') \<Rightarrow> Some (Inl Cancelled, rt')
          | (True, rt') \<Rightarrow>
              map_option (\<lambda>(b, rt''). (Inr \<lparr>wt_messages = bt_taken b,
                  wt_finished = List.map_filter (node_outcome rt) finished,
                  wt_deferred = bt_left b,
                  wt_running = filter (\<lambda>i. i \<notin> set finished) targets\<rparr>, rt''))
                (take_for self me (\<lambda>e. env_from e \<in> set finished) rt')))"

section \<open>Cancelling\<close>

text \<open>The walk up from an agent to `self`; None is an endless walk.\<close>

partial_function (option) climb_to :: "nodes_map \<Rightarrow> node_id \<Rightarrow> node_id option \<Rightarrow> node_id option option" where
  "climb_to nodes self ancestor = (case ancestor of
       None \<Rightarrow> Some None
     | Some i \<Rightarrow> if i = self then Some (Some i)
         else climb_to nodes self (Option.bind (map_of nodes i) nd_parent))"

definition cancel_agent :: "node_id \<Rightarrow> nat \<Rightarrow> node_id \<Rightarrow> runtime
    \<Rightarrow> ((recursion_error + bool) \<times> runtime) option" where
  "cancel_agent self now agent rt = (case map_of (rt_nodes rt) self of
       None \<Rightarrow> None
     | Some me \<Rightarrow>
         (case check_open self me now rt of
            (False, rt') \<Rightarrow> Some (Inl Cancelled, rt')
          | (True, rt') \<Rightarrow>
              (case map_of (rt_nodes rt') agent of
                 None \<Rightarrow> Some (Inl (InvalidRequest (''unknown agent: '' @ show_nat agent)), rt')
               | Some target \<Rightarrow>
                   (case climb_to (rt_nodes rt') self (nd_parent target) of
                      None \<Rightarrow> None
                    | Some (Some _) \<Rightarrow>
                        if agent \<noteq> self \<and> nd_parent target \<noteq> None
                        then Some (Inr (nd_outcome target \<noteq> None), cancel_node agent rt')
                        else Some (Inl (InvalidRequest (''agent '' @ show_nat agent
                          @ '' is not a descendant of this agent'')), rt')
                    | Some None \<Rightarrow> Some (Inl (InvalidRequest (''agent '' @ show_nat agent
                          @ '' is not a descendant of this agent'')), rt')))))"

section \<open>Runs\<close>

datatype runtime_op =
    SpawnOp node_id nat child_spec owner
  | StartOp node_id
  | SendOp node_id nat node_id string
  | QueueOp node_id
  | ReceiveOp node_id nat
  | WaitOp node_id nat "node_id list option"
  | TakeWaitedOp node_id nat "node_id list"
  | CancelOp node_id nat node_id
  | CancelCellOp nat
  | ExpireOp node_id
  | EndMailboxOp node_id
  | CloseWorkOp node_id
  | FinishOp node_id nat status answer u32
  | LedgerOp ledger_op

text \<open>An expired deadline or a cancelled cell makes the watcher of a node cancel it.\<close>

definition wait_step :: "node_id \<Rightarrow> nat \<Rightarrow> node_id list option \<Rightarrow> runtime \<Rightarrow> runtime option" where
  "wait_step self now agents rt = (case map_of (rt_nodes rt) self of
       None \<Rightarrow> None
     | Some me \<Rightarrow>
         (case wait_targets rt self me agents of
            Inl _ \<Rightarrow> Some rt
          | Inr targets \<Rightarrow> map_option snd (wait_round self now targets rt)))"

fun runtime_step :: "(json \<Rightarrow> string) \<Rightarrow> tool_factory \<Rightarrow> runtime \<Rightarrow> runtime_op \<Rightarrow> runtime option" where
  "runtime_step sj fc rt (SpawnOp n now sp own) = map_option snd (spawn_agent sj n now sp own rt)"
| "runtime_step sj fc rt (StartOp n) = map_option snd (start_agent fc n rt)"
| "runtime_step sj fc rt (SendOp n now other body) = map_option snd (send_message n now other body rt)"
| "runtime_step sj fc rt (QueueOp n) = queue_next n rt"
| "runtime_step sj fc rt (ReceiveOp n now) = map_option snd (receive n now rt)"
| "runtime_step sj fc rt (WaitOp n now agents) = wait_step n now agents rt"
| "runtime_step sj fc rt (TakeWaitedOp n now targets) = map_option snd (wait_take n now targets rt)"
| "runtime_step sj fc rt (CancelOp n now agent) = map_option snd (cancel_agent n now agent rt)"
| "runtime_step sj fc rt (CancelCellOp c) = Some (rt\<lparr>rt_cells := insert c (rt_cells rt)\<rparr>)"
| "runtime_step sj fc rt (ExpireOp n) = Some (cancel_node n rt)"
| "runtime_step sj fc rt (EndMailboxOp n) = map_option snd (end_mailbox n rt)"
| "runtime_step sj fc rt (CloseWorkOp n) = close_work n rt"
| "runtime_step sj fc rt (FinishOp n now st ans turns) = finish_agent n now st ans turns rt"
| "runtime_step sj fc rt (LedgerOp op) = (case op of
       Admit _ True _ \<Rightarrow> Some rt
     | _ \<Rightarrow> map_option (\<lambda>l. rt\<lparr>rt_ledger := l\<rparr>) (ledger_step (rt_ledger rt) op))"

text \<open>The runs from a runtime, of fewer than `2 ^ 64` reservations.\<close>

inductive runtime_reaches :: "(json \<Rightarrow> string) \<Rightarrow> tool_factory \<Rightarrow> runtime \<Rightarrow> runtime \<Rightarrow> bool"
  for sj fc rt0 where
  start: "runtime_reaches sj fc rt0 rt0"
| step: "runtime_reaches sj fc rt0 rt \<Longrightarrow> lg_next_attempt (rt_ledger rt) \<noteq> - 1
    \<Longrightarrow> runtime_step sj fc rt op = Some rt'
    \<Longrightarrow> runtime_reaches sj fc rt0 rt'"

end
