(* ===== verification/Recursion_Inv.thy ===== *)
theory Recursion_Inv
  imports Recursion
begin

text \<open>
  The invariant of the agent tree: every child holds less than its parent, cancellation covers
  whole subtrees, and messages travel only between an agent and its parent, children and
  siblings.
\<close>

section \<open>Subtrees\<close>

definition ordered :: "nodes_map \<Rightarrow> bool" where
  "ordered nodes \<longleftrightarrow> bt_wf nodes \<and> (\<forall>(i, nd) \<in> set nodes. \<forall>p. nd_parent nd = Some p \<longrightarrow> p < i)"

lemma subtree_snoc: "subtree (nodes @ [(i, nd)]) n =
    (if i = n \<or> (\<exists>p \<in> subtree nodes n. nd_parent nd = Some p) then insert i (subtree nodes n)
     else subtree nodes n)"
  by (simp add: subtree_def)

lemma subtree_keys: "subtree nodes n \<subseteq> fst ` set nodes"
proof (induction nodes rule: rev_induct)
  case (snoc x nodes)
  then show ?case by (cases x) (auto simp: subtree_snoc)
qed (simp add: subtree_def)

lemma bt_wf_snoc: "bt_wf (m @ [(i, v)]) \<longleftrightarrow> bt_wf m \<and> (\<forall>k \<in> fst ` set m. k < i)"
  by (auto simp: bt_wf_def sorted_wrt_append)

lemma subtree_iff:
  assumes "ordered nodes" "(i, nd) \<in> set nodes"
  shows "i \<in> subtree nodes n \<longleftrightarrow> i = n \<or> (\<exists>p \<in> subtree nodes n. nd_parent nd = Some p)"
  using assms
proof (induction nodes rule: rev_induct)
  case (snoc x nodes)
  obtain j nj where x: "x = (j, nj)" by (cases x)
  have ord: "ordered nodes" and less: "\<forall>k \<in> fst ` set nodes. k < j"
    using snoc.prems(1) by (auto simp: ordered_def x bt_wf_snoc)
  have new: "j \<notin> subtree nodes n" using subtree_keys [of nodes n] less by auto
  have pj: "nd_parent nj \<noteq> Some j" using snoc.prems(1) by (auto simp: ordered_def x)
  show ?case
  proof (cases "(i, nd) = x")
    case True
    then show ?thesis using new pj by (auto simp: x subtree_snoc)
  next
    case False
    then have i: "(i, nd) \<in> set nodes" using snoc.prems(2) by auto
    then have ij: "i < j" using less by force
    have "nd_parent nd \<noteq> Some j"
      using ord i ij by (force simp: ordered_def)
    then show ?thesis using snoc.IH [OF ord i] ij by (auto simp: x subtree_snoc)
  qed
qed simp

lemma ordered_map_of: "ordered nodes \<Longrightarrow> (i, nd) \<in> set nodes \<longleftrightarrow> map_of nodes i = Some nd"
  by (simp add: ordered_def bt_wf_distinct)

text \<open>An update of the nodes that keeps their parents.\<close>

lemma subtree_update:
  assumes "\<And>i nd. (i, nd) \<in> set nodes \<Longrightarrow> nd_parent (g i nd) = nd_parent nd"
  shows "subtree (map (\<lambda>(i, nd). (i, g i nd)) nodes) n = subtree nodes n"
  using assms
proof (induction nodes rule: rev_induct)
  case (snoc x nodes)
  then show ?case by (cases x) (simp add: subtree_snoc)
qed (simp add: subtree_def)

section \<open>The ledger below\<close>

definition ledger_grows :: "ledger \<Rightarrow> ledger \<Rightarrow> bool" where
  "ledger_grows l l' \<longleftrightarrow> length (lg_scopes l) \<le> length (lg_scopes l')
     \<and> same_nodes (take (length (lg_scopes l)) (lg_scopes l')) (lg_scopes l)
     \<and> lg_limits l' = lg_limits l"

lemma same_nodes_refl [simp]: "same_nodes a a"
  by (simp add: same_nodes_def)

lemma ledger_growsI: "same_nodes (lg_scopes l') (lg_scopes l) \<Longrightarrow> lg_limits l' = lg_limits l \<Longrightarrow> ledger_grows l l'"
  by (simp add: ledger_grows_def same_nodes_def)

lemma ledger_grows_refl [simp]: "ledger_grows l l"
  by (rule ledger_growsI) simp_all

lemma ledger_growsD:
  assumes "ledger_grows l l'" "i < length (lg_scopes l)"
  shows "i < length (lg_scopes l')" "sc_parent (lg_scopes l' ! i) = sc_parent (lg_scopes l ! i)"
    "sc_depth (lg_scopes l' ! i) = sc_depth (lg_scopes l ! i)"
  using assms by (auto simp: ledger_grows_def same_nodes_def)

lemma ledger_step_grows:
  assumes inv: "ledger_inv s" and step: "ledger_step s op = Some s'"
  shows "ledger_grows s s'"
proof (cases op)
  case (Admit p agent l)
  then have "s' = s \<or> (\<exists>d b. s' = admit_scope s p d agent b)"
    using step by (auto simp: admit_def Let_def split: if_splits option.splits)
  then show ?thesis by (auto simp: ledger_grows_def admit_scopes)
next
  case (Reserve n p q)
  then obtain r where r: "reserve s n p q = Some (r, s')" using step by auto
  show ?thesis
  proof (cases r)
    case (Inl e)
    then show ?thesis using r reserve_Inl_same by fastforce
  next
    case (Inr v)
    note d = reserve_InrD [OF r [unfolded Inr] inv]
    then show ?thesis by (auto simp: admissible_def intro!: ledger_growsI same_nodes_update_path)
  qed
next
  case (Settle r c)
  then obtain st where st: "settle s r c = Some (st, s')" using step by auto
  have lim: "lg_limits s' = lg_limits s"
    using st by (auto simp: settle_def Let_def split: option.splits prod.splits)
  show ?thesis
    by (rule settle_SomeD [OF st inv]) (rule ledger_growsI [OF _ lim], assumption)
next
  case (CloseAdmission n)
  then show ?thesis using step
    by (auto simp: close_admission_def split: if_splits intro!: ledger_growsI same_nodes_flag)
next
  case (Shutdown n)
  then show ?thesis using step
    by (auto simp: shutdown_def split: if_splits intro!: ledger_growsI same_nodes_flag)
qed

section \<open>What a child may hold\<close>

text \<open>The part of a node that never changes.\<close>

definition same_static :: "node \<Rightarrow> node \<Rightarrow> bool" where
  "same_static nd nd' \<longleftrightarrow> nd_parent nd' = nd_parent nd \<and> nd_name nd' = nd_name nd
     \<and> nd_depth nd' = nd_depth nd \<and> nd_deadline nd' = nd_deadline nd \<and> nd_owners nd' = nd_owners nd
     \<and> nd_selection nd' = nd_selection nd \<and> nd_output nd' = nd_output nd \<and> nd_model nd' = nd_model nd"

lemma same_static_refl [simp]: "same_static nd nd"
  by (simp add: same_static_def)

definition allowed_tools :: "node \<Rightarrow> string set" where
  "allowed_tools nd = (case nd_selection nd of None \<Rightarrow> UNIV | Some names \<Rightarrow> set names)
     \<union> (if nd_output nd = None then {} else {SUBMIT_RESULT})"

definition tools_ok :: "node \<Rightarrow> bool" where
  "tools_ok nd \<longleftrightarrow> (\<forall>ts. nd_tools nd = Some ts \<longrightarrow> set ts \<subseteq> allowed_tools nd)"

definition child_ok :: "node \<Rightarrow> node \<Rightarrow> bool" where
  "child_ok pn nd \<longleftrightarrow> nd_deadline nd \<le> nd_deadline pn \<and> nd_depth nd = nd_depth pn + 1
     \<and> set (nd_owners pn) \<subseteq> set (nd_owners nd)
     \<and> (nd_cancelled pn \<longrightarrow> nd_cancelled nd)
     \<and> (\<exists>names owned. nd_selection nd = Some names \<and> nd_tools pn = Some owned
          \<and> set names \<subseteq> set owned \<and> SUBMIT_RESULT \<notin> set names)
     \<and> (\<forall>schema. nd_output nd = Some schema \<longrightarrow> check_schema schema = None)"

definition node_ok :: "nodes_map \<Rightarrow> ledger \<Rightarrow> node_id \<Rightarrow> node \<Rightarrow> bool" where
  "node_ok nodes l i nd \<longleftrightarrow> tools_ok nd \<and> i < length (lg_scopes l)
     \<and> sc_parent (lg_scopes l ! i) = nd_parent nd \<and> sc_depth (lg_scopes l ! i) = nd_depth nd
     \<and> (case nd_parent nd of
          None \<Rightarrow> i = 0
        | Some p \<Rightarrow> p < i \<and> (\<exists>pn. map_of nodes p = Some pn \<and> child_ok pn nd))"

definition tree_inv :: "runtime \<Rightarrow> bool" where
  "tree_inv rt \<longleftrightarrow> ledger_inv (rt_ledger rt) \<and> bt_wf (rt_nodes rt)
     \<and> (\<forall>i nd. map_of (rt_nodes rt) i = Some nd \<longrightarrow> node_ok (rt_nodes rt) (rt_ledger rt) i nd)"

lemma tree_invD:
  assumes "tree_inv rt"
  shows "ledger_inv (rt_ledger rt)" "bt_wf (rt_nodes rt)" "ordered (rt_nodes rt)"
    "\<And>i nd. map_of (rt_nodes rt) i = Some nd \<Longrightarrow> node_ok (rt_nodes rt) (rt_ledger rt) i nd"
proof -
  show "ledger_inv (rt_ledger rt)" and wf: "bt_wf (rt_nodes rt)"
    and ok: "\<And>i nd. map_of (rt_nodes rt) i = Some nd \<Longrightarrow> node_ok (rt_nodes rt) (rt_ledger rt) i nd"
    using assms by (auto simp: tree_inv_def)
  have "p < i" if "(i, nd) \<in> set (rt_nodes rt)" "nd_parent nd = Some p" for i nd p
    using ok [of i nd] that wf by (simp add: bt_wf_distinct node_ok_def)
  with wf show "ordered (rt_nodes rt)" by (auto simp: ordered_def)
qed

text \<open>Updates of the nodes in place.\<close>

definition mapped :: "(node_id \<Rightarrow> node \<Rightarrow> node) \<Rightarrow> nodes_map \<Rightarrow> nodes_map" where
  "mapped g nodes = map (\<lambda>(i, nd). (i, g i nd)) nodes"

lemma map_of_mapped: "map_of (mapped g nodes) i = map_option (g i) (map_of nodes i)"
  by (induction nodes) (auto simp: mapped_def)

lemma bt_wf_mapped [simp]: "bt_wf (mapped g nodes) = bt_wf nodes"
  by (simp add: bt_wf_def mapped_def comp_def case_prod_beta)

lemma update_node_mapped: "update_node n f = mapped (\<lambda>i nd. if i = n then f nd else nd)"
  by (simp add: update_node_def mapped_def fun_eq_iff)

lemma allowed_static: "same_static nd nd' \<Longrightarrow> allowed_tools nd' = allowed_tools nd"
  by (simp add: same_static_def allowed_tools_def)

lemma child_ok_static:
  assumes "child_ok pn nd" "same_static pn pn'" "same_static nd nd'" "nd_tools pn' = nd_tools pn"
    "nd_cancelled pn' \<longrightarrow> nd_cancelled nd'"
  shows "child_ok pn' nd'"
  using assms by (auto simp: child_ok_def same_static_def)

lemma tree_inv_mapped:
  assumes inv: "tree_inv rt" and nodes: "rt_nodes rt' = mapped g (rt_nodes rt)"
    and l: "ledger_inv (rt_ledger rt')" "ledger_grows (rt_ledger rt) (rt_ledger rt')"
    and static: "\<And>i nd. map_of (rt_nodes rt) i = Some nd \<Longrightarrow> same_static nd (g i nd)"
    and tools: "\<And>i nd. map_of (rt_nodes rt) i = Some nd \<Longrightarrow>
      nd_tools (g i nd) = nd_tools nd \<or> nd_tools nd = None \<and> tools_ok (g i nd)"
    and cancel: "\<And>i nd p pn. map_of (rt_nodes rt) i = Some nd \<Longrightarrow> nd_parent nd = Some p \<Longrightarrow>
      map_of (rt_nodes rt) p = Some pn \<Longrightarrow> nd_cancelled (g p pn) \<Longrightarrow> nd_cancelled (g i nd)"
  shows "tree_inv rt'"
  unfolding tree_inv_def
proof (intro conjI allI impI)
  show "ledger_inv (rt_ledger rt')" by (rule l)
  show "bt_wf (rt_nodes rt')" using tree_invD(2) [OF inv] by (simp add: nodes)
next
  fix i nd' assume "map_of (rt_nodes rt') i = Some nd'"
  then obtain nd where m: "map_of (rt_nodes rt) i = Some nd" and nd': "nd' = g i nd"
    by (auto simp: nodes map_of_mapped)
  note ok = tree_invD(4) [OF inv m]
  have i: "i < length (lg_scopes (rt_ledger rt))" using ok by (simp add: node_ok_def)
  have "tools_ok nd" using ok by (simp add: node_ok_def)
  then have "tools_ok nd'"
    using tools [OF m] allowed_static [OF static [OF m]] unfolding nd' tools_ok_def by metis
  moreover have "p < i \<and> (\<exists>pn. map_of (rt_nodes rt') p = Some pn \<and> child_ok pn nd')"
    if p: "nd_parent nd = Some p" for p
  proof -
    obtain pn where pn: "map_of (rt_nodes rt) p = Some pn" "child_ok pn nd" "p < i"
      using ok p by (auto simp: node_ok_def)
    have "nd_tools (g p pn) = nd_tools pn"
      using tools [OF pn(1)] pn(2) by (auto simp: child_ok_def)
    then have "child_ok (g p pn) nd'"
      unfolding nd' using child_ok_static [OF pn(2) static [OF pn(1)] static [OF m]] cancel [OF m p pn(1)] by blast
    then show ?thesis using pn by (simp add: nodes map_of_mapped)
  qed
  ultimately show "node_ok (rt_nodes rt') (rt_ledger rt') i nd'"
    using ok static [OF m] ledger_growsD [OF l(2) i]
    by (auto simp: node_ok_def nd' same_static_def split: option.splits)
qed

section \<open>Mail\<close>

definition mail_ok :: "runtime \<Rightarrow> node_id \<Rightarrow> envelope \<Rightarrow> bool" where
  "mail_ok rt n e \<longleftrightarrow> env_to e = n \<and> kin rt (env_from e) n = Inr (env_spawn e)"

definition mail_inv :: "runtime \<Rightarrow> bool" where
  "mail_inv rt \<longleftrightarrow>
     (\<forall>n nd. map_of (rt_nodes rt) n = Some nd \<longrightarrow> (\<forall>e \<in> set (mb_queue (nd_mailbox nd)). mail_ok rt n e))
     \<and> (\<forall>e \<in> set (rt_pending rt). mail_ok rt (env_to e) e)
     \<and> (\<forall>n nd oc. map_of (rt_nodes rt) n = Some nd \<longrightarrow> nd_outcome nd = Some oc \<longrightarrow> ao_node oc = n)"

definition rt_inv :: "runtime \<Rightarrow> bool" where
  "rt_inv rt \<longleftrightarrow> tree_inv rt \<and> mail_inv rt"

text \<open>What no step undoes.\<close>

definition rt_le :: "runtime \<Rightarrow> runtime \<Rightarrow> bool" where
  "rt_le rt rt' \<longleftrightarrow> lg_limits (rt_ledger rt') = lg_limits (rt_ledger rt) \<and> (\<forall>n nd. map_of (rt_nodes rt) n = Some nd \<longrightarrow>
     (\<exists>nd'. map_of (rt_nodes rt') n = Some nd' \<and> same_static nd nd'
        \<and> (nd_cancelled nd \<longrightarrow> nd_cancelled nd')))"

lemma rt_leE:
  assumes "rt_le rt rt'" "map_of (rt_nodes rt) n = Some nd"
  obtains nd' where "map_of (rt_nodes rt') n = Some nd'" "same_static nd nd'"
    "nd_cancelled nd \<Longrightarrow> nd_cancelled nd'"
  using assms unfolding rt_le_def by blast

lemma rt_le_refl [simp]: "rt_le rt rt"
  by (simp add: rt_le_def)

lemma same_static_trans: "same_static a b \<Longrightarrow> same_static b c \<Longrightarrow> same_static a c"
  by (simp add: same_static_def)

lemma rt_le_trans: "rt_le a b \<Longrightarrow> rt_le b c \<Longrightarrow> rt_le a c"
  unfolding rt_le_def
proof (elim conjE, intro conjI allI impI)
  fix n nd
  assume ab: "\<forall>n nd. map_of (rt_nodes a) n = Some nd \<longrightarrow> (\<exists>nd'. map_of (rt_nodes b) n = Some nd'
      \<and> same_static nd nd' \<and> (nd_cancelled nd \<longrightarrow> nd_cancelled nd'))"
    and bc: "\<forall>n nd. map_of (rt_nodes b) n = Some nd \<longrightarrow> (\<exists>nd'. map_of (rt_nodes c) n = Some nd'
      \<and> same_static nd nd' \<and> (nd_cancelled nd \<longrightarrow> nd_cancelled nd'))"
    and n: "map_of (rt_nodes a) n = Some nd"
  obtain nd1 where 1: "map_of (rt_nodes b) n = Some nd1" "same_static nd nd1"
    "nd_cancelled nd \<longrightarrow> nd_cancelled nd1" using ab n by blast
  obtain nd2 where 2: "map_of (rt_nodes c) n = Some nd2" "same_static nd1 nd2"
    "nd_cancelled nd1 \<longrightarrow> nd_cancelled nd2" using bc 1(1) by blast
  show "\<exists>nd'. map_of (rt_nodes c) n = Some nd' \<and> same_static nd nd' \<and> (nd_cancelled nd \<longrightarrow> nd_cancelled nd')"
    using 1 2 same_static_trans by blast
qed simp

definition good :: "runtime \<Rightarrow> runtime \<Rightarrow> bool" where
  "good rt rt' \<longleftrightarrow> rt_inv rt' \<and> rt_le rt rt'"

lemma good_refl: "rt_inv rt \<Longrightarrow> good rt rt"
  by (simp add: good_def)

lemma good_trans: "good a b \<Longrightarrow> good b c \<Longrightarrow> good a c"
  using rt_le_trans by (auto simp: good_def)

lemma good_inv: "good a b \<Longrightarrow> rt_inv b"
  by (simp add: good_def)

text \<open>Kinship depends on the parents alone.\<close>

definition spawn_link :: "node_id \<Rightarrow> node_id \<Rightarrow> node_id option \<Rightarrow> node_id option \<Rightarrow> node_id option \<Rightarrow> bool" where
  "spawn_link a b pa pb s \<longleftrightarrow> a \<noteq> b \<and>
     (if pa = Some b then s = Some a else if pb = Some a then s = Some b
      else pa \<noteq> None \<and> pa = pb \<and> s = None)"

lemma kin_Inr: "kin rt a b = Inr s \<longleftrightarrow> (\<exists>x y. map_of (rt_nodes rt) a = Some x \<and> map_of (rt_nodes rt) b = Some y
    \<and> spawn_link a b (nd_parent x) (nd_parent y) s)"
  unfolding kin_def spawn_link_def Let_def
  by (cases "map_of (rt_nodes rt) a"; cases "map_of (rt_nodes rt) b")
    (auto split: if_splits intro: sym)

lemma kin_le:
  assumes "kin rt a b = Inr s" "rt_le rt rt'"
  shows "kin rt' a b = Inr s"
proof -
  obtain x y where m: "map_of (rt_nodes rt) a = Some x" "map_of (rt_nodes rt) b = Some y"
    "spawn_link a b (nd_parent x) (nd_parent y) s"
    using assms(1) unfolding kin_Inr by blast
  obtain x' where x': "map_of (rt_nodes rt') a = Some x'" "nd_parent x' = nd_parent x"
    using rt_leE [OF assms(2) m(1)] by (metis same_static_def)
  obtain y' where y': "map_of (rt_nodes rt') b = Some y'" "nd_parent y' = nd_parent y"
    using rt_leE [OF assms(2) m(2)] by (metis same_static_def)
  show ?thesis unfolding kin_Inr
    by (rule exI [of _ x'], rule exI [of _ y']) (simp add: m(3) x' y')
qed

lemma mail_ok_le: "mail_ok rt n e \<Longrightarrow> rt_le rt rt' \<Longrightarrow> mail_ok rt' n e"
  unfolding mail_ok_def using kin_le by blast

lemma good_mapped:
  assumes inv: "rt_inv rt" and nodes: "rt_nodes rt' = mapped g (rt_nodes rt)"
    and l: "ledger_inv (rt_ledger rt')" "ledger_grows (rt_ledger rt) (rt_ledger rt')"
    and static: "\<And>i nd. map_of (rt_nodes rt) i = Some nd \<Longrightarrow> same_static nd (g i nd)"
    and tools: "\<And>i nd. map_of (rt_nodes rt) i = Some nd \<Longrightarrow>
      nd_tools (g i nd) = nd_tools nd \<or> nd_tools nd = None \<and> tools_ok (g i nd)"
    and cancel: "\<And>i nd p pn. map_of (rt_nodes rt) i = Some nd \<Longrightarrow> nd_parent nd = Some p \<Longrightarrow>
      map_of (rt_nodes rt) p = Some pn \<Longrightarrow> nd_cancelled (g p pn) \<Longrightarrow> nd_cancelled (g i nd)"
    and mono: "\<And>i nd. map_of (rt_nodes rt) i = Some nd \<Longrightarrow> nd_cancelled nd \<Longrightarrow> nd_cancelled (g i nd)"
    and queue: "\<And>i nd e. map_of (rt_nodes rt) i = Some nd \<Longrightarrow> e \<in> set (mb_queue (nd_mailbox (g i nd))) \<Longrightarrow>
      e \<in> set (mb_queue (nd_mailbox nd)) \<or> mail_ok rt i e"
    and pending: "\<And>e. e \<in> set (rt_pending rt') \<Longrightarrow> e \<in> set (rt_pending rt) \<or> mail_ok rt (env_to e) e"
    and outcome: "\<And>i nd oc. map_of (rt_nodes rt) i = Some nd \<Longrightarrow> nd_outcome (g i nd) = Some oc \<Longrightarrow>
      nd_outcome nd = Some oc \<or> ao_node oc = i"
  shows "good rt rt'"
proof -
  have le: "rt_le rt rt'"
    unfolding rt_le_def using static mono l(2) by (auto simp: nodes map_of_mapped ledger_grows_def)
  have "mail_ok rt' i e" if "map_of (rt_nodes rt') i = Some nd'" "e \<in> set (mb_queue (nd_mailbox nd'))" for i nd' e
  proof -
    from that(1) obtain nd where m: "map_of (rt_nodes rt) i = Some nd" "nd' = g i nd"
      by (auto simp: nodes map_of_mapped)
    then have "mail_ok rt i e" using queue [OF m(1)] that(2) inv by (auto simp: rt_inv_def mail_inv_def)
    then show ?thesis using le by (rule mail_ok_le)
  qed
  moreover have "mail_ok rt' (env_to e) e" if "e \<in> set (rt_pending rt')" for e
    using pending [OF that] inv mail_ok_le [OF _ le] by (auto simp: rt_inv_def mail_inv_def)
  moreover have "ao_node oc = i" if "map_of (rt_nodes rt') i = Some nd'" "nd_outcome nd' = Some oc" for i nd' oc
  proof -
    from that(1) obtain nd where m: "map_of (rt_nodes rt) i = Some nd" "nd' = g i nd"
      by (auto simp: nodes map_of_mapped)
    then show ?thesis using outcome [OF m(1)] that(2) inv by (auto simp: rt_inv_def mail_inv_def)
  qed
  moreover have "tree_inv rt'"
    using inv by (intro tree_inv_mapped [OF _ nodes l static tools cancel]) (auto simp: rt_inv_def)
  ultimately show ?thesis using le by (auto simp: good_def rt_inv_def mail_inv_def)
qed

section \<open>Elementary updates\<close>

lemma rt_invD:
  assumes "rt_inv rt"
  shows "tree_inv rt" "mail_inv rt" "ledger_inv (rt_ledger rt)" "bt_wf (rt_nodes rt)" "ordered (rt_nodes rt)"
  using assms tree_invD by (auto simp: rt_inv_def)

lemma good_cancel:
  assumes inv: "rt_inv rt"
  shows "good rt (cancel_node n rt)"
proof (rule good_mapped [OF inv])
  let ?g = "\<lambda>i nd. if i \<in> subtree (rt_nodes rt) n then nd\<lparr>nd_cancelled := True\<rparr> else nd"
  show "rt_nodes (cancel_node n rt) = mapped ?g (rt_nodes rt)"
    by (simp add: cancel_node_def mapped_def)
  fix i nd p pn
  assume m: "map_of (rt_nodes rt) i = Some nd" "nd_parent nd = Some p" "map_of (rt_nodes rt) p = Some pn"
    and c: "nd_cancelled (?g p pn)"
  have "(i, nd) \<in> set (rt_nodes rt)" using m(1) by (rule map_of_SomeD)
  from subtree_iff [OF rt_invD(5) [OF inv] this, of n]
  have "p \<in> subtree (rt_nodes rt) n \<Longrightarrow> i \<in> subtree (rt_nodes rt) n" using m(2) by blast
  moreover have "nd_cancelled pn \<Longrightarrow> nd_cancelled nd"
    using tree_invD(4) [OF rt_invD(1) [OF inv] m(1)] m(2,3) by (simp add: node_ok_def child_ok_def)
  ultimately show "nd_cancelled (?g i nd)" using c by (auto split: if_splits)
qed (use rt_invD(3) [OF inv] in \<open>auto simp: cancel_node_def same_static_def split: if_splits\<close>)

text \<open>A change of one node that keeps what is static, its tools and its cancellation.\<close>

lemma good_update:
  assumes inv: "rt_inv rt" and nodes: "rt_nodes rt' = update_node n f (rt_nodes rt)"
    and l: "ledger_inv (rt_ledger rt')" "ledger_grows (rt_ledger rt) (rt_ledger rt')"
    and f: "\<And>nd. same_static nd (f nd)" "\<And>nd. nd_cancelled (f nd) = nd_cancelled nd"
      "\<And>nd. map_of (rt_nodes rt) n = Some nd \<Longrightarrow>
        nd_tools (f nd) = nd_tools nd \<or> nd_tools nd = None \<and> tools_ok (f nd)"
      "\<And>nd oc. nd_outcome (f nd) = Some oc \<Longrightarrow> nd_outcome nd = Some oc \<or> ao_node oc = n"
    and queue: "\<And>nd e. map_of (rt_nodes rt) n = Some nd \<Longrightarrow> e \<in> set (mb_queue (nd_mailbox (f nd))) \<Longrightarrow>
      e \<in> set (mb_queue (nd_mailbox nd)) \<or> mail_ok rt n e"
    and pending: "\<And>e. e \<in> set (rt_pending rt') \<Longrightarrow> e \<in> set (rt_pending rt) \<or> mail_ok rt (env_to e) e"
  shows "good rt rt'"
proof (rule good_mapped [OF inv nodes [unfolded update_node_mapped] l _ _ _ _ _ pending _])
  fix i nd p pn
  assume m: "map_of (rt_nodes rt) i = Some nd" "nd_parent nd = Some p" "map_of (rt_nodes rt) p = Some pn"
    and c: "nd_cancelled (if p = n then f pn else pn)"
  have "nd_cancelled pn \<Longrightarrow> nd_cancelled nd"
    using tree_invD(4) [OF rt_invD(1) [OF inv] m(1)] m(2,3) by (simp add: node_ok_def child_ok_def)
  then show "nd_cancelled (if i = n then f nd else nd)" using c f(2) by (simp split: if_splits)
next
  fix i nd assume m: "map_of (rt_nodes rt) i = Some nd"
  show "same_static nd (if i = n then f nd else nd)" using f(1) by simp
  show "nd_tools (if i = n then f nd else nd) = nd_tools nd
      \<or> nd_tools nd = None \<and> tools_ok (if i = n then f nd else nd)"
    using f(3) m by (cases "i = n") simp_all
  show "nd_cancelled nd \<Longrightarrow> nd_cancelled (if i = n then f nd else nd)" using f(2) by simp
  show "e \<in> set (mb_queue (nd_mailbox nd)) \<or> mail_ok rt i e"
    if "e \<in> set (mb_queue (nd_mailbox (if i = n then f nd else nd)))" for e
    using queue m that by (cases "i = n") simp_all
  show "nd_outcome nd = Some oc \<or> ao_node oc = i" if "nd_outcome (if i = n then f nd else nd) = Some oc" for oc
    using f(4) that by (cases "i = n") simp_all
qed

text \<open>A change outside the nodes.\<close>

lemma mapped_id: "mapped (\<lambda>_ nd. nd) nodes = nodes"
  by (simp add: mapped_def)

lemma good_frame:
  assumes inv: "rt_inv rt" and "rt_nodes rt' = rt_nodes rt"
    "ledger_inv (rt_ledger rt')" "ledger_grows (rt_ledger rt) (rt_ledger rt')"
    "\<And>e. e \<in> set (rt_pending rt') \<Longrightarrow> e \<in> set (rt_pending rt) \<or> mail_ok rt (env_to e) e"
  shows "good rt rt'"
proof (rule good_mapped [OF inv])
  show "rt_nodes rt' = mapped (\<lambda>_ nd. nd) (rt_nodes rt)" by (simp add: mapped_id assms(2))
  fix i nd p pn
  assume m: "map_of (rt_nodes rt) i = Some nd" "nd_parent nd = Some p" "map_of (rt_nodes rt) p = Some pn"
    "nd_cancelled pn"
  then show "nd_cancelled nd"
    using tree_invD(4) [OF rt_invD(1) [OF inv] m(1)] by (simp add: node_ok_def child_ok_def)
qed (use assms in \<open>simp_all\<close>)

text \<open>A change of one mailbox, with messages that become pending.\<close>

lemma good_mailbox:
  assumes inv: "rt_inv rt"
    and queue: "\<And>nd e. map_of (rt_nodes rt) n = Some nd \<Longrightarrow> e \<in> set (mb_queue mb) \<Longrightarrow>
      e \<in> set (mb_queue (nd_mailbox nd)) \<or> mail_ok rt n e"
    and pending: "\<And>e. e \<in> set es \<Longrightarrow> e \<in> set (rt_pending rt) \<or> mail_ok rt (env_to e) e"
  shows "good rt ((set_mailbox n mb rt)\<lparr>rt_messages := k, rt_pending := es\<rparr>)"
  by (rule good_update [OF inv, of _ n "\<lambda>nd. nd\<lparr>nd_mailbox := mb\<rparr>"])
    (use assms rt_invD(3) [OF inv] in \<open>simp_all add: set_mailbox_def same_static_def\<close>)

lemma good_set_mailbox:
  assumes inv: "rt_inv rt"
    and queue: "\<And>nd e. map_of (rt_nodes rt) n = Some nd \<Longrightarrow> e \<in> set (mb_queue mb) \<Longrightarrow>
      e \<in> set (mb_queue (nd_mailbox nd)) \<or> mail_ok rt n e"
  shows "good rt (set_mailbox n mb rt)"
proof -
  have "set_mailbox n mb rt = (set_mailbox n mb rt)\<lparr>rt_messages := rt_messages rt, rt_pending := rt_pending rt\<rparr>"
    by (simp add: set_mailbox_def)
  then show ?thesis using good_mailbox [OF inv queue, where es = "rt_pending rt" and k = "rt_messages rt"] by metis
qed

section \<open>A new child\<close>

lemma good_register:
  assumes inv: "rt_inv rt" and me: "map_of (rt_nodes rt) self = Some me"
    and adm: "admit (rt_ledger rt) self True b = Some (Inr child, l)"
    and nd: "nd_parent nd = Some self" "nd_tools nd = None" "nd_mailbox nd = mailbox_new" "nd_outcome nd = None"
    and ok: "child_ok me nd"
  shows "good rt (register child nd (rt\<lparr>rt_ledger := l\<rparr>))"
proof -
  let ?rt = "register child nd (rt\<lparr>rt_ledger := l\<rparr>)"
  note L = rt_invD(3) [OF inv] and T = tree_invD [OF rt_invD(1) [OF inv]]
  note d = admit_InrD [OF adm L]
  have step: "ledger_step (rt_ledger rt) (Admit self True b) = Some l" using adm by simp
  have grows: "ledger_grows (rt_ledger rt) l" by (rule ledger_step_grows [OF L step])
  have scs: "lg_scopes l = lg_scopes (rt_ledger rt) @ [fresh_scope (Some self)
      (sc_depth (lg_scopes (rt_ledger rt) ! self) + 1) True (min (case b of Some b \<Rightarrow> b
        | None \<Rightarrow> lim_budget_tokens (lg_limits (rt_ledger rt)))
        (bs_limit (sc_budget (lg_scopes (rt_ledger rt) ! self))))]"
    using d(9) by (simp add: admit_scopes)
  have self: "self < child" "sc_depth (lg_scopes (rt_ledger rt) ! self) = nd_depth me"
    using T(4) [OF me] d(2) by (simp_all add: node_ok_def)
  have fresh: "map_of (rt_nodes rt) child = None"
    using T(4) [of child] d(2) by (cases "map_of (rt_nodes rt) child") (auto simp: node_ok_def)
  have nodes: "map_of (rt_nodes ?rt) = (map_of (rt_nodes rt))(child \<mapsto> nd)"
    using T(2) by (simp add: register_def)
  have le: "rt_le rt ?rt"
    unfolding rt_le_def nodes using fresh grows by (auto simp: register_def ledger_grows_def)
  have "node_ok (rt_nodes ?rt) l i x" if "map_of (rt_nodes ?rt) i = Some x" for i x
  proof (cases "i = child")
    case True
    then have x: "x = nd" using that by (simp add: nodes)
    have "nd_depth nd = nd_depth me + 1" using ok by (simp add: child_ok_def)
    then show ?thesis
      using True self ok me d(2) nd(1,2) unfolding x node_ok_def nodes
      by (auto simp: tools_ok_def scs nth_append)
  next
    case False
    then have old: "map_of (rt_nodes rt) i = Some x" using that by (simp add: nodes)
    note o = T(4) [OF old]
    have i: "i < length (lg_scopes (rt_ledger rt))" using o by (simp add: node_ok_def)
    have "\<exists>pn. map_of (rt_nodes ?rt) p = Some pn \<and> child_ok pn x" if "nd_parent x = Some p" for p
      using o that fresh by (auto simp: node_ok_def nodes)
    then show ?thesis using o ledger_growsD [OF grows i] by (auto simp: node_ok_def split: option.splits)
  qed
  moreover have "ledger_inv l" using admit_inv [OF L adm] .
  moreover have "bt_wf (rt_nodes ?rt)" using T(2) by (simp add: register_def)
  moreover have "mail_ok ?rt i e" if "map_of (rt_nodes ?rt) i = Some x" "e \<in> set (mb_queue (nd_mailbox x))" for i x e
  proof (cases "i = child")
    case True
    then have "x = nd" using that(1) by (simp add: nodes)
    then show ?thesis using that(2) nd(3) by (simp add: mailbox_new_def)
  next
    case False
    then have "mail_ok rt i e" using that inv by (auto simp: nodes rt_inv_def mail_inv_def)
    then show ?thesis using le by (rule mail_ok_le)
  qed
  moreover have "mail_ok ?rt (env_to e) e" if "e \<in> set (rt_pending rt)" for e
    using mail_ok_le [OF _ le] that inv by (auto simp: rt_inv_def mail_inv_def)
  moreover have "ao_node oc = i" if "map_of (rt_nodes ?rt) i = Some x" "nd_outcome x = Some oc" for i x oc
    using that nd(4) inv by (auto simp: nodes rt_inv_def mail_inv_def split: if_splits)
  ultimately show ?thesis
    using le by (simp add: good_def rt_inv_def tree_inv_def mail_inv_def register_def)
qed

end
