(* ===== verification/Recursion_Steps.thy ===== *)
theory Recursion_Steps
  imports Recursion_Inv
begin

text \<open>
  Every operation of the agent tree keeps the invariant and what no step undoes, and so does every
  run from a fresh runtime.
\<close>

section \<open>Operations\<close>

lemma check_open_good:
  assumes "rt_inv rt" "check_open n nd now rt = (r, rt')"
  shows "good rt rt'"
  using assms good_cancel [OF assms(1)] good_refl [OF assms(1)]
  by (auto simp: check_open_def stopped_def split: if_splits prod.splits bool.splits)

lemma check_open_True:
  "check_open n nd now rt = (True, rt') \<Longrightarrow>
    rt' = rt \<and> \<not> nd_closed nd \<and> \<not> nd_cancelled nd \<and> now < nd_deadline nd"
  by (auto simp: check_open_def stopped_def split: if_splits bool.splits)

lemma SUBAGENT_no_submit: "SUBMIT_RESULT \<notin> set SUBAGENT_TOOLS"
  by (simp add: SUBMIT_RESULT_def SUBAGENT_TOOLS_def)

lemma child_tools_held:
  "child_tools owned requested = Inr names \<Longrightarrow> set names \<subseteq> set owned \<and> SUBMIT_RESULT \<notin> set names"
  using SUBAGENT_no_submit by (auto simp: child_tools_def find_None_iff split: option.splits if_splits)

lemma spawn_checks_ok:
  assumes "spawn_checks sj rt me now sp = Inr (deadline, model, names)" "\<not> nd_cancelled me"
  shows "child_ok me (child_node rt self me sp own deadline model names)"
proof -
  have "deadline \<le> nd_deadline me"
    using assms(1) by (auto simp: spawn_checks_def child_deadline_def Let_def split: if_splits option.splits sum.splits)
  moreover obtain owned where "nd_tools me = Some owned" "child_tools owned (cs_tools sp) = Inr names"
    using assms(1) by (auto simp: spawn_checks_def Let_def split: if_splits option.splits sum.splits)
  moreover have "output_error sj (cs_output sp) = None"
    using assms(1) by (auto simp: spawn_checks_def Let_def split: if_splits option.splits sum.splits)
  then have "\<forall>schema. cs_output sp = Some schema \<longrightarrow> check_schema schema = None"
    by (auto simp: output_error_def split: if_splits)
  ultimately show ?thesis
    using assms(2) child_tools_held by (auto simp: child_ok_def child_node_def)
qed

lemma mb_expect_queue [simp]: "mb_queue (mb_expect mb c) = mb_queue mb"
  by (simp add: mb_expect_def)

lemma expect_child_good:
  assumes "rt_inv rt"
  shows "good rt (expect_child self child rt)"
  by (rule good_update [OF assms, of _ self "\<lambda>nd. nd\<lparr>nd_mailbox := mb_expect (nd_mailbox nd) child\<rparr>"])
    (use rt_invD(3) [OF assms] in \<open>simp_all add: expect_child_def same_static_def\<close>)

lemma spawn_agent_good:
  assumes inv: "rt_inv rt" and step: "spawn_agent sj self now sp own rt = Some (r, rt')"
  shows "good rt rt'"
proof -
  obtain me where me: "map_of (rt_nodes rt) self = Some me"
    using step by (auto simp: spawn_agent_def split: option.splits)
  obtain open_now rt1 where c: "check_open self me now rt = (open_now, rt1)" by fastforce
  have g1: "good rt rt1" by (rule check_open_good [OF inv c])
  show ?thesis
  proof (cases open_now)
    case False
    then show ?thesis using step me c g1 by (simp add: spawn_agent_def)
  next
    case True
    have o: "rt1 = rt \<and> \<not> nd_closed me \<and> \<not> nd_cancelled me \<and> now < nd_deadline me"
      by (rule check_open_True) (use c True in simp)
    show ?thesis
    proof (cases "spawn_checks sj rt me now sp")
      case (Inl e)
      then show ?thesis using step me c True o g1 by (simp add: spawn_agent_def)
    next
      case (Inr v)
      obtain deadline model names where v: "v = (deadline, model, names)" by (cases v)
      let ?nd = "child_node rt self me sp own deadline model names"
      have ok: "child_ok me ?nd" using spawn_checks_ok [OF Inr [unfolded v]] o by simp
      have sta: "nd_parent ?nd = Some self" "nd_tools ?nd = None" "nd_mailbox ?nd = mailbox_new"
        "nd_outcome ?nd = None" by (simp_all add: child_node_def)
      show ?thesis
      proof (cases "admit (rt_ledger rt) self True (cs_budget sp)")
        case None
        then show ?thesis using step me c True o Inr v good_refl [OF inv]
          by (auto simp: spawn_agent_def split: if_splits)
      next
        case (Some al)
        obtain ar l where al: "al = (ar, l)" by (cases al)
        show ?thesis
        proof (cases ar)
          case Ae: (Inl e)
          have "l = rt_ledger rt" using admit_Inl_same Some al Ae by blast
          then show ?thesis using step me c True o Inr v Some al Ae good_refl [OF inv]
            by (auto simp: spawn_agent_def split: if_splits)
        next
          case Ar: (Inr child)
          let ?A = "register child ?nd (rt\<lparr>rt_ledger := l\<rparr>)"
          have A: "good rt ?A"
            by (rule good_register [OF inv me _ sta ok]) (use Some al Ar in simp)
          have B: "good rt (expect_child self child ?A)"
            by (rule good_trans [OF A expect_child_good [OF good_inv [OF A]]])
          have "rt' = rt \<or> rt' = ?A \<or> rt' = expect_child self child ?A"
            using step me c True o Inr v Some al Ar by (auto simp: spawn_agent_def Let_def split: if_splits)
          then show ?thesis using A B good_refl [OF inv] by (elim disjE) simp_all
        qed
      qed
    qed
  qed
qed

text \<open>Toolsets: every entry is under the name of its specification, as `Toolset::new`,
  `with_own_validation` and `select` make them.\<close>

definition toolset_ok :: "toolset \<Rightarrow> bool" where
  "toolset_ok ts \<longleftrightarrow> bt_wf (tls_entries ts) \<and> (\<forall>(k, sp, t) \<in> set (tls_entries ts). ts_name sp = k)"

definition tool_names :: "toolset \<Rightarrow> string list" where
  "tool_names ts = map ts_name (specs ts)"

lemma tool_names_keys: "toolset_ok ts \<Longrightarrow> set (tool_names ts) = fst ` set (tls_entries ts)"
  by (force simp: tool_names_def specs_def toolset_ok_def)

lemma entries_insert:
  "set (bt_insert k v m) \<subseteq> insert (k, v) (set m)"
  by (induction k v m rule: bt_insert.induct) auto

lemma toolset_entries_ok:
  assumes "toolset_entries tools es = Some es'" "bt_wf es" "\<forall>(k, sp, t) \<in> set es. ts_name sp = k"
  shows "bt_wf es' \<and> (\<forall>(k, sp, t) \<in> set es'. ts_name sp = k)"
  using assms
proof (induction tools es rule: toolset_entries.induct)
  case (2 t ts es)
  let ?k = "ts_name (frozen_spec t)" and ?v = "(frozen_spec t, t)"
  have "\<forall>(k, sp, t) \<in> set (bt_insert ?k ?v es). ts_name sp = k"
    using 2(4) entries_insert [of ?k ?v es] by fastforce
  then show ?case using 2 by (auto simp: Let_def split: if_splits)
qed simp

lemma toolset_new_ok: "toolset_new tools = Some ts \<Longrightarrow> toolset_ok ts"
  using toolset_entries_ok [of tools "[]"] by (auto simp: toolset_new_def toolset_ok_def bt_wf_def)

lemma with_own_ok:
  assumes "with_own_validation ts t = Some ts'" "toolset_ok ts"
  shows "toolset_ok ts' \<and> set (tool_names ts') = insert (ts_name (tl_spec t)) (set (tool_names ts))"
proof -
  let ?k = "ts_name (frozen_spec t)" and ?v = "(frozen_spec t, t)"
  have k: "?k = ts_name (tl_spec t)" by (simp add: frozen_spec_def)
  have e: "tls_entries ts' = bt_insert ?k ?v (tls_entries ts)"
    using assms(1) by (auto simp: with_own_validation_def Let_def split: if_splits)
  have "toolset_ok ts'"
    using assms(2) entries_insert [of ?k ?v "tls_entries ts"] by (fastforce simp: toolset_ok_def e)
  then show ?thesis using assms(2) k by (simp add: tool_names_keys e)
qed

lemma select_entries_ok:
  assumes "select_entries ts names es = Inr es'" "toolset_ok ts" "bt_wf es"
    "\<forall>(k, sp, t) \<in> set es. ts_name sp = k"
  shows "bt_wf es' \<and> (\<forall>(k, sp, t) \<in> set es'. ts_name sp = k) \<and> fst ` set es' \<subseteq> set names \<union> fst ` set es"
  using assms
proof (induction ts names es rule: select_entries.induct)
  case (2 ts n ns es)
  obtain sp t where e: "map_of (tls_entries ts) n = Some (sp, t)"
    using 2(2) by (auto split: option.splits)
  then have "ts_name sp = n" using 2(3) by (auto simp: toolset_ok_def dest!: map_of_SomeD)
  then have "\<forall>(k, sp, t) \<in> set (bt_insert n (sp, t) es). ts_name sp = k"
    using 2(5) entries_insert [of n "(sp, t)" es] by fastforce
  then show ?case using 2(1) [OF e] 2(2-4) e by auto
qed auto

lemma select_ok:
  assumes "select ts sel = Inr ts'" "toolset_ok ts"
  shows "toolset_ok ts' \<and> (\<forall>names. sel = Some names \<longrightarrow> set (tool_names ts') \<subseteq> set names)"
proof (cases sel)
  case None
  then show ?thesis using assms by (simp add: select_def)
next
  case (Some names)
  then obtain es where es: "select_entries ts names [] = Inr es" "tls_entries ts' = es"
    using assms(1) by (auto simp: select_def split: sum.splits)
  have "toolset_ok ts' \<and> fst ` set es \<subseteq> set names"
    using select_entries_ok [OF es(1) assms(2)] by (simp add: toolset_ok_def es(2) bt_wf_def)
  then show ?thesis using Some es(2) by (simp add: tool_names_keys)
qed

definition factory_ok :: "tool_factory \<Rightarrow> bool" where
  "factory_ok fc \<longleftrightarrow> (\<forall>n nd ts. fc n nd = Some ts \<longrightarrow> toolset_ok ts)"

lemma start_tools_allowed:
  assumes "start_tools fc n nd = Some ts" "factory_ok fc"
  shows "set (tool_names ts) \<subseteq> allowed_tools nd"
proof -
  obtain ts0 ts1 where ts: "fc n nd = Some ts0" "select ts0 (nd_selection nd) = Inr ts1"
    "(case nd_output nd of Some schema \<Rightarrow> with_own_validation ts1 (submit_tool schema) | None \<Rightarrow> Some ts1) = Some ts"
    using assms(1) by (auto simp: start_tools_def split: option.splits sum.splits)
  have ok: "toolset_ok ts1" "\<And>names. nd_selection nd = Some names \<Longrightarrow> set (tool_names ts1) \<subseteq> set names"
    using select_ok [OF ts(2)] assms(2) ts(1) by (auto simp: factory_ok_def)
  have sub: "set (tool_names ts1) \<subseteq> (case nd_selection nd of None \<Rightarrow> UNIV | Some names \<Rightarrow> set names)"
    using ok(2) by (simp split: option.split)
  show ?thesis
  proof (cases "nd_output nd")
    case None
    then show ?thesis using sub ts(3) by (auto simp: allowed_tools_def)
  next
    case (Some schema)
    then have "set (tool_names ts) = insert SUBMIT_RESULT (set (tool_names ts1))"
      using with_own_ok [OF _ ok(1), of "submit_tool schema" ts] ts(3) by (simp add: submit_tool_def)
    then show ?thesis using sub Some by (auto simp: allowed_tools_def)
  qed
qed

lemma start_agent_good:
  assumes inv: "rt_inv rt" and fc: "factory_ok fc" and step: "start_agent fc n rt = Some (r, rt')"
  shows "good rt rt'"
proof (cases "rt' = rt")
  case True
  then show ?thesis using good_refl [OF inv] by simp
next
  case False
  then obtain nd ts where nd: "map_of (rt_nodes rt) n = Some nd" "start_tools fc n nd = Some ts"
    "nd_tools nd = None" "rt' = rt\<lparr>rt_nodes :=
       update_node n (\<lambda>nd. nd\<lparr>nd_tools := Some (tool_names ts)\<rparr>) (rt_nodes rt)\<rparr>"
    using step by (auto simp: start_agent_def tool_names_def split: option.splits if_splits)
  have "tools_ok (nd\<lparr>nd_tools := Some (tool_names ts)\<rparr>)"
    using start_tools_allowed [OF nd(2) fc] by (simp add: tools_ok_def allowed_tools_def)
  then show ?thesis
    by (intro good_update [OF inv, of _ n "\<lambda>nd. nd\<lparr>nd_tools := Some (tool_names ts)\<rparr>"])
      (use nd rt_invD(3) [OF inv] in \<open>simp_all add: same_static_def\<close>)
qed

lemma take_batch_subset:
  assumes "take_batch mb budget pick sz = Some (b, mb')"
  shows "set (mb_queue mb') \<subseteq> set (mb_queue mb)"
proof -
  have "set (sn_rest (scan_queue mb budget pick sz)) \<subseteq> set (mb_queue mb)"
    using arg_cong [OF scan_conserves [of mb budget pick sz], of set_mset] by auto
  then show ?thesis using take_batch_SomeD(2) [OF assms] by simp
qed

lemma mb_push_subset: "mb_push mb e = Some (r, mb') \<Longrightarrow> set (mb_queue mb') \<subseteq> insert e (set (mb_queue mb))"
  by (auto simp: mb_push_def Let_def split: option.splits if_splits)

lemma mb_reserve_queue: "mb_reserve mb cap = (r, mb') \<Longrightarrow> mb_queue mb' = mb_queue mb"
  by (auto simp: mb_reserve_def split: if_splits)

lemma mb_stage_queue: "mb_stage mb a = (r, mb') \<Longrightarrow> mb_queue mb' = mb_queue mb"
  by (auto simp: mb_stage_def split: if_splits)

lemma send_message_good:
  assumes inv: "rt_inv rt" and step: "send_message self now other body rt = Some (r, rt')"
  shows "good rt rt'"
proof (cases "lim_message_chars (rt_limits rt) < length (utf8_chars body)")
  case True
  then show ?thesis using step good_refl [OF inv] by (simp add: send_message_def)
next
  case short: False
  then obtain me where me: "map_of (rt_nodes rt) self = Some me"
    using step by (auto simp: send_message_def split: option.splits)
  obtain open_now rt1 where c: "check_open self me now rt = (open_now, rt1)" by fastforce
  have g1: "good rt rt1" by (rule check_open_good [OF inv c])
  show ?thesis
  proof (cases open_now)
    case False
    then show ?thesis using step short me c g1 by (simp add: send_message_def)
  next
    case True
    then have rt1: "rt1 = rt" using check_open_True [of self me now rt rt1] c by simp
    show ?thesis
    proof (cases "kin rt self other")
      case (Inl e)
      then show ?thesis using step short me c True rt1 g1 by (simp add: send_message_def)
    next
      case (Inr spawn)
      then obtain target where t: "map_of (rt_nodes rt) other = Some target" by (auto simp: kin_Inr)
      obtain q mb where q: "mb_reserve (nd_mailbox target) (unat (lim_mailbox_capacity (rt_limits rt))) = (q, mb)"
        by fastforce
      let ?e = "\<lparr>env_id = rt_messages rt, env_from = self, env_to = other, env_kind = KMessage,
        env_body = body, env_sent_at = now, env_spawn = spawn, env_status = None\<rparr>"
      let ?rt' = "(set_mailbox other mb rt)\<lparr>rt_messages := rt_messages rt + 1, rt_pending := rt_pending rt @ [?e]\<rparr>"
      have "rt' = rt \<or> rt' = ?rt'"
        using step short me c True rt1 Inr t q
        by (auto simp: send_message_def Let_def split: sum.splits refusal_mb.splits)
      moreover have "good rt ?rt'"
        by (rule good_mailbox [OF inv])
          (use t mb_reserve_queue [OF q] Inr in \<open>auto simp: mail_ok_def\<close>)
      ultimately show ?thesis using good_refl [OF inv] by (elim disjE) simp_all
    qed
  qed
qed

lemma queue_next_good:
  assumes inv: "rt_inv rt" and step: "queue_next sender rt = Some rt'"
  shows "good rt rt'"
proof (cases "find (\<lambda>e. env_from e = sender) (rt_pending rt)")
  case None
  then show ?thesis using step good_refl [OF inv] by (simp add: queue_next_def)
next
  case (Some e)
  then have e: "e \<in> set (rt_pending rt)" by (auto simp: find_Some_iff)
  then have ok: "mail_ok rt (env_to e) e" using inv by (simp add: rt_inv_def mail_inv_def)
  obtain nd where nd: "map_of (rt_nodes rt) (env_to e) = Some nd"
    using ok by (auto simp: mail_ok_def kin_Inr)
  obtain r mb where p: "mb_push (nd_mailbox nd) e = Some (r, mb)"
    "rt' = (set_mailbox (env_to e) mb rt)\<lparr>rt_pending := remove1 e (rt_pending rt)\<rparr>"
    using step Some nd by (auto simp: queue_next_def)
  have eq: "rt' = (set_mailbox (env_to e) mb rt)\<lparr>rt_messages := rt_messages rt, rt_pending := remove1 e (rt_pending rt)\<rparr>"
    unfolding p by (simp add: set_mailbox_def)
  show ?thesis unfolding eq
  proof (rule good_mailbox [OF inv])
    fix nd' e' assume "map_of (rt_nodes rt) (env_to e) = Some nd'" "e' \<in> set (mb_queue mb)"
    then show "e' \<in> set (mb_queue (nd_mailbox nd')) \<or> mail_ok rt (env_to e) e'"
      using mb_push_subset [OF p(1)] nd ok by auto
  next
    fix e' assume "e' \<in> set (remove1 e (rt_pending rt))"
    then show "e' \<in> set (rt_pending rt) \<or> mail_ok rt (env_to e') e'"
      by (auto dest: notin_set_remove1 [rotated] intro: set_remove1_subset [THEN subsetD])
  qed
qed

lemma take_for_good:
  assumes inv: "rt_inv rt" and me: "map_of (rt_nodes rt) self = Some me"
    and take: "take_for self me pick rt = Some (b, rt')"
  shows "good rt rt'"
proof -
  obtain mb where t: "take_batch (nd_mailbox me) (lim_delivery_chars (rt_limits rt)) pick (message_size rt) = Some (b, mb)"
    "rt' = set_mailbox self mb rt"
    using take by (auto simp: take_for_def)
  show ?thesis unfolding t(2)
    by (rule good_set_mailbox [OF inv]) (use take_batch_subset [OF t(1)] me in auto)
qed

lemma receive_good:
  assumes inv: "rt_inv rt" and step: "receive self now rt = Some (r, rt')"
  shows "good rt rt'"
proof -
  obtain me where me: "map_of (rt_nodes rt) self = Some me"
    using step by (auto simp: receive_def split: option.splits)
  obtain open_now rt1 where c: "check_open self me now rt = (open_now, rt1)" by fastforce
  show ?thesis
  proof (cases open_now)
    case False
    then show ?thesis using step me c check_open_good [OF inv c] by (simp add: receive_def)
  next
    case True
    then have "rt1 = rt" using check_open_True [of self me now rt rt1] c by simp
    then obtain b where "take_for self me (\<lambda>_. True) rt = Some (b, rt')"
      using step me c True by (auto simp: receive_def)
    then show ?thesis by (rule take_for_good [OF inv me])
  qed
qed

text \<open>Notices: a child's outcome reported to its parent.\<close>

lemma notice_ok:
  assumes inv: "rt_inv rt" and nd: "map_of (rt_nodes rt) (ao_node oc) = Some nd" "nd_parent nd = Some p"
  shows "mail_ok rt p (notice_of rt0 now p oc)"
proof -
  have ok: "node_ok (rt_nodes rt) (rt_ledger rt) (ao_node oc) nd"
    using tree_invD(4) [OF rt_invD(1) [OF inv] nd(1)] .
  then obtain pn where pn: "map_of (rt_nodes rt) p = Some pn" "p < ao_node oc"
    using nd(2) by (auto simp: node_ok_def)
  then have "kin rt (ao_node oc) p = Inr (Some (ao_node oc))"
    unfolding kin_Inr using nd by (auto simp: spawn_link_def)
  then show ?thesis by (simp add: mail_ok_def notice_of_def)
qed

lemma post_notice_good:
  assumes inv: "rt_inv rt" and nd: "map_of (rt_nodes rt) (ao_node oc) = Some nd" "nd_parent nd = Some p"
  shows "good rt (post_notice now p oc rt)"
proof (rule good_frame [OF inv])
  fix e assume "e \<in> set (rt_pending (post_notice now p oc rt))"
  moreover have "mail_ok rt p (notice_of rt now p oc)" by (rule notice_ok [OF inv nd])
  moreover have "env_to (notice_of rt now p oc) = p" by (simp add: notice_of_def)
  ultimately show "e \<in> set (rt_pending rt) \<or> mail_ok rt (env_to e) e" by (auto simp: post_notice_def)
qed (use rt_invD(3) [OF inv] in \<open>simp_all add: post_notice_def\<close>)

lemma stage_notice_good:
  assumes inv: "rt_inv rt" and child: "\<exists>nd. map_of (rt_nodes rt) child = Some nd \<and> nd_parent nd = Some self"
  shows "good rt (stage_notice self now child rt)"
proof (cases "stage_notice self now child rt = rt")
  case True
  then show ?thesis using good_refl [OF inv] by simp
next
  case False
  then obtain me oc mb where m: "map_of (rt_nodes rt) self = Some me" "node_outcome rt child = Some oc"
    "mb_stage (nd_mailbox me) child = (True, mb)"
    "stage_notice self now child rt = post_notice now self oc (set_mailbox self mb rt)"
    by (auto simp: stage_notice_def split: option.splits prod.splits bool.splits)
  obtain nd where nd: "map_of (rt_nodes rt) child = Some nd" "nd_parent nd = Some self" using child by blast
  have oc: "ao_node oc = child"
    using m(2) nd(1) inv by (auto simp: node_outcome_def rt_inv_def mail_inv_def)
  have g: "good rt (set_mailbox self mb rt)"
    by (rule good_set_mailbox [OF inv]) (use m(1) mb_stage_queue [OF m(3)] in auto)
  obtain nd' where "map_of (rt_nodes (set_mailbox self mb rt)) child = Some nd'" "nd_parent nd' = Some self"
    using rt_leE [of rt "set_mailbox self mb rt" child nd] g nd by (auto simp: good_def same_static_def)
  then have "good (set_mailbox self mb rt) (post_notice now self oc (set_mailbox self mb rt))"
    by (intro post_notice_good [OF good_inv [OF g]]) (simp_all add: oc)
  then show ?thesis unfolding m(4) by (rule good_trans [OF g])
qed

lemma stage_all_good:
  assumes "rt_inv rt" "\<forall>c \<in> set cs. \<exists>nd. map_of (rt_nodes rt) c = Some nd \<and> nd_parent nd = Some self"
  shows "good rt (fold (stage_notice self now) cs rt)"
  using assms
proof (induction cs arbitrary: rt)
  case (Cons c cs)
  have g: "good rt (stage_notice self now c rt)" using Cons.prems by (intro stage_notice_good) auto
  have "\<exists>nd. map_of (rt_nodes (stage_notice self now c rt)) d = Some nd \<and> nd_parent nd = Some self"
    if "d \<in> set cs" for d
  proof -
    obtain nd where "map_of (rt_nodes rt) d = Some nd" "nd_parent nd = Some self"
      using Cons.prems(2) \<open>d \<in> set cs\<close> by auto
    then show ?thesis
      using rt_leE [of rt "stage_notice self now c rt" d nd] g by (auto simp: good_def same_static_def)
  qed
  then show ?case using Cons.IH [OF good_inv [OF g]] good_trans [OF g] by simp
qed (simp add: good_refl)

lemma children_of_node_iff:
  "rt_inv rt \<Longrightarrow> c \<in> set (children_of_node rt self) \<longleftrightarrow>
    (\<exists>nd. map_of (rt_nodes rt) c = Some nd \<and> nd_parent nd = Some self)"
  using ordered_map_of [OF rt_invD(5)] by (force simp: children_of_node_def)

lemma wait_targets_children:
  "wait_targets rt self me agents = Inr targets \<Longrightarrow> set targets \<subseteq> set (children_of_node rt self)"
  by (auto simp: wait_targets_def Let_def find_None_iff split: option.splits)

lemma wait_step_good:
  assumes inv: "rt_inv rt" and step: "wait_step self now agents rt = Some rt'"
  shows "good rt rt'"
proof -
  obtain me where me: "map_of (rt_nodes rt) self = Some me"
    using step by (auto simp: wait_step_def split: option.splits)
  obtain open_now rt1 where c: "check_open self me now rt = (open_now, rt1)" by fastforce
  show ?thesis
  proof (cases "wait_targets rt self me agents")
    case (Inl e)
    then show ?thesis using step me good_refl [OF inv] by (simp add: wait_step_def)
  next
    case (Inr targets)
    show ?thesis
    proof (cases open_now)
      case False
      then show ?thesis using step me c Inr check_open_good [OF inv c]
        by (simp add: wait_step_def wait_round_def)
    next
      case True
      then have "rt1 = rt" using check_open_True [of self me now rt rt1] c by simp
      then have "rt' = fold (stage_notice self now) targets rt"
        using step me c Inr True by (simp add: wait_step_def wait_round_def)
      then show ?thesis
        using stage_all_good [OF inv] wait_targets_children [OF Inr] children_of_node_iff [OF inv] by blast
    qed
  qed
qed

lemma wait_take_good:
  assumes inv: "rt_inv rt" and step: "wait_take self now targets rt = Some (r, rt')"
  shows "good rt rt'"
proof -
  obtain me where me: "map_of (rt_nodes rt) self = Some me"
    using step by (auto simp: wait_take_def split: option.splits)
  obtain open_now rt1 where c: "check_open self me now rt = (open_now, rt1)" by fastforce
  show ?thesis
  proof (cases open_now)
    case False
    then show ?thesis using step me c check_open_good [OF inv c] by (simp add: wait_take_def Let_def)
  next
    case True
    then have "rt1 = rt" using check_open_True [of self me now rt rt1] c by simp
    then obtain b pick where "take_for self me pick rt = Some (b, rt')"
      using step me c True by (auto simp: wait_take_def Let_def)
    then show ?thesis by (rule take_for_good [OF inv me])
  qed
qed

lemma cancel_agent_good:
  assumes inv: "rt_inv rt" and step: "cancel_agent self now agent rt = Some (r, rt')"
  shows "good rt rt'"
proof -
  obtain me where me: "map_of (rt_nodes rt) self = Some me"
    using step by (auto simp: cancel_agent_def split: option.splits)
  obtain open_now rt1 where c: "check_open self me now rt = (open_now, rt1)" by fastforce
  note g1 = check_open_good [OF inv c]
  have "rt' = rt1 \<or> rt' = cancel_node agent rt1"
    using step me c by (auto simp: cancel_agent_def split: option.splits bool.splits if_splits)
  then show ?thesis using g1 good_trans [OF g1 good_cancel [OF good_inv [OF g1]]] by (elim disjE) simp_all
qed

lemma end_mailbox_good:
  assumes inv: "rt_inv rt" and step: "end_mailbox n rt = Some (left_over, rt')"
  shows "good rt rt'"
proof -
  obtain z where z: "map_of (rt_nodes rt) n = Some z" using step by (auto simp: end_mailbox_def)
  have nd: "rt' = set_mailbox n (snd (mb_close (nd_mailbox z))) rt"
    using step z by (simp add: end_mailbox_def case_prod_beta)
  show ?thesis unfolding nd by (rule good_set_mailbox [OF inv]) (simp add: mb_close_def)
qed

lemma close_work_good:
  assumes inv: "rt_inv rt" and step: "close_work n rt = Some rt'"
  shows "good rt rt'"
proof -
  obtain l where l: "close_admission (rt_ledger rt) n = Some l"
    "rt' = cancel_node n (rt\<lparr>rt_ledger := l,
       rt_nodes := update_node n (\<lambda>nd. nd\<lparr>nd_closed := True\<rparr>) (rt_nodes rt)\<rparr>)"
    using step by (auto simp: close_work_def)
  have step': "ledger_step (rt_ledger rt) (CloseAdmission n) = Some l" using l(1) by simp
  have "good rt (rt\<lparr>rt_ledger := l, rt_nodes := update_node n (\<lambda>nd. nd\<lparr>nd_closed := True\<rparr>) (rt_nodes rt)\<rparr>)"
    by (rule good_update [OF inv, of _ n "\<lambda>nd. nd\<lparr>nd_closed := True\<rparr>"])
      (use close_admission_inv [OF rt_invD(3) [OF inv] l(1)] ledger_step_grows [OF rt_invD(3) [OF inv] step']
        in \<open>simp_all add: same_static_def\<close>)
  from good_trans [OF this good_cancel [OF good_inv [OF this]]] show ?thesis unfolding l(2) .
qed

lemma finish_agent_good:
  assumes inv: "rt_inv rt" and step: "finish_agent n now st ans turns rt = Some rt'"
  shows "good rt rt'"
proof (cases "rt' = rt")
  case True
  then show ?thesis using good_refl [OF inv] by simp
next
  case False
  obtain nd oc l where m: "map_of (rt_nodes rt) n = Some nd" "outcome_of rt n st ans turns = Some oc"
    "shutdown (rt_ledger rt) n = Some l"
    using step by (auto simp: finish_agent_def split: option.splits)
  let ?rt1 = "rt\<lparr>rt_ledger := l, rt_nodes := update_node n (\<lambda>nd. nd\<lparr>nd_outcome := Some oc\<rparr>) (rt_nodes rt)\<rparr>"
  have oc: "ao_node oc = n" using m(2) by (auto simp: outcome_of_def)
  have step': "ledger_step (rt_ledger rt) (Shutdown n) = Some l" using m(3) by simp
  have g1: "good rt ?rt1"
    by (rule good_update [OF inv, of _ n "\<lambda>nd. nd\<lparr>nd_outcome := Some oc\<rparr>"])
      (use shutdown_inv [OF rt_invD(3) [OF inv] m(3)] ledger_step_grows [OF rt_invD(3) [OF inv] step'] oc
        in \<open>simp_all add: same_static_def\<close>)
  have "rt' = ?rt1 \<or> (\<exists>p. nd_parent nd = Some p \<and> rt' = post_notice now p oc ?rt1)"
    using step m False by (auto simp: finish_agent_def Let_def split: if_splits option.splits)
  then show ?thesis
  proof (elim disjE exE conjE)
    fix p assume p: "nd_parent nd = Some p" and rt': "rt' = post_notice now p oc ?rt1"
    obtain nd' where "map_of (rt_nodes ?rt1) (ao_node oc) = Some nd'" "nd_parent nd' = Some p"
      using rt_leE [of rt ?rt1 n nd] g1 m(1) p oc by (auto simp: good_def same_static_def)
    from good_trans [OF g1 post_notice_good [OF good_inv [OF g1] this]] show ?thesis unfolding rt' .
  qed (use g1 in simp)
qed

lemma ledger_op_good:
  assumes inv: "rt_inv rt" and l: "ledger_step (rt_ledger rt) op = Some l" "lg_next_attempt (rt_ledger rt) \<noteq> - 1"
  shows "good rt (rt\<lparr>rt_ledger := l\<rparr>)"
  by (rule good_frame [OF inv])
    (use ledger_step_inv [OF rt_invD(3) [OF inv] l] ledger_step_grows [OF rt_invD(3) [OF inv] l(1)] in simp_all)

lemma runtime_step_good:
  assumes inv: "rt_inv rt" and fc: "factory_ok fc" and bound: "lg_next_attempt (rt_ledger rt) \<noteq> - 1"
    and step: "runtime_step sj fc rt op = Some rt'"
  shows "good rt rt'"
proof (cases op)
  case (LedgerOp lop)
  then have "rt' = rt \<or> (\<exists>l. ledger_step (rt_ledger rt) lop = Some l \<and> rt' = rt\<lparr>rt_ledger := l\<rparr>)"
    using step by (auto split: ledger_op.splits bool.splits)
  then show ?thesis using good_refl [OF inv] ledger_op_good [OF inv _ bound] by blast
next
  case (CancelCellOp c)
  then have "rt' = rt\<lparr>rt_cells := insert c (rt_cells rt)\<rparr>" using step by simp
  show ?thesis unfolding \<open>rt' = _\<close> by (rule good_frame [OF inv]) (use rt_invD(3) [OF inv] in simp_all)
qed (use step spawn_agent_good [OF inv] start_agent_good [OF inv fc] send_message_good [OF inv]
    queue_next_good [OF inv] receive_good [OF inv] wait_step_good [OF inv] wait_take_good [OF inv]
    cancel_agent_good [OF inv] good_cancel [OF inv] end_mailbox_good [OF inv] close_work_good [OF inv]
    finish_agent_good [OF inv] in auto)

lemma runtime_new_inv:
  assumes "runtime_new fits l providers horizon prompt root = Inr rt"
    "nd_parent root = None" "nd_depth root = 0" "nd_tools root = None" "nd_mailbox root = mailbox_new"
    "nd_outcome root = None"
  shows "rt_inv rt"
proof -
  obtain lg where lg: "ledger_new fits l = Inr lg" "rt_ledger rt = lg" "rt_nodes rt = [(0, root)]" "rt_pending rt = []"
    using assms(1) by (auto simp: runtime_new_def register_def split: sum.splits)
  have "lg_scopes lg = [fresh_scope None 0 True (lim_budget_tokens l)]"
    using lg(1) by (auto simp: ledger_new_def split: sum.splits)
  then show ?thesis
    using assms(2-) ledger_new_inv [OF lg(1)]
    by (auto simp: rt_inv_def tree_inv_def mail_inv_def lg bt_wf_def node_ok_def tools_ok_def mailbox_new_def)
qed

lemma reaches_good:
  assumes "runtime_reaches sj fc rt0 rt" "rt_inv rt0" "factory_ok fc"
  shows "good rt0 rt"
  using assms
proof (induction rule: runtime_reaches.induct)
  case start
  then show ?case by (simp add: good_refl)
next
  case (step rt op rt')
  then have g: "good rt0 rt" by simp
  show ?case using good_trans [OF g runtime_step_good [OF good_inv [OF g] step.prems(2) step.hyps(2,3)]] .
qed

end
