(* ===== verification/Recursion_Props.thy ===== *)
theory Recursion_Props
  imports Recursion_Steps
begin

text \<open>
  What the agent tree promises over every run: agents hand down no more than they hold, a
  cancellation stops a whole subtree for good, and messages stay between an agent and its kin.
\<close>

section \<open>Up and down the tree\<close>

lemma tree_parent:
  assumes "tree_inv rt" "map_of (rt_nodes rt) n = Some nd" "nd_parent nd = Some p"
  obtains pn where "map_of (rt_nodes rt) p = Some pn" "p < n" "child_ok pn nd" "tools_ok nd"
  using tree_invD(4) [OF assms(1,2)] assms(3) by (auto simp: node_ok_def)

text \<open>What holds between a node and itself and passes from a child to its parent holds between every
  node and those of its subtree.\<close>

lemma subtree_rel:
  assumes inv: "tree_inv rt" and n: "map_of (rt_nodes rt) n = Some nd" "n \<in> subtree (rt_nodes rt) a"
    and a: "map_of (rt_nodes rt) a = Some na"
    and refl: "R na na"
    and up: "\<And>n nd p pn. map_of (rt_nodes rt) n = Some nd \<Longrightarrow> nd_parent nd = Some p \<Longrightarrow>
      map_of (rt_nodes rt) p = Some pn \<Longrightarrow> child_ok pn nd \<Longrightarrow> tools_ok nd \<Longrightarrow> R pn na \<Longrightarrow> R nd na"
  shows "R nd na"
  using n
proof (induction n arbitrary: nd rule: less_induct)
  case (less n)
  show ?case
  proof (cases "n = a")
    case True
    then show ?thesis using less.prems(1) a refl by simp
  next
    case False
    have "(n, nd) \<in> set (rt_nodes rt)" using less.prems(1) by (rule map_of_SomeD)
    from subtree_iff [OF tree_invD(3) [OF inv] this] less.prems(2) False
    obtain p where p: "p \<in> subtree (rt_nodes rt) a" "nd_parent nd = Some p" by blast
    from tree_parent [OF inv less.prems(1) p(2)]
    obtain pn where pn: "map_of (rt_nodes rt) p = Some pn" "p < n" "child_ok pn nd" "tools_ok nd" .
    show ?thesis by (rule up [OF less.prems(1) p(2) pn(1,3,4) less.IH [OF pn(2,1) p(1)]])
  qed
qed

definition tools_within :: "node \<Rightarrow> node \<Rightarrow> bool" where
  "tools_within nd na \<longleftrightarrow> (\<forall>ts. nd_tools nd = Some ts \<longrightarrow> (\<exists>ta. nd_tools na = Some ta
     \<and> set ts - {SUBMIT_RESULT} \<subseteq> set ta))"

lemma tools_within_refl: "tools_within na na"
  by (auto simp: tools_within_def)

lemma tools_within_up:
  assumes "child_ok pn nd" "tools_ok nd" "tools_within pn na"
  shows "tools_within nd na"
  unfolding tools_within_def
proof (intro allI impI)
  fix ts assume ts: "nd_tools nd = Some ts"
  obtain names owned where o: "nd_selection nd = Some names" "nd_tools pn = Some owned"
    "set names \<subseteq> set owned" "SUBMIT_RESULT \<notin> set names"
    using assms(1) by (auto simp: child_ok_def)
  then obtain ta where ta: "nd_tools na = Some ta" "set owned - {SUBMIT_RESULT} \<subseteq> set ta"
    using assms(3) by (auto simp: tools_within_def)
  have "set ts - {SUBMIT_RESULT} \<subseteq> set names"
    using assms(2) ts o(1) by (auto simp: tools_ok_def allowed_tools_def split: if_splits)
  then show "\<exists>ta. nd_tools na = Some ta \<and> set ts - {SUBMIT_RESULT} \<subseteq> set ta"
    using o(3,4) ta by blast
qed

text \<open>The budgets and depths are those of the ledger.\<close>

definition limit_of :: "runtime \<Rightarrow> node_id \<Rightarrow> u64" where
  "limit_of rt n = bs_limit (sc_budget (lg_scopes (rt_ledger rt) ! n))"

lemma ledger_up:
  assumes inv: "tree_inv rt" and n: "map_of (rt_nodes rt) n = Some nd" "nd_parent nd = Some p"
  shows "limit_of rt n \<le> limit_of rt p"
    "unat (sc_depth (lg_scopes (rt_ledger rt) ! p)) \<le> unat (sc_depth (lg_scopes (rt_ledger rt) ! n))"
proof -
  have ok: "node_ok (rt_nodes rt) (rt_ledger rt) n nd" by (rule tree_invD(4) [OF inv n(1)])
  then have "sc_parent (lg_scopes (rt_ledger rt) ! n) = Some p" "n < length (lg_scopes (rt_ledger rt))"
    using n(2) by (simp_all add: node_ok_def)
  then show "limit_of rt n \<le> limit_of rt p"
    "unat (sc_depth (lg_scopes (rt_ledger rt) ! p)) \<le> unat (sc_depth (lg_scopes (rt_ledger rt) ! n))"
    using ledger_invD(2) [OF tree_invD(1) [OF inv]] by (auto simp: inv_shape_def limit_of_def)
qed

lemma subtree_limits:
  assumes inv: "tree_inv rt" and n: "map_of (rt_nodes rt) n = Some nd" "n \<in> subtree (rt_nodes rt) a"
  shows "limit_of rt n \<le> limit_of rt a"
    "unat (sc_depth (lg_scopes (rt_ledger rt) ! a)) \<le> unat (sc_depth (lg_scopes (rt_ledger rt) ! n))"
proof -
  have "limit_of rt n \<le> limit_of rt a \<and>
    unat (sc_depth (lg_scopes (rt_ledger rt) ! a)) \<le> unat (sc_depth (lg_scopes (rt_ledger rt) ! n))"
    using n
  proof (induction n arbitrary: nd rule: less_induct)
    case (less n)
    show ?case
    proof (cases "n = a")
      case False
      have "(n, nd) \<in> set (rt_nodes rt)" using less.prems(1) by (rule map_of_SomeD)
      from subtree_iff [OF tree_invD(3) [OF inv] this] less.prems(2) False
      obtain p where p: "p \<in> subtree (rt_nodes rt) a" "nd_parent nd = Some p" by blast
      from tree_parent [OF inv less.prems(1) p(2)]
      obtain pn where "map_of (rt_nodes rt) p = Some pn" "p < n" by metis
      then show ?thesis
        using less.IH [of p pn] p(1) ledger_up [OF inv less.prems(1) p(2)] by force
    qed simp
  qed
  then show "limit_of rt n \<le> limit_of rt a"
    "unat (sc_depth (lg_scopes (rt_ledger rt) ! a)) \<le> unat (sc_depth (lg_scopes (rt_ledger rt) ! n))"
    by simp_all
qed

section \<open>Fresh runs\<close>

definition fresh_run :: "(duration \<Rightarrow> bool) \<Rightarrow> limits \<Rightarrow> string list \<Rightarrow> nat \<Rightarrow> string \<Rightarrow> node
    \<Rightarrow> (json \<Rightarrow> string) \<Rightarrow> tool_factory \<Rightarrow> runtime \<Rightarrow> bool" where
  "fresh_run fits l providers horizon prompt root sj fc rt \<longleftrightarrow>
     (\<exists>rt0 now model cwd options task system selection.
        root = root_node l now model cwd options task system selection
        \<and> runtime_new fits l providers horizon prompt root = Inr rt0
        \<and> runtime_reaches sj fc rt0 rt)"

lemma fresh_run_inv:
  assumes "factory_ok fc" "fresh_run fits l providers horizon prompt root sj fc rt"
  shows "rt_inv rt" "lg_limits (rt_ledger rt) = l"
proof -
  obtain rt0 where rt0: "runtime_new fits l providers horizon prompt root = Inr rt0"
    "runtime_reaches sj fc rt0 rt" "rt_inv rt0"
    using assms(2) runtime_new_inv [of fits l providers horizon prompt root] by (auto simp: fresh_run_def root_node_def)
  then have g: "good rt0 rt" using reaches_good assms(1) by blast
  then show "rt_inv rt" by (simp add: good_def)
  have "lg_limits (rt_ledger rt0) = l"
    using rt0(1) by (auto simp: runtime_new_def register_def ledger_new_def split: sum.splits)
  then show "lg_limits (rt_ledger rt) = l" using g by (simp add: good_def rt_le_def)
qed

section \<open>A sample tree\<close>

definition read_tool :: tool where
  "read_tool = \<lparr>tl_spec = \<lparr>ts_name = ''read_file'', ts_description = [], ts_input_schema = JObj [],
     ts_large_input = False\<rparr>, tl_large_input = False, tl_effect = ReadOnly,
     tl_validate_locally = True, tl_truncated = True\<rparr>"

definition sample_factory :: tool_factory where
  "sample_factory = (\<lambda>_ _. toolset_new [read_tool])"

lemma sample_factory_ok: "factory_ok sample_factory"
  using toolset_new_ok by (auto simp: factory_ok_def sample_factory_def)

definition sample_root :: node where
  "sample_root = root_node sample_limits 0 \<lparr>mref_provider = ''p'', mref_model = ''m''\<rparr> ''/''
     \<lparr>ro_effort = None, ro_thinking_display = None, ro_disable_cache = False, ro_task_budget_total = None\<rparr>
     ''t'' None None"

definition sample_runtime :: runtime where
  "sample_runtime = (case runtime_new (\<lambda>_. True) sample_limits [''p''] 1000 ''child'' sample_root of
     Inr rt \<Rightarrow> rt)"

lemma sample_runtime_eq: "runtime_new (\<lambda>_. True) sample_limits [''p''] 1000 ''child'' sample_root = Inr sample_runtime"
  by (simp add: sample_runtime_def runtime_new_def sample_new)

text \<open>The root begins, spawns a child with the default tools, and the child begins.\<close>

definition sample_root1 :: node where
  "sample_root1 = sample_root\<lparr>nd_tools := Some [''read_file'']\<rparr>"

definition sample_child_node :: node where
  "sample_child_node = child_node sample_runtime 0 sample_root1 (child_spec_new ''sub'') NodeOwner
     (lim_run_timeout sample_limits) \<lparr>mref_provider = ''p'', mref_model = ''m''\<rparr> [''read_file'']"

definition sample_rt1 :: runtime where
  "sample_rt1 = sample_runtime\<lparr>rt_nodes := [(0, sample_root1)]\<rparr>"

definition sample_rt2 :: runtime where
  "sample_rt2 = sample_runtime\<lparr>
     rt_ledger := admit_scope (rt_ledger sample_runtime) 0 1 True 20000000,
     rt_nodes := [(0, sample_root1\<lparr>nd_mailbox := mb_expect mailbox_new 1\<rparr>), (1, sample_child_node)]\<rparr>"

definition sample_rt3 :: runtime where
  "sample_rt3 = sample_runtime\<lparr>
     rt_ledger := admit_scope (rt_ledger sample_runtime) 0 1 True 20000000,
     rt_nodes := [(0, sample_root1\<lparr>nd_mailbox := mb_expect mailbox_new 1\<rparr>),
       (1, sample_child_node\<lparr>nd_tools := Some [''read_file'']\<rparr>)]\<rparr>"

lemmas tools_eval = start_tools_def sample_factory_def toolset_new_def read_tool_def select_def
  frozen_spec_def specs_def Let_def

lemma sample_start: "start_agent sample_factory 0 sample_runtime = Some (True, sample_rt1)"
  by (simp add: start_agent_def sample_rt1_def sample_runtime_def runtime_new_def sample_new register_def
    sample_root_def root_node_def sample_root1_def tools_eval update_node_def)

lemma sample_runtime_parts: "rt_nodes sample_runtime = [(0, sample_root)]"
    "lg_scopes (rt_ledger sample_runtime) = [fresh_scope None 0 True 20000000]"
    "rt_ledger sample_runtime = \<lparr>lg_limits = sample_limits,
    lg_scopes = [fresh_scope None 0 True 20000000], lg_total = 1, lg_live = 1, lg_llm = 0,
    lg_next_attempt = 0, lg_attempts = []\<rparr>"
    "rt_limits sample_runtime = sample_limits" "rt_providers sample_runtime = [''p'']"
    "rt_last_instant sample_runtime = 1000" "rt_cells sample_runtime = {}" "rt_messages sample_runtime = 0"
    "rt_pending sample_runtime = []"
  by (simp_all add: sample_runtime_def runtime_new_def sample_new register_def)

lemma sample_admit: "admit (rt_ledger sample_runtime) 0 True None =
    Some (Inr 1, admit_scope (rt_ledger sample_runtime) 0 1 True 20000000)"
  by (simp add: sample_runtime_parts ledger_eval) (simp add: sample_limits_def limits_default_def word_le_nat_alt)

lemma sample_root1_parts: "nd_deadline sample_root1 = lim_run_timeout sample_limits" "nd_closed sample_root1 = False"
    "nd_cancelled sample_root1 = False" "nd_owners sample_root1 = []" "nd_tools sample_root1 = Some [''read_file'']"
    "nd_model sample_root1 = \<lparr>mref_provider = ''p'', mref_model = ''m''\<rparr>" "nd_parent sample_root1 = None"
    "nd_mailbox sample_root1 = mailbox_new" "nd_outcome sample_root1 = None"
  by (simp_all add: sample_root1_def sample_root_def root_node_def)

lemma sample_timeout: "5 < lim_run_timeout sample_limits"
  by (simp add: sample_limits_def limits_default_def from_secs_def)

lemma sample_spawn: "spawn_agent sj 0 5 (child_spec_new ''sub'') NodeOwner sample_rt1 = Some (Inr 1, sample_rt2)"
  using sample_timeout sample_admit
  by (simp add: spawn_agent_def sample_rt1_def check_open_def stopped_def sample_root1_parts spawn_checks_def
    child_spec_new_def child_deadline_def validate_model_def sample_runtime_parts child_tools_def
    SUBAGENT_TOOLS_def output_error_def register_def expect_child_def update_node_def sample_rt2_def
    sample_child_node_def child_node_def)

lemma sample_fresh: "runtime_reaches sj sample_factory sample_runtime rt \<Longrightarrow>
    fresh_run (\<lambda>_. True) sample_limits [''p''] 1000 ''child'' sample_root sj sample_factory rt"
  unfolding fresh_run_def using sample_runtime_eq sample_root_def by blast

lemma sample_child_facts: "map_of (rt_nodes sample_rt2) 1 = Some sample_child_node"
    "nd_selection sample_child_node = Some [''read_file'']" "nd_output sample_child_node = None"
    "nd_tools sample_child_node = None" "nd_parent sample_child_node = Some 0"
  by (simp_all add: sample_rt2_def sample_child_node_def child_node_def child_spec_new_def)

lemma sample_start_child: "start_agent sample_factory 1 sample_rt2 = Some (True, sample_rt3)"
  using sample_child_facts
  by (simp add: start_agent_def tools_eval) (simp add: sample_rt2_def sample_rt3_def update_node_def)

lemma sample_next: "lg_next_attempt (rt_ledger sample_runtime) = 0" "lg_next_attempt (rt_ledger sample_rt1) = 0"
    "lg_next_attempt (rt_ledger sample_rt2) = 0" "lg_next_attempt (rt_ledger sample_rt3) = 0"
  by (simp_all add: sample_rt1_def sample_rt2_def sample_rt3_def sample_runtime_parts admit_scope_def)

lemma sample_reaches: "runtime_reaches sj sample_factory sample_runtime sample_rt3"
proof -
  have "runtime_reaches sj sample_factory sample_runtime sample_rt1"
    by (rule runtime_reaches.step [OF runtime_reaches.start, of _ _ _ "StartOp 0"])
      (simp_all add: sample_next sample_start)
  then have "runtime_reaches sj sample_factory sample_runtime sample_rt2"
    by (rule runtime_reaches.step [of _ _ _ _ "SpawnOp 0 5 (child_spec_new ''sub'') NodeOwner"])
      (simp_all add: sample_next sample_spawn)
  then show ?thesis
    by (rule runtime_reaches.step [of _ _ _ _ "StartOp 1"])
      (simp_all add: sample_next sample_start_child del: One_nat_def)
qed

lemmas sample_run3 = sample_fresh [OF sample_reaches]

lemma sample_nodes3: "map_of (rt_nodes sample_rt3) 0 = Some (sample_root1\<lparr>nd_mailbox := mb_expect mailbox_new 1\<rparr>)"
    "map_of (rt_nodes sample_rt3) 1 = Some (sample_child_node\<lparr>nd_tools := Some [''read_file'']\<rparr>)"
  by (simp_all add: sample_rt3_def)

lemma sample_subtree: "1 \<in> subtree (rt_nodes sample_rt3) 0"
  by (simp add: subtree_def sample_rt3_def sample_child_facts)

section \<open>Properties\<close>

text \<open>
  C36. Over any run of the agent tree, an agent holds no more than any agent above it: its deadline
  is no later, its frozen tools (apart from the tool that submits its result) are among theirs,
  its token limit is no larger, it stops with every cell they stop with, and it lies deeper, within
  the depth limit.
\<close>
theorem capabilities_attenuate:
  assumes "factory_ok fc" "fresh_run fits l providers horizon prompt root sj fc rt"
    "map_of (rt_nodes rt) n = Some nn" "map_of (rt_nodes rt) a = Some na" "n \<in> subtree (rt_nodes rt) a"
  shows "nd_deadline nn \<le> nd_deadline na \<and> tools_within nn na \<and> limit_of rt n \<le> limit_of rt a
    \<and> set (nd_owners na) \<subseteq> set (nd_owners nn) \<and> nd_depth na \<le> nd_depth nn \<and> nd_depth nn \<le> lim_max_depth l"
proof -
  note I = fresh_run_inv [OF assms(1,2)] and T = rt_invD(1) [OF fresh_run_inv(1) [OF assms(1,2)]]
  have dead: "nd_deadline nn \<le> nd_deadline na \<and> set (nd_owners na) \<subseteq> set (nd_owners nn)"
    by (rule subtree_rel [OF T assms(3,5,4)]) (auto simp: child_ok_def)
  have tools: "tools_within nn na"
    by (rule subtree_rel [OF T assms(3,5,4) tools_within_refl]) (rule tools_within_up)
  have d: "sc_depth (lg_scopes (rt_ledger rt) ! n) = nd_depth nn" "sc_depth (lg_scopes (rt_ledger rt) ! a) = nd_depth na"
    "n < length (lg_scopes (rt_ledger rt))"
    using tree_invD(4) [OF T] assms(3,4) by (auto simp: node_ok_def)
  have "nd_depth nn \<le> lim_max_depth l"
    using ledger_invD(2) [OF tree_invD(1) [OF T]] d I(2) by (auto simp: inv_shape_def)
  then show ?thesis
    using dead tools subtree_limits [OF T assms(3,5)] d by (simp add: word_le_nat_alt)
qed

theorem capabilities_attenuate_witness:
  "nd_deadline (sample_child_node\<lparr>nd_tools := Some [''read_file'']\<rparr>) \<le> lim_run_timeout sample_limits
    \<and> limit_of sample_rt3 1 \<le> limit_of sample_rt3 0"
  using capabilities_attenuate [OF sample_factory_ok sample_run3 sample_nodes3(2,1) sample_subtree]
  by (simp add: sample_root1_parts)

section \<open>Cancellation\<close>

lemma climb_to_iff:
  assumes inv: "tree_inv rt" and i: "map_of (rt_nodes rt) i = Some nd"
  shows "climb_to (rt_nodes rt) self (Some i)
    = Some (if i \<in> subtree (rt_nodes rt) self then Some self else None)"
  using i
proof (induction i arbitrary: nd rule: less_induct)
  case (less i)
  have "(i, nd) \<in> set (rt_nodes rt)" using less.prems by (rule map_of_SomeD)
  note sub = subtree_iff [OF tree_invD(3) [OF inv] this, of self]
  show ?case
  proof (cases "i = self")
    case True
    then show ?thesis using sub by (simp add: climb_to.simps)
  next
    case False
    show ?thesis
    proof (cases "nd_parent nd")
      case None
      then show ?thesis using False sub less.prems
        by (simp add: climb_to.simps [of _ _ "Some i"] climb_to.simps [of _ _ None])
    next
      case (Some p)
      from tree_parent [OF inv less.prems Some]
      obtain pn where "map_of (rt_nodes rt) p = Some pn" "p < i" by metis
      then show ?thesis using False sub less.IH [of p pn] less.prems Some
        by (simp add: climb_to.simps [of _ _ "Some i"])
    qed
  qed
qed

lemma subtree_cancelled:
  assumes inv: "tree_inv rt" and a: "map_of (rt_nodes rt) a = Some na" "nd_cancelled na"
    and n: "n \<in> subtree (rt_nodes rt) a"
  shows "\<exists>nd. map_of (rt_nodes rt) n = Some nd \<and> nd_cancelled nd"
proof -
  obtain nd where nd: "map_of (rt_nodes rt) n = Some nd"
    using n subtree_keys [of "rt_nodes rt" a] by (metis map_of_eq_None_iff not_None_eq subsetD)
  have "nd_cancelled na \<longrightarrow> nd_cancelled nd"
    by (rule subtree_rel [OF inv nd n a(1)]) (auto simp: child_ok_def)
  then show ?thesis using nd a(2) by simp
qed

text \<open>What a cancelled agent may no longer do.\<close>

definition refuses_work :: "(json \<Rightarrow> string) \<Rightarrow> runtime \<Rightarrow> node_id \<Rightarrow> bool" where
  "refuses_work sj rt n \<longleftrightarrow>
     (\<forall>now sp own. spawn_agent sj n now sp own rt = Some (Inl Cancelled, rt))
     \<and> (\<forall>now other body. \<exists>e. send_message n now other body rt = Some (Inl e, rt))
     \<and> (\<forall>now. receive n now rt = Some (ReceiveFailed Cancelled, rt))"

lemma cancelled_refuses:
  assumes "map_of (rt_nodes rt) n = Some nd" "nd_cancelled nd"
  shows "refuses_work sj rt n"
proof -
  have "check_open n nd now rt = (False, rt)" for now
    using assms(2) by (simp add: check_open_def stopped_def)
  then show ?thesis
    using assms(1) by (simp add: refuses_work_def spawn_agent_def send_message_def receive_def)
qed

lemma cancel_node_map:
  "map_of (rt_nodes (cancel_node a rt)) i = map_option
    (\<lambda>nd. if i \<in> subtree (rt_nodes rt) a then nd\<lparr>nd_cancelled := True\<rparr> else nd) (map_of (rt_nodes rt) i)"
proof -
  have "rt_nodes (cancel_node a rt) = mapped
      (\<lambda>i nd. if i \<in> subtree (rt_nodes rt) a then nd\<lparr>nd_cancelled := True\<rparr> else nd) (rt_nodes rt)"
    by (simp add: cancel_node_def mapped_def)
  then show ?thesis by (simp add: map_of_mapped)
qed

lemma cancel_agent_cases:
  assumes inv: "tree_inv rt" and me: "map_of (rt_nodes rt) self = Some me"
    and op: "check_open self me now rt = (True, rt)"
  shows "if agent \<noteq> self \<and> agent \<in> subtree (rt_nodes rt) self
    then \<exists>fin. cancel_agent self now agent rt = Some (Inr fin, cancel_node agent rt)
    else \<exists>e. cancel_agent self now agent rt = Some (Inl e, rt)"
proof (cases "map_of (rt_nodes rt) agent")
  case None
  then have "agent \<notin> subtree (rt_nodes rt) self"
    using subtree_keys [of "rt_nodes rt" self] by (auto simp: map_of_eq_None_iff)
  then show ?thesis using me op None by (simp add: cancel_agent_def)
next
  case (Some target)
  have "(agent, target) \<in> set (rt_nodes rt)" using Some by (rule map_of_SomeD)
  note sub = subtree_iff [OF tree_invD(3) [OF inv] this, of self]
  show ?thesis
  proof (cases "nd_parent target")
    case None
    then show ?thesis using me op Some sub climb_to.simps [of "rt_nodes rt" self None]
      by (auto simp: cancel_agent_def)
  next
    case p: (Some p)
    from tree_parent [OF inv Some p]
    obtain pn where "map_of (rt_nodes rt) p = Some pn" by metis
    then show ?thesis using me op Some sub p climb_to_iff [OF inv, of p pn self]
      by (auto simp: cancel_agent_def)
  qed
qed

text \<open>
  C37. An agent that may still act cancels exactly its proper descendants; any other target is
  refused and changes nothing.  A cancellation reaches the whole subtree of the target and nothing
  outside it, and it is final: over every later run, every agent of that subtree, those that
  would join it included, stays cancelled and can neither spawn, send nor receive.
\<close>
theorem cancellation_is_final:
  assumes "factory_ok fc" "fresh_run fits l providers horizon prompt root sj fc rt"
    "map_of (rt_nodes rt) self = Some me" "check_open self me now rt = (True, rt)"
  shows "\<exists>r rt'. cancel_agent self now agent rt = Some (r, rt')
    \<and> ((\<exists>fin. r = Inr fin) \<longleftrightarrow> agent \<noteq> self \<and> agent \<in> subtree (rt_nodes rt) self)
    \<and> ((\<exists>e. r = Inl e) \<longrightarrow> rt' = rt)
    \<and> (\<forall>m. m \<notin> subtree (rt_nodes rt) agent \<longrightarrow> map_of (rt_nodes rt') m = map_of (rt_nodes rt) m)
    \<and> ((\<exists>fin. r = Inr fin) \<longrightarrow> (\<forall>rt''. runtime_reaches sj fc rt' rt'' \<longrightarrow>
        agent \<in> subtree (rt_nodes rt'') agent \<and> (\<forall>n \<in> subtree (rt_nodes rt'') agent.
          (\<exists>nd. map_of (rt_nodes rt'') n = Some nd \<and> nd_cancelled nd) \<and> refuses_work sj rt'' n)))"
proof (cases "agent \<noteq> self \<and> agent \<in> subtree (rt_nodes rt) self")
  case False
  then obtain e where "cancel_agent self now agent rt = Some (Inl e, rt)"
    using cancel_agent_cases [OF rt_invD(1) [OF fresh_run_inv(1) [OF assms(1,2)]] assms(3,4), of agent]
    by (auto split: if_splits)
  then show ?thesis using False by (simp only: option.inject prod.inject) auto
next
  case True
  note I = fresh_run_inv(1) [OF assms(1,2)] and T = rt_invD(1) [OF fresh_run_inv(1) [OF assms(1,2)]]
  obtain fin where c: "cancel_agent self now agent rt = Some (Inr fin, cancel_node agent rt)"
    using cancel_agent_cases [OF T assms(3,4), of agent] True by auto
  obtain na where na: "map_of (rt_nodes rt) agent = Some na"
    using True subtree_keys [of "rt_nodes rt" self] by (metis map_of_eq_None_iff not_None_eq subsetD)
  then have "(agent, na) \<in> set (rt_nodes rt)" by (rule map_of_SomeD)
  then have self_in: "agent \<in> subtree (rt_nodes rt) agent" using subtree_iff [OF tree_invD(3) [OF T]] by blast
  have "agent \<in> subtree (rt_nodes rt'') agent \<and> (\<forall>n \<in> subtree (rt_nodes rt'') agent.
      (\<exists>nd. map_of (rt_nodes rt'') n = Some nd \<and> nd_cancelled nd) \<and> refuses_work sj rt'' n)"
    if run: "runtime_reaches sj fc (cancel_node agent rt) rt''" for rt''
  proof -
    have g: "good (cancel_node agent rt) rt''"
      by (rule reaches_good [OF run good_inv [OF good_cancel [OF I]] assms(1)])
    have na1: "map_of (rt_nodes (cancel_node agent rt)) agent = Some (na\<lparr>nd_cancelled := True\<rparr>)"
      using na self_in by (simp add: cancel_node_map)
    have "rt_le (cancel_node agent rt) rt''" using g by (simp add: good_def)
    from rt_leE [OF this na1]
    obtain na' where na': "map_of (rt_nodes rt'') agent = Some na'" "nd_cancelled na'" by auto
    have T': "tree_inv rt''" using rt_invD(1) [OF good_inv [OF g]] .
    have "(agent, na') \<in> set (rt_nodes rt'')" using na'(1) by (rule map_of_SomeD)
    then have "agent \<in> subtree (rt_nodes rt'') agent" using subtree_iff [OF tree_invD(3) [OF T']] by blast
    then show ?thesis using subtree_cancelled [OF T' na'] cancelled_refuses by blast
  qed
  then show ?thesis using True by (simp add: c cancel_node_map option.map_ident)
qed

lemma sample_open: "check_open 0 (sample_root1\<lparr>nd_mailbox := mb_expect mailbox_new 1\<rparr>) 5 sample_rt3 = (True, sample_rt3)"
  using sample_timeout by (simp add: check_open_def stopped_def sample_root1_parts)

theorem cancellation_is_final_witness:
  "\<exists>fin rt'. cancel_agent 0 5 1 sample_rt3 = Some (Inr fin, rt') \<and> refuses_work (\<lambda>_. []) rt' 1"
proof -
  obtain r rt' where c: "cancel_agent 0 5 1 sample_rt3 = Some (r, rt')" "\<exists>fin. r = Inr fin"
    "\<And>rt''. runtime_reaches (\<lambda>_. []) sample_factory rt' rt'' \<Longrightarrow> 1 \<in> subtree (rt_nodes rt'') 1
      \<and> refuses_work (\<lambda>_. []) rt'' 1"
    using cancellation_is_final [OF sample_factory_ok sample_run3 sample_nodes3(1) sample_open,
      of 1 "\<lambda>_. []"] sample_subtree
    by (auto simp del: One_nat_def)
  then show ?thesis using runtime_reaches.start by blast
qed

section \<open>Messages\<close>

text \<open>
  C38. Over any run, every message that is queued or about to be queued at an agent comes from its
  parent, one of its children or one of its siblings, who could be answered the same way, and names
  the spawn it belongs to: the child of the two, or none between siblings.
\<close>
theorem mail_between_kin:
  assumes "factory_ok fc" "fresh_run fits l providers horizon prompt root sj fc rt"
    "map_of (rt_nodes rt) n = Some nd"
    "e \<in> set (mb_queue (nd_mailbox nd)) \<or> e \<in> set (rt_pending rt) \<and> env_to e = n"
  shows "env_to e = n \<and> (\<exists>from. map_of (rt_nodes rt) (env_from e) = Some from \<and> env_from e \<noteq> n
    \<and> (nd_parent from = Some n \<and> env_spawn e = Some (env_from e)
       \<or> nd_parent nd = Some (env_from e) \<and> env_spawn e = Some n
       \<or> nd_parent nd \<noteq> None \<and> nd_parent from = nd_parent nd \<and> env_spawn e = None))
    \<and> kin rt (env_from e) n = Inr (env_spawn e) \<and> kin rt n (env_from e) = Inr (env_spawn e)"
proof -
  note I = fresh_run_inv(1) [OF assms(1,2)]
  have ok: "mail_ok rt n e" using assms(3,4) I by (auto simp: rt_inv_def mail_inv_def)
  then obtain x where x: "map_of (rt_nodes rt) (env_from e) = Some x"
    "spawn_link (env_from e) n (nd_parent x) (nd_parent nd) (env_spawn e)"
    using assms(3) by (auto simp: mail_ok_def kin_Inr)
  have up: "p < i" if "map_of (rt_nodes rt) i = Some y" "nd_parent y = Some p" for i y p
    using tree_parent [OF rt_invD(1) [OF I] that] by blast
  have not_both: "\<not> (nd_parent x = Some n \<and> nd_parent nd = Some (env_from e))"
    using up [OF x(1)] up [OF assms(3)] by force
  then have sym: "spawn_link n (env_from e) (nd_parent nd) (nd_parent x) (env_spawn e)"
    using x(2) by (auto simp: spawn_link_def split: if_splits)
  then have "kin rt n (env_from e) = Inr (env_spawn e)" using x(1) assms(3) by (simp add: kin_Inr)
  then show ?thesis using ok x by (auto simp: mail_ok_def spawn_link_def split: if_splits)
qed

definition sample_envelope :: envelope where
  "sample_envelope = \<lparr>env_id = 0, env_from = 1, env_to = 0, env_kind = KMessage, env_body = ''hi'',
     env_sent_at = 6, env_spawn = Some 1, env_status = None\<rparr>"

definition sample_mailbox :: mailbox where
  "sample_mailbox = (mb_expect mailbox_new 1)\<lparr>mb_reserved := 1\<rparr>"

definition sample_rt4 :: runtime where
  "sample_rt4 = (set_mailbox 0 sample_mailbox sample_rt3)\<lparr>rt_messages := 1, rt_pending := [sample_envelope]\<rparr>"

lemma sample_mb_reserve: "mb_reserve (mb_expect mailbox_new 1) 64 = (Inr (), sample_mailbox)"
  by (simp add: mb_reserve_def mb_expect_def mailbox_new_def sample_mailbox_def)

lemma sample_child_open: "check_open 1 (sample_child_node\<lparr>nd_tools := Some [''read_file'']\<rparr>) 6 sample_rt3 = (True, sample_rt3)"
  by (simp add: check_open_def stopped_def sample_child_node_def child_node_def child_spec_new_def
    sample_root1_parts) (simp add: sample_limits_def limits_default_def from_secs_def)

lemma sample_kin: "kin sample_rt3 1 0 = Inr (Some 1)"
  using sample_nodes3 sample_child_facts(5) by (simp add: kin_def del: One_nat_def)

lemma sample_rt3_parts: "rt_limits sample_rt3 = sample_limits" "rt_messages sample_rt3 = 0" "rt_pending sample_rt3 = []"
    "lim_message_chars sample_limits = 20000" "unat (lim_mailbox_capacity sample_limits) = 64"
  by (simp_all add: sample_rt3_def sample_runtime_parts sample_limits_def limits_default_def MESSAGE_CHARS_def
    MAILBOX_CAPACITY_def)

lemma sample_send: "send_message 1 6 0 ''hi'' sample_rt3 = Some (Inr 0, sample_rt4)"
  using sample_nodes3 sample_child_open sample_kin sample_mb_reserve
  by (simp add: send_message_def sample_rt3_parts sample_rt4_def sample_envelope_def
    sample_root1_parts del: One_nat_def)

lemma sample_reaches4: "runtime_reaches sj sample_factory sample_runtime sample_rt4"
  by (rule runtime_reaches.step [OF sample_reaches, of _ "SendOp 1 6 0 ''hi''"])
    (simp_all add: sample_next sample_send del: One_nat_def)

theorem mail_between_kin_witness:
  "kin sample_rt4 1 0 = Inr (Some 1) \<and> kin sample_rt4 0 1 = Inr (Some 1)"
proof -
  have n: "map_of (rt_nodes sample_rt4) 0 = Some (sample_root1\<lparr>nd_mailbox := sample_mailbox\<rparr>)"
    by (simp add: sample_rt4_def set_mailbox_def update_node_def sample_rt3_def)
  have e: "sample_envelope \<in> set (rt_pending sample_rt4) \<and> env_to sample_envelope = 0"
    by (simp add: sample_rt4_def sample_envelope_def)
  show ?thesis
    using mail_between_kin [OF sample_factory_ok sample_fresh [OF sample_reaches4] n disjI2 [OF e]]
    by (simp add: sample_envelope_def)
qed

end
