(* ===== verification/Mcp_Config.thy ===== *)
theory Mcp_Config
  imports Defaults_Limits Complex_Main
begin

text \<open>
  The `[mcp.servers.<name>]` tables and their validation, `crates/mcp/src/config.rs`.  The url and
  header types of the `reqwest` crate are arguments, gathered in `web_lib`.  A number of seconds,
  an `f64`, is a rational number, an infinity or not a number.
\<close>

section \<open>Tables\<close>

datatype f64 = Finite rat | Infinite bool | NotANumber

record server_config =
  sv_command :: "string option"
  sv_args :: "string list"
  sv_env :: "(string \<times> string) list"
  sv_env_vars :: "string list"
  sv_cwd :: "string option"
  sv_url :: "string option"
  sv_bearer_token_env :: "string option"
  sv_headers :: "(string \<times> string) list"
  sv_env_headers :: "(string \<times> string) list"
  sv_startup_timeout :: "f64 option"
  sv_tool_timeout :: "f64 option"
  sv_allow_tools :: "string list option"
  sv_deny_tools :: "string list"
  sv_enabled :: bool

definition server_config_default :: server_config where
  "server_config_default = \<lparr>sv_command = None, sv_args = [], sv_env = [], sv_env_vars = [],
     sv_cwd = None, sv_url = None, sv_bearer_token_env = None, sv_headers = [],
     sv_env_headers = [], sv_startup_timeout = None, sv_tool_timeout = None,
     sv_allow_tools = None, sv_deny_tools = [], sv_enabled = True\<rparr>"

text \<open>What the code uses of `reqwest`: parsed urls, header names in lower case, header values.\<close>

record url =
  url_scheme :: string
  url_username :: string
  url_password :: "string option"
  url_query :: "(string \<times> string) list"

record web_lib =
  web_url :: "string \<Rightarrow> url option"
  web_header_name :: "string \<Rightarrow> string option"
  web_header_value :: "string \<Rightarrow> bool"

definition MAX_SERVER_NAME :: nat where
  "MAX_SERVER_NAME = 32"

definition STARTUP_TIMEOUT :: duration where
  "STARTUP_TIMEOUT = from_secs 30"

definition TOOL_TIMEOUT :: duration where
  "TOOL_TIMEOUT = from_secs 120"

section \<open>Text helpers\<close>

definition ascii_upper :: "char \<Rightarrow> char" where
  "ascii_upper c = (if byte_in c 97 122 then char_of (of_char c - 32 :: nat) else c)"

definition ascii_lower :: "char \<Rightarrow> char" where
  "ascii_lower c = (if byte_in c 65 90 then char_of (of_char c + 32 :: nat) else c)"

definition ascii_alnum :: "char \<Rightarrow> bool" where
  "ascii_alnum c \<longleftrightarrow> byte_in c 48 57 \<or> byte_in c 65 90 \<or> byte_in c 97 122"

definition has_part :: "string \<Rightarrow> string \<Rightarrow> bool" where
  "has_part text needle \<longleftrightarrow> list_ex (prefix needle) (suffixes text)"

section \<open>Credentials\<close>

definition CREDENTIAL_WORDS :: "string list" where
  "CREDENTIAL_WORDS = [''KEY'', ''TOKEN'', ''SECRET'', ''PASSWORD'', ''PASSWD'', ''PASSPHRASE'',
     ''CREDENTIAL'', ''AUTH'', ''COOKIE'', ''SESSION'', ''BEARER'', ''JWT'']"

definition credential :: "string \<Rightarrow> bool" where
  "credential name \<longleftrightarrow> list_ex (has_part (map ascii_upper name)) CREDENTIAL_WORDS"

text \<open>Two hexadecimal digits, or `+` and one, as `u8::from_str_radix` accepts them.\<close>

definition hex_digit :: "char \<Rightarrow> nat option" where
  "hex_digit c = (if byte_in c 48 57 then Some (of_char c - 48)
     else if byte_in c 97 102 then Some (of_char c - 87)
     else if byte_in c 65 70 then Some (of_char c - 55) else None)"

definition hex_pair :: "char \<Rightarrow> char \<Rightarrow> nat option" where
  "hex_pair a b = (if a = CHR ''+'' then hex_digit b
     else Option.bind (hex_digit a) (\<lambda>x. map_option (\<lambda>y. x * 16 + y) (hex_digit b)))"

fun percent_bytes :: "string \<Rightarrow> string" where
  "percent_bytes (c # a # b # s) =
     (if c = CHR ''%'' \<and> hex_pair a b \<noteq> None
      then char_of (the (hex_pair a b)) # percent_bytes s
      else (if c = CHR ''+'' then CHR '' '' else c) # percent_bytes (a # b # s))"
| "percent_bytes (c # s) = (if c = CHR ''+'' then CHR '' '' else c) # percent_bytes s"
| "percent_bytes [] = []"

definition percent_decoded :: "string \<Rightarrow> string" where
  "percent_decoded key = utf8_lossy (percent_bytes key)"

text \<open>The url that starts behind one `://`.\<close>

definition url_part_credentials :: "string \<Rightarrow> bool" where
  "url_part_credentials rest =
     (let url = concat (takeWhile (\<lambda>c. c \<notin> set ws_encodings) (utf8_chars rest));
          authority = takeWhile (\<lambda>c. c \<notin> set ''/?#'') url;
          query = (case split_once (CHR ''?'') url of
                     None \<Rightarrow> [] | Some (_, q) \<Rightarrow> takeWhile (\<lambda>c. c \<noteq> CHR ''#'') q)
      in CHR ''@'' \<in> set authority
         \<or> list_ex (\<lambda>pair. credential (percent_decoded (takeWhile (\<lambda>c. c \<noteq> CHR ''='') pair)))
             (split_char (CHR ''&'') query))"

definition url_credentials :: "string \<Rightarrow> bool" where
  "url_credentials value \<longleftrightarrow>
     list_ex (\<lambda>s. prefix ''://'' s \<and> url_part_credentials (drop 3 s)) (suffixes value)"

definition CREDENTIAL_FLAGS :: "string list" where
  "CREDENTIAL_FLAGS = [''api-key'', ''apikey'', ''token'', ''access-token'', ''auth-token'',
     ''bearer'', ''password'', ''passwd'', ''secret'', ''client-secret'', ''private-key'']"

text \<open>One argument and those after it.\<close>

definition passes_credential :: "string \<Rightarrow> string list \<Rightarrow> bool" where
  "passes_credential arg rest =
     (if \<not> prefix ''-'' arg then False
      else let bare = dropWhile (\<lambda>c. c = CHR ''-'') arg;
               (flag, val) = (case split_once (CHR ''='') bare of
                 Some (f, v) \<Rightarrow> (f, Some v) | None \<Rightarrow> (bare, None));
               flag = map (\<lambda>c. if c = CHR ''_'' then CHR ''-'' else c) (map ascii_lower flag)
           in if prefix ''no-'' flag \<or> flag \<notin> set CREDENTIAL_FLAGS then False
              else case val of Some v \<Rightarrow> v \<noteq> [] | None \<Rightarrow> rest \<noteq> [])"

fun flag_credential :: "string list \<Rightarrow> bool" where
  "flag_credential [] = False"
| "flag_credential (arg # rest) \<longleftrightarrow> passes_credential arg rest \<or> flag_credential rest"

section \<open>Timeouts\<close>

text \<open>`Duration::try_from_secs_f64`: rounded to the nearest nanosecond, ties to even.\<close>

definition round_even :: "rat \<Rightarrow> int" where
  "round_even r = (let f = floor r; d = r - of_int f in
     if d < 1 / 2 then f else if 1 / 2 < d then f + 1 else if even f then f else f + 1)"

definition DURATION_NANOS :: nat where
  "DURATION_NANOS = 2 ^ 64 * 1000000000"

fun try_from_secs_f64 :: "f64 \<Rightarrow> duration option" where
  "try_from_secs_f64 (Finite r) =
     (if r < 0 then None
      else let n = nat (round_even (r * 1000000000)) in if n < DURATION_NANOS then Some n else None)"
| "try_from_secs_f64 _ = None"

fun positive_f64 :: "f64 \<Rightarrow> bool" where
  "positive_f64 (Finite r) \<longleftrightarrow> 0 < r"
| "positive_f64 (Infinite negative) \<longleftrightarrow> \<not> negative"
| "positive_f64 NotANumber \<longleftrightarrow> True"

definition seconds_of :: "f64 option \<Rightarrow> duration option" where
  "seconds_of v = Option.bind v try_from_secs_f64"

definition startup_timeout :: "server_config \<Rightarrow> duration" where
  "startup_timeout c = (case seconds_of (sv_startup_timeout c) of Some d \<Rightarrow> d | None \<Rightarrow> STARTUP_TIMEOUT)"

definition tool_timeout :: "server_config \<Rightarrow> duration" where
  "tool_timeout c = (case seconds_of (sv_tool_timeout c) of Some d \<Rightarrow> d | None \<Rightarrow> TOOL_TIMEOUT)"

definition exposes :: "server_config \<Rightarrow> string \<Rightarrow> bool" where
  "exposes c tool \<longleftrightarrow> (case sv_allow_tools c of None \<Rightarrow> True | Some allow \<Rightarrow> tool \<in> set allow)
     \<and> tool \<notin> set (sv_deny_tools c)"

section \<open>Validation\<close>

definition valid_server_name :: "string \<Rightarrow> bool" where
  "valid_server_name name \<longleftrightarrow> name \<noteq> [] \<and> length name \<le> MAX_SERVER_NAME
     \<and> list_all (\<lambda>b. ascii_alnum b \<or> b = CHR ''_'' \<or> b = CHR ''-'') name
     \<and> \<not> has_part name ''__'' \<and> \<not> suffix ''_'' name"

definition validate_name :: "string \<Rightarrow> string + unit" where
  "validate_name name =
     (if \<not> valid_server_name name
      then Inl (''invalid mcp server name: use 1 to '' @ show_nat MAX_SERVER_NAME @
        '' ASCII letters, digits, '-' or '_', without '__' or a trailing '' @ [CHR 0x27, CHR ''_'', CHR 0x27])
      else Inr ())"

definition RESERVED_HEADERS :: "string list" where
  "RESERVED_HEADERS = [''accept'', ''content-type'', ''mcp-session-id'', ''mcp-protocol-version'',
     ''last-event-id'']"

definition validate_stdio :: "server_config \<Rightarrow> string \<Rightarrow> string + unit" where
  "validate_stdio c command =
     (if command = [] then Inl ''command is empty''
      else if sv_bearer_token_env c \<noteq> None \<or> sv_headers c \<noteq> [] \<or> sv_env_headers c \<noteq> []
      then Inl ''bearer_token_env, headers and env_headers apply only to url servers''
      else if list_ex (\<lambda>(name, _). credential name) (sv_env c)
        \<or> list_ex (\<lambda>(_, value). url_credentials value) (sv_env c)
      then Inl ''env must not hold credentials; name the variable in env_vars instead''
      else if list_ex url_credentials (sv_args c) \<or> flag_credential (sv_args c)
      then Inl ''args must not hold credentials; pass them through env_vars''
      else Inr ())"

definition valid_header :: "web_lib \<Rightarrow> string \<Rightarrow> bool" where
  "valid_header web name = (case web_header_name web name of
     None \<Rightarrow> False | Some header \<Rightarrow> header \<notin> set RESERVED_HEADERS)"

definition validate_url :: "web_lib \<Rightarrow> server_config \<Rightarrow> string \<Rightarrow> string + unit" where
  "validate_url web c url = (case web_url web url of
       None \<Rightarrow> Inl ''url is not valid''
     | Some parsed \<Rightarrow>
         if url_scheme parsed \<notin> {''http'', ''https''} then Inl ''url must use http or https''
         else if url_username parsed \<noteq> [] \<or> url_password parsed \<noteq> None
           \<or> list_ex (\<lambda>(name, _). credential name) (url_query parsed)
         then Inl ''url must not embed credentials; use bearer_token_env or env_headers''
         else if sv_args c \<noteq> [] \<or> sv_env c \<noteq> [] \<or> sv_env_vars c \<noteq> [] \<or> sv_cwd c \<noteq> None
         then Inl ''args, env, env_vars and cwd apply only to command servers''
         else if list_ex (\<lambda>(name, _). credential name) (sv_headers c)
           \<or> list_ex (\<lambda>(_, value). url_credentials value) (sv_headers c)
         then Inl ''headers must not hold credentials; use bearer_token_env or env_headers''
         else if list_ex (\<lambda>(name, _). \<not> valid_header web name) (sv_headers c @ sv_env_headers c)
         then Inl ''invalid or reserved header name''
         else if list_ex (\<lambda>(_, value). \<not> web_header_value web value) (sv_headers c)
         then Inl ''invalid header value''
         else Inr ())"

definition validate_timeouts :: "(duration \<Rightarrow> bool) \<Rightarrow> server_config \<Rightarrow> string + unit" where
  "validate_timeouts fits c =
     (if list_ex (\<lambda>s. \<not> positive_f64 s \<or> (case try_from_secs_f64 s of None \<Rightarrow> True | Some d \<Rightarrow> \<not> fits d))
           (List.map_filter id [sv_startup_timeout c, sv_tool_timeout c])
      then Inl ''timeouts must be positive numbers of seconds that fit a deadline'' else Inr ())"

definition validate_server :: "web_lib \<Rightarrow> (duration \<Rightarrow> bool) \<Rightarrow> server_config \<Rightarrow> string + unit" where
  "validate_server web fits c =
     (case (case (sv_command c, sv_url c) of
              (Some _, Some _) \<Rightarrow> Inl ''set either command or url, not both''
            | (None, None) \<Rightarrow> Inl ''set command (stdio) or url (streamable HTTP)''
            | (Some command, None) \<Rightarrow> validate_stdio c command
            | (None, Some url) \<Rightarrow> validate_url web c url) of
        Inl e \<Rightarrow> Inl e
      | Inr _ \<Rightarrow> validate_timeouts fits c)"

fun validate_servers :: "web_lib \<Rightarrow> (duration \<Rightarrow> bool) \<Rightarrow> (string \<times> server_config) list \<Rightarrow> string + unit" where
  "validate_servers web fits [] = Inr ()"
| "validate_servers web fits ((name, c) # rest) =
     (case validate_name name of
        Inl e \<Rightarrow> Inl e
      | Inr _ \<Rightarrow>
          (case validate_server web fits c of
             Inl e \<Rightarrow> Inl (''mcp server '' @ name @ '': '' @ e)
           | Inr _ \<Rightarrow> validate_servers web fits rest))"

end
