(* ===== verification/Secrets.thy ===== *)
theory Secrets
  imports Protocol Mcp_Config
begin

text \<open>
  Credential values and their removal from text, `crates/mcp/src/secrets.rs`: matches of all
  values, found in the text and in the text with its JSON escapes decoded, are merged into spans
  and replaced.  The Aho-Corasick automaton is not part of the repository: the functions that
  build and run it are arguments.  None in an outer option is a panic, a slice that does not lie
  on character boundaries or an index out of range.
\<close>

section \<open>Constants and slices\<close>

definition REDACTED :: string where
  "REDACTED = ''[redacted]''"

definition MIN_SECRET_CHARS :: nat where
  "MIN_SECRET_CHARS = 6"

definition MAX_SECRET_BYTES :: nat where
  "MAX_SECRET_BYTES = 4096"

definition ESCAPE_GROWTH :: nat where
  "ESCAPE_GROWTH = 6"

text \<open>`str::is_char_boundary` and the slices `text[a..b]`.\<close>

definition char_boundary :: "string \<Rightarrow> nat \<Rightarrow> bool" where
  "char_boundary t i \<longleftrightarrow> i = 0 \<or> i = length t \<or> i < length t \<and> \<not> utf8_cont (t ! i)"

definition str_slice :: "string \<Rightarrow> nat \<Rightarrow> nat \<Rightarrow> string option" where
  "str_slice t a b =
     (if a \<le> b \<and> b \<le> length t \<and> char_boundary t a \<and> char_boundary t b
      then Some (take (b - a) (drop a t)) else None)"

text \<open>`char::encode_utf8`.\<close>

definition utf8_encode :: "nat \<Rightarrow> string" where
  "utf8_encode c = map char_of
     (if c < 0x80 then [c]
      else if c < 0x800 then [0xC0 + c div 64, 0x80 + c mod 64]
      else if c < 0x10000 then [0xE0 + c div 4096, 0x80 + c div 64 mod 64, 0x80 + c mod 64]
      else [0xF0 + c div 262144, 0x80 + c div 4096 mod 64, 0x80 + c div 64 mod 64, 0x80 + c mod 64])"

section \<open>JSON escapes\<close>

definition is_hex :: "char \<Rightarrow> bool" where
  "is_hex c \<longleftrightarrow> c \<in> set ''0123456789abcdefABCDEF''"

definition hex_value :: "char \<Rightarrow> nat" where
  "hex_value c = (if is_digit c then of_char c - 48
     else if (97 :: nat) \<le> of_char c then of_char c - 87 else of_char c - 55)"

definition hex4 :: "string \<Rightarrow> nat option" where
  "hex4 ds = (if list_all is_hex ds then Some (foldl (\<lambda>n c. n * 16 + hex_value c) 0 ds) else None)"

text \<open>`bytes.get(a..b)`.\<close>

definition get_range :: "string \<Rightarrow> nat \<Rightarrow> nat \<Rightarrow> string option" where
  "get_range s a b = (if a \<le> b \<and> b \<le> length s then Some (take (b - a) (drop a s)) else None)"

definition unicode :: "string \<Rightarrow> (nat \<times> nat) option" where
  "unicode bytes =
     Option.bind (Option.bind (get_range bytes 2 6) hex4) (\<lambda>unit.
       if 0xD800 \<le> unit \<and> unit \<le> 0xDBFF then
         Option.bind (get_range bytes 6 8) (\<lambda>lead.
           if lead \<noteq> [CHR 0x5C, CHR ''u''] then None
           else Option.bind (Option.bind (get_range bytes 8 12) hex4) (\<lambda>low.
             if \<not> (0xDC00 \<le> low \<and> low \<le> 0xDFFF) then None
             else Some (0x10000 + (unit - 0xD800) * 1024 + (low - 0xDC00), 12)))
       else if 0xDC00 \<le> unit \<and> unit \<le> 0xDFFF then None
       else Some (unit, 6))"

text \<open>The character an escape at the start of `bytes` stands for, and its length.\<close>

fun unescape :: "string \<Rightarrow> (nat \<times> nat) option" where
  "unescape (b # e # rest) =
     (if b \<noteq> CHR 0x5C then None
      else if e = CHR 0x22 then Some (0x22, 2)
      else if e = CHR 0x5C then Some (0x5C, 2)
      else if e = CHR ''/'' then Some (0x2F, 2)
      else if e = CHR ''b'' then Some (0x08, 2)
      else if e = CHR ''f'' then Some (0x0C, 2)
      else if e = CHR ''n'' then Some (0x0A, 2)
      else if e = CHR ''r'' then Some (0x0D, 2)
      else if e = CHR ''t'' then Some (0x09, 2)
      else if e = CHR ''u'' then unicode (b # e # rest)
      else None)"
| "unescape _ = None"

record decoded =
  dc_text :: string
  dc_origin :: "nat list"

text \<open>The first character of non-empty text, and the decoding loop from byte `at` on.\<close>

definition first_char :: "string \<Rightarrow> string" where
  "first_char s = (case s of [] \<Rightarrow> [] | c # cs \<Rightarrow> c # takeWhile utf8_cont cs)"

definition decode_step :: "nat \<Rightarrow> string \<Rightarrow> string \<times> nat list \<times> nat" where
  "decode_step pos rest = (case unescape rest of
       Some (c, used) \<Rightarrow> (utf8_encode c, replicate (length (utf8_encode c)) pos, used)
     | None \<Rightarrow> (first_char rest, map ((+) pos) [0..<length (first_char rest)], length (first_char rest)))"

lemma unescape_used: "unescape s = Some (c, used) \<Longrightarrow> 2 \<le> used \<and> used \<le> length s"
  by (cases s rule: unescape.cases)
    (auto simp: unicode_def get_range_def bind_eq_Some_conv split: if_splits)

lemma decode_step_used: "rest \<noteq> [] \<Longrightarrow> 0 < snd (snd (decode_step pos rest))"
  using unescape_used [of rest] by (cases rest) (fastforce simp: decode_step_def first_char_def split: option.split)+

function decode_from :: "nat \<Rightarrow> string \<Rightarrow> string \<times> nat list" where
  "decode_from pos rest =
     (if rest = [] then ([], [pos])
      else case decode_step pos rest of
        (piece, from, used) \<Rightarrow>
          (case decode_from (pos + used) (drop used rest) of
             (text, origin) \<Rightarrow> (piece @ text, from @ origin)))"
  by pat_completeness auto

termination decode_from
proof (relation "measure (length \<circ> snd)", goal_cases)
  case (2 pos rest x y z used)
  then have "used = snd (snd (decode_step pos rest))" by (metis snd_conv)
  then show ?case using 2 decode_step_used [of rest pos] by (cases rest) auto
qed simp

declare decode_from.simps [simp del]

definition decoded_plain :: "string \<Rightarrow> decoded option" where
  "decoded_plain text =
     (if 2 ^ 32 \<le> length text + 1 \<or> CHR 0x5C \<notin> set text then None
      else case decode_from 0 text of (t, origin) \<Rightarrow> Some \<lparr>dc_text = t, dc_origin = origin\<rparr>)"

definition decoded_new :: "string \<Rightarrow> bool \<Rightarrow> decoded option" where
  "decoded_new text leading_backslash =
     (if 2 ^ 32 \<le> length text + 1 then None
      else if leading_backslash
      then map_option (\<lambda>view. view\<lparr>dc_origin := map (\<lambda>i. i - 1) (dc_origin view)\<rparr>)
             (decoded_plain (CHR 0x5C # text))
      else decoded_plain text)"

type_synonym span = "nat \<times> nat"

definition original :: "decoded \<Rightarrow> span \<Rightarrow> span option" where
  "original view = (\<lambda>(s, e).
     if s < length (dc_origin view) \<and> e < length (dc_origin view)
     then Some (dc_origin view ! s, dc_origin view ! e) else None)"

section \<open>Spans\<close>

record spans =
  ss_text :: string
  ss_reach :: nat
  ss_out :: string
  ss_copied :: nat
  ss_pending :: "span list"

definition spans_new :: "string \<Rightarrow> nat \<Rightarrow> nat \<Rightarrow> spans" where
  "spans_new text start reach = \<lparr>ss_text = text, ss_reach = reach, ss_out = [], ss_copied = start,
     ss_pending = []\<rparr>"

definition spans_emit :: "span \<Rightarrow> spans \<Rightarrow> spans option" where
  "spans_emit sp ss = (case sp of (s, e) \<Rightarrow>
     if ss_copied ss < e
     then map_option (\<lambda>t. ss\<lparr>ss_out := ss_out ss @ t @ REDACTED, ss_copied := e\<rparr>)
            (str_slice (ss_text ss) (ss_copied ss) (max s (ss_copied ss)))
     else Some ss)"

fun emit_all :: "span list \<Rightarrow> spans \<Rightarrow> spans option" where
  "emit_all [] ss = Some ss"
| "emit_all (sp # sps) ss = Option.bind (spans_emit sp ss) (emit_all sps)"

text \<open>The spans at the end of the stack that a match touches are merged with it.\<close>

fun absorb :: "nat \<Rightarrow> span list \<Rightarrow> nat \<times> span list" where
  "absorb s [] = (s, [])"
| "absorb s ((a, l) # stack) = (if s \<le> l then absorb (min s a) stack else (s, (a, l) # stack))"

definition spans_push :: "span \<Rightarrow> spans \<Rightarrow> spans option" where
  "spans_push sp ss =
     (let (s, stack) = absorb (fst sp) (rev (ss_pending ss));
          pending = rev stack @ [(s, snd sp)];
          settled = (\<lambda>(_, l). l < snd sp - ss_reach ss)
      in emit_all (takeWhile settled pending) (ss\<lparr>ss_pending := dropWhile settled pending\<rparr>))"

fun push_all_spans :: "span list \<Rightarrow> spans \<Rightarrow> spans option" where
  "push_all_spans [] ss = Some ss"
| "push_all_spans (sp # sps) ss = Option.bind (spans_push sp ss) (push_all_spans sps)"

definition spans_finish :: "spans \<Rightarrow> string option" where
  "spans_finish ss =
     Option.bind (emit_all (ss_pending ss) (ss\<lparr>ss_pending := []\<rparr>)) (\<lambda>ss'.
       map_option (\<lambda>t. ss_out ss' @ t) (str_slice (ss_text ss') (ss_copied ss') (length (ss_text ss'))))"

text \<open>The streams of matches are merged by their ends, the earlier stream first.\<close>

fun pick_stream :: "nat \<Rightarrow> span list list \<Rightarrow> (nat \<times> nat) option" where
  "pick_stream i [] = None"
| "pick_stream i ([] # streams) = pick_stream (Suc i) streams"
| "pick_stream i ((sp # _) # streams) = (case pick_stream (Suc i) streams of
       Some (e, j) \<Rightarrow> if e < snd sp then Some (e, j) else Some (snd sp, i)
     | None \<Rightarrow> Some (snd sp, i))"

lemma pick_stream_SomeD:
  assumes "pick_stream i streams = Some (e, j)"
  shows "i \<le> j \<and> j - i < length streams \<and> streams ! (j - i) \<noteq> []
    \<and> snd (hd (streams ! (j - i))) = e \<and> (\<forall>s \<in> set streams. s \<noteq> [] \<longrightarrow> e \<le> snd (hd s))"
  using assms
proof (induction i streams arbitrary: e j rule: pick_stream.induct)
  case (2 i streams)
  from 2(1) [of e j] 2(2) have "Suc i \<le> j \<and> j - Suc i < length streams \<and> streams ! (j - Suc i) \<noteq> []
    \<and> snd (hd (streams ! (j - Suc i))) = e \<and> (\<forall>s \<in> set streams. s \<noteq> [] \<longrightarrow> e \<le> snd (hd s))" by simp
  moreover from this have "j - i = Suc (j - Suc i)" by (simp add: Suc_diff_Suc Suc_le_eq)
  ultimately show ?case by simp
next
  case (3 i sp s streams)
  show ?case
  proof (cases "pick_stream (Suc i) streams")
    case None
    have "\<forall>s \<in> set streams. s = []" using None
    proof (induction streams arbitrary: i)
      case (Cons t ts)
      then show ?case by (cases t) (auto split: option.splits if_splits)
    qed simp
    then show ?thesis using 3(2) None by auto
  next
    case (Some ej)
    obtain e' j' where ej: "ej = (e', j')" by (cases ej)
    from 3(1) [of e' j'] Some ej have r: "Suc i \<le> j' \<and> j' - Suc i < length streams
      \<and> streams ! (j' - Suc i) \<noteq> [] \<and> snd (hd (streams ! (j' - Suc i))) = e'
      \<and> (\<forall>s \<in> set streams. s \<noteq> [] \<longrightarrow> e' \<le> snd (hd s))" by simp
    then have "j' - i = Suc (j' - Suc i)" by (simp add: Suc_diff_Suc Suc_le_eq)
    then show ?thesis using 3(2) Some ej r by (auto split: if_splits)
  qed
qed simp

function merge_streams :: "span list list \<Rightarrow> span list" where
  "merge_streams streams = (case pick_stream 0 streams of
       None \<Rightarrow> []
     | Some (_, j) \<Rightarrow> hd (streams ! j) # merge_streams (streams[j := tl (streams ! j)]))"
  by pat_completeness auto

lemma sum_list_update_less:
  fixes f :: "'a \<Rightarrow> nat"
  assumes "j < length xs" "f y < f (xs ! j)"
  shows "sum_list (map f (xs[j := y])) < sum_list (map f xs)"
  using assms by (induction xs arbitrary: j) (auto split: nat.split simp: less_Suc_eq_0_disj)

termination merge_streams
proof (relation "measure (\<lambda>streams. sum_list (map length streams))", goal_cases)
  case (2 streams x e j)
  then have "pick_stream 0 streams = Some (e, j)" by simp
  from pick_stream_SomeD [OF this] show ?case
    by (auto intro!: sum_list_update_less)
qed simp

declare merge_streams.simps [simp del]

section \<open>Secrets\<close>

text \<open>The automaton and the two searches of the `aho_corasick` crate.\<close>

record 'a searcher =
  sr_build :: "string list \<Rightarrow> string + 'a"
  sr_find :: "'a \<Rightarrow> string \<Rightarrow> span list"
  sr_is_match :: "'a \<Rightarrow> string \<Rightarrow> bool"

record 'a patterns =
  pt_automaton :: "'a option"
  pt_longest :: nat
  pt_short :: "string list"

text \<open>The variables of a server in order, with their values; `OsStr::to_string_lossy`.\<close>

fun collect_values :: "(string \<times> string) list \<Rightarrow> string list \<Rightarrow> string list \<Rightarrow> string list
    \<Rightarrow> string + string list \<times> string list" where
  "collect_values env [] values short = Inr (values, short)"
| "collect_values env (variable # rest) values short = (case map_of env variable of
       None \<Rightarrow> collect_values env rest values short
     | Some raw \<Rightarrow>
         (let value = utf8_lossy raw in
          if MAX_SECRET_BYTES < length value
          then Inl (''the value of '' @ variable @ '' is longer than '' @ show_nat MAX_SECRET_BYTES
            @ '' bytes, too long to redact reliably'')
          else if length (utf8_chars value) < MIN_SECRET_CHARS
          then collect_values env rest values
                 (if value \<noteq> [] \<and> variable \<notin> set short then short @ [variable] else short)
          else collect_values env rest (values @ [value]) short))"

definition secret_variables :: "server_config \<Rightarrow> string list" where
  "secret_variables c = sv_env_vars c @ (case sv_bearer_token_env c of Some v \<Rightarrow> [v] | None \<Rightarrow> [])
     @ map snd (sv_env_headers c)"

definition resolve_secrets :: "'a searcher \<Rightarrow> server_config \<Rightarrow> (string \<times> string) list
    \<Rightarrow> string + 'a patterns" where
  "resolve_secrets sr c env = (case collect_values env (secret_variables c) [] [] of
       Inl e \<Rightarrow> Inl e
     | Inr (collected, short) \<Rightarrow>
         (let values = sorted_list_of_set (set collected);
              longest = fold (max \<circ> length) values 0
          in if values = [] then Inr \<lparr>pt_automaton = None, pt_longest = longest, pt_short = short\<rparr>
             else case sr_build sr values of
                    Inl e \<Rightarrow> Inl e
                  | Inr a \<Rightarrow> Inr \<lparr>pt_automaton = Some a, pt_longest = longest, pt_short = short\<rparr>))"

definition secret_warnings :: "'a patterns \<Rightarrow> string list" where
  "secret_warnings pt = map (\<lambda>variable. ''the value of '' @ variable @ '' has fewer than ''
     @ show_nat MIN_SECRET_CHARS @ '' characters, too few to redact; it can appear in tool output'')
     (pt_short pt)"

definition reach :: "'a patterns \<Rightarrow> nat" where
  "reach pt = pt_longest pt * ESCAPE_GROWTH"

text \<open>The next character boundary at or after a byte of the text.\<close>

function next_boundary :: "string \<Rightarrow> nat \<Rightarrow> nat" where
  "next_boundary text i = (if length text \<le> i \<or> char_boundary text i then i else next_boundary text (Suc i))"
  by pat_completeness auto
termination
  by (relation "measure (\<lambda>(text, i). length text - i)") auto

declare next_boundary.simps [simp del]

definition decoded_views :: "string \<Rightarrow> bool \<Rightarrow> decoded list" where
  "decoded_views text is_cut = List.map_filter id
     (decoded_new text False # (if is_cut then [decoded_new text True] else []))"

definition redact_spans :: "'a searcher \<Rightarrow> 'a patterns \<Rightarrow> string \<Rightarrow> nat \<Rightarrow> bool \<Rightarrow> string option" where
  "redact_spans sr pt text start is_cut =
     (let start = next_boundary text (min start (length text)) in
      case pt_automaton pt of
        None \<Rightarrow> str_slice text start (length text)
      | Some a \<Rightarrow>
          Option.bind (those (map (\<lambda>view. those (map (original view) (sr_find sr a (dc_text view))))
              (decoded_views text is_cut))) (\<lambda>decoded.
            Option.bind (push_all_spans (merge_streams (sr_find sr a text # decoded))
                (spans_new text start (reach pt))) spans_finish))"

definition secrets_redact :: "'a searcher \<Rightarrow> 'a patterns \<Rightarrow> string \<Rightarrow> string option" where
  "secrets_redact sr pt text = redact_spans sr pt text 0 False"

definition redact_from :: "'a searcher \<Rightarrow> 'a patterns \<Rightarrow> string \<Rightarrow> nat \<Rightarrow> string option" where
  "redact_from sr pt text start = redact_spans sr pt text start False"

definition redact_cut :: "'a searcher \<Rightarrow> 'a patterns \<Rightarrow> string \<Rightarrow> nat \<Rightarrow> string option" where
  "redact_cut sr pt text start = redact_spans sr pt text start True"

definition found_in :: "'a searcher \<Rightarrow> 'a patterns \<Rightarrow> string \<Rightarrow> bool" where
  "found_in sr pt text = (case pt_automaton pt of
       None \<Rightarrow> False
     | Some a \<Rightarrow> sr_is_match sr a text
         \<or> (case decoded_new text False of None \<Rightarrow> False | Some view \<Rightarrow> sr_is_match sr a (dc_text view)))"

text \<open>The decimal form of a number is that of `serde_json`, an argument.\<close>

fun redact_value :: "'a searcher \<Rightarrow> 'a patterns \<Rightarrow> (json_number \<Rightarrow> string) \<Rightarrow> json \<Rightarrow> json option"
  and redact_items :: "'a searcher \<Rightarrow> 'a patterns \<Rightarrow> (json_number \<Rightarrow> string) \<Rightarrow> json list \<Rightarrow> json list option"
  and redact_members :: "'a searcher \<Rightarrow> 'a patterns \<Rightarrow> (json_number \<Rightarrow> string) \<Rightarrow> (string \<times> json) list
    \<Rightarrow> (string \<times> json) list \<Rightarrow> (string \<times> json) list option" where
  "redact_value sr pt sn (JStr text) = map_option JStr (secrets_redact sr pt text)"
| "redact_value sr pt sn (JNum n) = Some (if MIN_SECRET_CHARS \<le> length (sn n) \<and> found_in sr pt (sn n)
     then JStr REDACTED else JNum n)"
| "redact_value sr pt sn (JArr items) = map_option JArr (redact_items sr pt sn items)"
| "redact_value sr pt sn (JObj members) = map_option JObj (redact_members sr pt sn members [])"
| "redact_value sr pt sn v = Some v"
| "redact_items sr pt sn [] = Some []"
| "redact_items sr pt sn (v # vs) =
     Option.bind (redact_value sr pt sn v) (\<lambda>v'. map_option ((#) v') (redact_items sr pt sn vs))"
| "redact_members sr pt sn [] acc = Some acc"
| "redact_members sr pt sn ((k, v) # ms) acc =
     Option.bind (redact_value sr pt sn v) (\<lambda>v'.
       Option.bind (secrets_redact sr pt k) (\<lambda>k'. redact_members sr pt sn ms (bt_insert k' v' acc)))"

definition redact_json :: "'a searcher \<Rightarrow> 'a patterns \<Rightarrow> (json_number \<Rightarrow> string) \<Rightarrow> json \<Rightarrow> json option" where
  "redact_json sr pt sn v = (if pt_automaton pt = None then Some v else redact_value sr pt sn v)"

end
