(* ===== verification/Utf8_Props.thy ===== *)
theory Utf8_Props
  imports Secrets
begin

text \<open>
  Facts on UTF-8 text that the string operations share: well-formed text falls into characters, and
  well-formed parts of it lie on character boundaries.
\<close>

section \<open>Characters\<close>

text \<open>The encoding of one character: a leading byte and its continuation bytes.\<close>

definition one_char :: "string \<Rightarrow> bool" where
  "one_char c \<longleftrightarrow> c \<noteq> [] \<and> \<not> utf8_cont (hd c) \<and> (\<forall>x \<in> set (tl c). utf8_cont x) \<and> utf8_valid c"

lemma cont_lead: "byte_in a lo hi \<Longrightarrow> hi < 0x80 \<or> 0xC0 \<le> lo \<Longrightarrow> \<not> utf8_cont a"
  by (auto simp: byte_in_def utf8_cont_def)

lemma cont_range: "byte_in b lo hi \<Longrightarrow> 0x80 \<le> lo \<Longrightarrow> hi \<le> 0xBF \<Longrightarrow> utf8_cont b"
  by (auto simp: byte_in_def utf8_cont_def)

lemma second_range: "byte_in b (if p then 0xA0 else 0x80) (if q then 0x9F else 0xBF) \<Longrightarrow> utf8_cont b"
    "byte_in b (if p then 0x90 else 0x80) (if q then 0x8F else 0xBF) \<Longrightarrow> utf8_cont b"
  by (auto simp: byte_in_def utf8_cont_def split: if_splits)

lemma utf8_uncons:
  assumes "utf8_valid s" "s \<noteq> []"
  obtains c r where "s = c @ r" "one_char c" "utf8_valid r" "\<forall>x. utf8_valid (c @ x) = utf8_valid x"
proof -
  obtain a t where s: "s = a # t" using assms(2) by (cases s) auto
  consider "byte_in a 0 0x7F" | "\<not> byte_in a 0 0x7F" "byte_in a 0xC2 0xDF"
    | "\<not> byte_in a 0 0x7F" "\<not> byte_in a 0xC2 0xDF" "byte_in a 0xE0 0xEF"
    | "\<not> byte_in a 0 0x7F" "\<not> byte_in a 0xC2 0xDF" "\<not> byte_in a 0xE0 0xEF" by blast
  then show ?thesis
  proof cases
    case 1
    then show ?thesis using that [of "[a]" t] assms s cont_lead [of a 0 "0x7F"]
      by (simp add: one_char_def)
  next
    case 2
    then obtain b u where t: "t = b # u" using assms s by (cases t) auto
    show ?thesis using that [of "[a, b]" u] assms s t 2 cont_lead [of a "0xC2" "0xDF"]
      by (simp add: one_char_def)
  next
    case 3
    then obtain b c u where t: "t = b # c # u" using assms s
      by (cases t; cases "tl t") auto
    show ?thesis using that [of "[a, b, c]" u] assms s t 3 cont_lead [of a "0xE0" "0xEF"] second_range(1)
      by (auto simp: one_char_def)
  next
    case 4
    then obtain b c d u where t: "t = b # c # d # u" using assms s
      by (cases t; cases "tl t"; cases "tl (tl t)") auto
    show ?thesis using that [of "[a, b, c, d]" u] assms s t 4 cont_lead [of a "0xF0" "0xF4"] second_range(2)
      by (auto simp: one_char_def)
  qed
qed

lemma utf8_head: "utf8_valid s \<Longrightarrow> s \<noteq> [] \<Longrightarrow> \<not> utf8_cont (hd s)"
  by (erule utf8_uncons) (auto simp: one_char_def)

lemma utf8_valid_append: "utf8_valid v \<Longrightarrow> utf8_valid (v @ r) = utf8_valid r"
proof (induction v rule: length_induct)
  case (1 v)
  show ?case
  proof (cases "v = []")
    case False
    from utf8_uncons [OF 1(2) False] obtain c w where "v = c @ w" "one_char c" "utf8_valid w"
      "\<forall>x. utf8_valid (c @ x) = utf8_valid x" .
    then show ?thesis using 1(1) by (auto simp: one_char_def)
  qed simp
qed

text \<open>Text behind a boundary is well formed, and well-formed text begins at one.\<close>

lemma boundary_valid:
  assumes "utf8_valid t" "char_boundary t i" "i \<le> length t"
  shows "utf8_valid (drop i t)"
  using assms
proof (induction t arbitrary: i rule: length_induct)
  case (1 t)
  show ?case
  proof (cases "i = 0 \<or> t = []")
    case False
    from 1(2) False obtain c r where c: "t = c @ r" "one_char c" "utf8_valid r" by (metis utf8_uncons)
    have "\<not> i < length c"
    proof
      assume i: "i < length c"
      then have "t ! i \<in> set (tl c)" using False c(1) by (cases c; cases i) (auto simp: nth_append)
      then show False using 1(3) i c False by (auto simp: char_boundary_def one_char_def)
    qed
    then have "char_boundary r (i - length c)" "i - length c \<le> length r"
      using 1(3,4) c(1) by (auto simp: char_boundary_def nth_append)
    then show ?thesis using 1(1) c \<open>\<not> i < length c\<close> by (auto simp: one_char_def)
  qed (use 1(2) in auto)
qed

lemma valid_boundary:
  assumes "utf8_valid (drop i t)" "i \<le> length t"
  shows "char_boundary t i"
  using assms utf8_head [of "drop i t"] by (cases "i = length t") (auto simp: char_boundary_def hd_drop_conv_nth)

text \<open>Well-formed text within well-formed text.\<close>

lemma part_boundaries:
  assumes "utf8_valid t" "t = a @ v @ b" "utf8_valid v" "v \<noteq> []"
  shows "char_boundary t (length a)" "char_boundary t (length a + length v)" "utf8_valid (v @ b)" "utf8_valid b"
proof -
  have "\<not> utf8_cont (t ! length a)" using utf8_head [OF assms(3,4)] assms(2,4) by (cases v) (auto simp: nth_append)
  then show start: "char_boundary t (length a)" using assms(2,4) by (auto simp: char_boundary_def)
  from boundary_valid [OF assms(1) this] show vb: "utf8_valid (v @ b)" using assms(2) by simp
  then show b: "utf8_valid b" using utf8_valid_append [OF assms(3)] by simp
  show "char_boundary t (length a + length v)" by (rule valid_boundary) (use b assms(2) in auto)
qed

lemma one_char_first: "one_char c \<Longrightarrow> utf8_valid r \<Longrightarrow> first_char (c @ r) = c"
proof -
  assume c: "one_char c" and r: "utf8_valid r"
  obtain a t where ct: "c = a # t" "\<forall>x \<in> set t. utf8_cont x" using c by (cases c) (auto simp: one_char_def)
  have "takeWhile utf8_cont (t @ r) = t"
    using ct(2) utf8_head [OF r] by (cases r) (simp_all add: takeWhile_append2 takeWhile_tail)
  then show ?thesis using ct(1) by (simp add: first_char_def)
qed

lemma ascii_valid: "byte_in a 0 0x7F \<Longrightarrow> utf8_valid (a # s) = utf8_valid s"
  by simp

lemma ascii_append: "\<forall>x \<in> set a. byte_in x 0 0x7F \<Longrightarrow> utf8_valid (a @ b) = utf8_valid b"
  by (induction a) simp_all

section \<open>Encoding\<close>

definition scalar :: "nat \<Rightarrow> bool" where
  "scalar c \<longleftrightarrow> c < 0xD800 \<or> 0xE000 \<le> c \<and> c < 0x110000"

lemma of_char_of: "n < 256 \<Longrightarrow> (of_char (char_of n) :: nat) = n"
  by simp

lemma digits: "(c :: nat) div (b * a) * a + c div b mod a = c div b"
  by (simp add: div_mult2_eq)

lemma encode_one_char:
  assumes "scalar c"
  shows "one_char (utf8_encode c)"
proof -
  consider "c < 0x80" | "0x80 \<le> c" "c < 0x800" | "0x800 \<le> c" "c < 0x10000" | "0x10000 \<le> c" "c < 0x110000"
    using assms by (force simp: scalar_def)
  then show ?thesis
  proof cases
    case 1
    then show ?thesis by (simp add: utf8_encode_def one_char_def byte_in_def utf8_cont_def)
  next
    case 2
    then have "2 \<le> c div 64" "c div 64 < 32" by (simp_all add: less_mult_imp_div_less div_less_iff_less_mult) 
    then show ?thesis using 2 by (simp add: utf8_encode_def one_char_def byte_in_def utf8_cont_def)
  next
    case 3
    define x y z where "x = c div 4096" "y = c div 64 mod 64" "z = c mod 64"
    note d = this
    have "x * 64 + y = c div 64" "c div 64 * 64 + z = c" using digits [of c 64 64] by (simp_all add: d)
    then have c: "c = x * 4096 + y * 64 + z" by linarith
    have yz: "y < 64" "z < 64" by (simp_all add: d)
    have "x < 16" "x = 0 \<Longrightarrow> 32 \<le> y" "x = 13 \<Longrightarrow> y \<le> 31"
      using 3 assms yz c by (auto simp: scalar_def)
    then show ?thesis using 3 yz by (simp add: utf8_encode_def one_char_def byte_in_def utf8_cont_def flip: d)
  next
    case 4
    define x y z w where "x = c div 262144" "y = c div 4096 mod 64" "z = c div 64 mod 64" "w = c mod 64"
    note d = this
    have "x * 64 + y = c div 4096" "c div 4096 * 64 + z = c div 64" "c div 64 * 64 + w = c"
      using digits [of c 4096 64] digits [of c 64 64] by (simp_all add: d)
    then have c: "c = x * 262144 + y * 4096 + z * 64 + w" by linarith
    have yz: "y < 64" "z < 64" "w < 64" by (simp_all add: d)
    have "x \<le> 4" "x = 0 \<Longrightarrow> 16 \<le> y" "x = 4 \<Longrightarrow> y \<le> 15"
      using 4 yz c by auto
    then show ?thesis using 4 yz by (simp add: utf8_encode_def one_char_def byte_in_def utf8_cont_def flip: d)
  qed
qed

lemma utf8_unit_valid:
  assumes "utf8_unit s = (True, n)"
  shows "utf8_valid (take n s)"
proof (cases s)
  case (Cons a r)
  then show ?thesis
    using assms by (cases r; cases "tl r"; cases "tl (tl r)")
      (auto simp: utf8_unit_def Let_def byte_in_def split: if_splits)
qed (use assms in \<open>simp add: utf8_unit_def\<close>)

end
