(* ===== verification/Secrets_Props.thy ===== *)
theory Secrets_Props
  imports Utf8_Props
begin

text \<open>
  What redaction does: the streaming merge of the match spans gives exactly the text with every
  maximal run of matched bytes replaced once, and values are found in every spelling their JSON
  escapes allow.
\<close>

section \<open>Reference redaction\<close>

text \<open>The positions that spans cover.\<close>

definition cover :: "span set \<Rightarrow> nat set" where
  "cover S = (\<Union>(s, e) \<in> S. {s..<e})"

definition redact_ref :: "string \<Rightarrow> nat \<Rightarrow> nat set \<Rightarrow> string" where
  "redact_ref text start H = concat (map (\<lambda>i.
     if i \<in> H then (if i = start \<or> i - 1 \<notin> H then REDACTED else []) else [text ! i])
     [start..<length text])"

lemma cover_simps [simp]:
  "cover {} = {}" "cover (insert (s, e) S) = {s..<e} \<union> cover S" "cover (A \<union> B) = cover A \<union> cover B"
  by (auto simp: cover_def)

lemma redact_ref_cong:
  assumes "\<And>i. start \<le> i \<Longrightarrow> i < length text \<Longrightarrow> i \<in> H \<longleftrightarrow> i \<in> H'"
  shows "redact_ref text start H = redact_ref text start H'"
  unfolding redact_ref_def
proof (intro arg_cong [where f = concat] map_cong refl)
  fix i assume i: "i \<in> set [start..<length text]"
  then have "i \<noteq> start \<Longrightarrow> (i - 1 \<in> H) = (i - 1 \<in> H')" using assms [of "i - 1"] by auto
  moreover have "(i \<in> H) = (i \<in> H')" using assms [of i] i by simp
  ultimately show "(if i \<in> H then (if i = start \<or> i - 1 \<notin> H then REDACTED else []) else [text ! i])
      = (if i \<in> H' then (if i = start \<or> i - 1 \<notin> H' then REDACTED else []) else [text ! i])"
    by auto
qed

lemma redact_ref_none: "H \<inter> {start..} = {} \<Longrightarrow> redact_ref text start H = drop start text"
proof -
  assume "H \<inter> {start..} = {}"
  then have "redact_ref text start H = concat (map (\<lambda>i. [text ! i]) [start..<length text])"
    unfolding redact_ref_def by (intro arg_cong [where f = concat] map_cong refl) auto
  also have "\<dots> = map ((!) text) [start..<length text]" by (simp add: concat_map_singleton)
  also have "\<dots> = drop start text" by (rule nth_equalityI) simp_all
  finally show ?thesis .
qed

section \<open>Merging\<close>

text \<open>Spans in order that do not touch.\<close>

definition chained :: "span list \<Rightarrow> bool" where
  "chained sps \<longleftrightarrow> sorted_wrt (\<lambda>x y. snd x < fst y) sps \<and> (\<forall>(s, e) \<in> set sps. s < e)"

definition merge_span :: "span \<Rightarrow> span list \<Rightarrow> span list" where
  "merge_span sp pending = (case absorb (fst sp) (rev pending) of
     (s, stack) \<Rightarrow> rev stack @ [(s, snd sp)])"

lemma absorb_parts:
  assumes "absorb s stack = (s', stack')"
  shows "\<exists>touched. stack = touched @ stack' \<and> s' \<le> s \<and> (s' = s \<or> s' \<in> fst ` set touched)
    \<and> (stack' \<noteq> [] \<longrightarrow> snd (hd stack') < s')"
  using assms
proof (induction s stack rule: absorb.induct)
  case (2 s a l stack)
  show ?case
  proof (cases "s \<le> l")
    case True
    then obtain touched where "stack = touched @ stack'" "s' \<le> min s a"
      "s' = min s a \<or> s' \<in> fst ` set touched" "stack' \<noteq> [] \<longrightarrow> snd (hd stack') < s'"
      using 2 by auto
    then show ?thesis by (intro exI [of _ "(a, l) # touched"]) (auto simp: min_def split: if_splits)
  next
    case False
    then show ?thesis using 2(2) by (intro exI [of _ "[]"]) auto
  qed
qed simp

lemma absorb_cover:
  assumes "absorb s stack = (s', stack')" "s < e" "\<forall>(a, l) \<in> set stack. a < l \<and> l \<le> e"
  shows "{s'..<e} \<union> cover (set stack') = {s..<e} \<union> cover (set stack)"
  using assms
proof (induction s stack rule: absorb.induct)
  case (2 s a l stack)
  show ?case
  proof (cases "s \<le> l")
    case True
    then have "{s'..<e} \<union> cover (set stack') = {min s a..<e} \<union> cover (set stack)" using 2 by auto
    moreover have "{min s a..<e} = {s..<e} \<union> {a..<l}" using True 2(4) by auto
    ultimately show ?thesis by auto
  next
    case False
    then show ?thesis using 2(2) by auto
  qed
qed simp

lemma chained_append: "chained (xs @ ys) \<longleftrightarrow> chained xs \<and> chained ys
    \<and> (\<forall>x \<in> set xs. \<forall>y \<in> set ys. snd x < fst y)"
  by (auto simp: chained_def sorted_wrt_append)

lemma merge_span_chained:
  assumes "chained pending" "fst sp < snd sp" "\<forall>x \<in> set pending. snd x \<le> snd sp"
  shows "chained (merge_span sp pending)" "cover (set (merge_span sp pending)) = {fst sp..<snd sp} \<union> cover (set pending)"
    "\<forall>x \<in> set (merge_span sp pending). snd x \<le> snd sp"
    "\<forall>x \<in> set (merge_span sp pending). fst x \<in> fst ` insert sp (set pending)
      \<and> snd x \<in> snd ` insert sp (set pending)"
proof -
  obtain s stack where a: "absorb (fst sp) (rev pending) = (s, stack)" by fastforce
  obtain touched where t: "rev pending = touched @ stack" "s \<le> fst sp" "s = fst sp \<or> s \<in> fst ` set touched"
    "stack \<noteq> [] \<longrightarrow> snd (hd stack) < s"
    using absorb_parts [OF a] by blast
  have p: "pending = rev stack @ rev touched" using arg_cong [OF t(1), of rev] by simp
  have m: "merge_span sp pending = rev stack @ [(s, snd sp)]" by (simp add: merge_span_def a)
  have ch: "chained (rev stack)" using assms(1) by (simp add: p chained_append)
  have below: "snd x < s" if "x \<in> set stack" for x
  proof (cases stack)
    case (Cons y ys)
    then have top: "snd y < s" using t(4) by simp
    have "snd x < fst y \<and> fst y < snd y" if "x \<in> set ys"
      using ch that Cons by (auto simp: chained_def sorted_wrt_append)
    then show ?thesis using top that Cons by fastforce
  qed (use that in simp)
  then show "chained (merge_span sp pending)"
    using ch t(2) assms(2) by (auto simp: m chained_append chained_def sorted_wrt_append)
  have "\<forall>(a, l) \<in> set (rev pending). a < l \<and> l \<le> snd sp"
    using assms(1,3) by (auto simp: chained_def)
  from absorb_cover [OF a assms(2) this]
  show "cover (set (merge_span sp pending)) = {fst sp..<snd sp} \<union> cover (set pending)"
    by (auto simp: m)
  show "\<forall>x \<in> set (merge_span sp pending). snd x \<le> snd sp"
    using assms(3) unfolding m by (auto simp: p)
  show "\<forall>x \<in> set (merge_span sp pending). fst x \<in> fst ` insert sp (set pending)
      \<and> snd x \<in> snd ` insert sp (set pending)"
    using t(3) unfolding m by (auto simp: p)
qed
text \<open>Spans that end before a match starts are never merged with it, so they can be emitted early.\<close>

lemma absorb_append:
  assumes "\<forall>x \<in> set done. snd x < s" "\<forall>x \<in> set done. \<forall>y \<in> set stack. snd x < fst y"
  shows "absorb s (stack @ done) = (case absorb s stack of (s', stack') \<Rightarrow> (s', stack' @ done))"
  using assms
proof (induction s stack rule: absorb.induct)
  case (1 s)
  then show ?case by (cases "done") auto
qed auto

lemma merge_span_append:
  assumes "\<forall>x \<in> set emitted. snd x < fst sp" "chained (emitted @ pending)"
  shows "merge_span sp (emitted @ pending) = emitted @ merge_span sp pending"
  using assms by (auto simp: merge_span_def absorb_append chained_append split: prod.split)

lemma fold_merge_append:
  assumes "\<forall>sp \<in> set sps. fst sp < snd sp \<and> (\<forall>x \<in> set emitted. snd x < fst sp)"
    "sorted (map snd sps)" "chained (emitted @ pending)" "\<forall>sp \<in> set sps. \<forall>x \<in> set pending. snd x \<le> snd sp"
  shows "fold merge_span sps (emitted @ pending) = emitted @ fold merge_span sps pending"
  using assms
proof (induction sps arbitrary: pending)
  case (Cons sp sps)
  have ch: "chained pending" "\<forall>x \<in> set emitted. \<forall>y \<in> set pending. snd x < fst y" "chained emitted"
    using Cons.prems(3) by (simp_all add: chained_append)
  note m = merge_span_chained [OF ch(1), of sp]
  have "chained (emitted @ merge_span sp pending)"
    using Cons.prems(1,4) ch m by (fastforce simp: chained_append)
  moreover have "\<forall>s \<in> set sps. \<forall>x \<in> set (merge_span sp pending). snd x \<le> snd s"
    using m(3) Cons.prems by (fastforce intro: order_trans)
  ultimately show ?case
    using Cons by (simp add: merge_span_append)
qed simp

lemma fold_merge_chained:
  assumes "\<forall>sp \<in> set sps. fst sp < snd sp" "sorted (map snd sps)" "chained pending"
    "\<forall>sp \<in> set sps. \<forall>x \<in> set pending. snd x \<le> snd sp"
  shows "chained (fold merge_span sps pending)
    \<and> cover (set (fold merge_span sps pending)) = cover (set sps) \<union> cover (set pending)
    \<and> (\<forall>x \<in> set (fold merge_span sps pending). fst x \<in> fst ` (set sps \<union> set pending)
         \<and> snd x \<in> snd ` (set sps \<union> set pending))"
  using assms
proof (induction sps arbitrary: pending)
  case (Cons sp sps)
  note m = merge_span_chained [OF Cons.prems(3), of sp]
  have ends: "\<forall>x \<in> set (merge_span sp pending). fst x \<in> fst ` insert sp (set pending)
      \<and> snd x \<in> snd ` insert sp (set pending)"
    by (rule m(4)) (use Cons.prems in auto)
  have "\<forall>s \<in> set sps. \<forall>x \<in> set (merge_span sp pending). snd x \<le> snd s"
    using m(3) Cons.prems by (fastforce intro: order_trans)
  then have IH: "chained (fold merge_span sps (merge_span sp pending))
    \<and> cover (set (fold merge_span sps (merge_span sp pending)))
        = cover (set sps) \<union> cover (set (merge_span sp pending))
    \<and> (\<forall>x \<in> set (fold merge_span sps (merge_span sp pending)).
         fst x \<in> fst ` (set sps \<union> set (merge_span sp pending))
         \<and> snd x \<in> snd ` (set sps \<union> set (merge_span sp pending)))"
    using Cons.IH [of "merge_span sp pending"] m(1) Cons.prems by simp
  let ?M = "merge_span sp pending" and ?R = "fold merge_span sps (merge_span sp pending)"
  have M: "cover (set ?M) = {fst sp..<snd sp} \<union> cover (set pending)" by (rule m(2)) (use Cons.prems in auto)
  have "fst ` set ?M \<subseteq> fst ` (set (sp # sps) \<union> set pending)" "snd ` set ?M \<subseteq> snd ` (set (sp # sps) \<union> set pending)"
    using ends by auto
  then have "\<forall>x \<in> set ?R. fst x \<in> fst ` (set (sp # sps) \<union> set pending) \<and> snd x \<in> snd ` (set (sp # sps) \<union> set pending)"
    using IH by (simp add: image_Un) blast
  moreover have "cover (set (sp # sps)) = {fst sp..<snd sp} \<union> cover (set sps)"
    by (cases sp) simp
  ultimately show ?case using IH M by (simp add: Un_ac)
qed simp

section \<open>Streaming\<close>

lemma emit_all_append: "emit_all (xs @ ys) ss = Option.bind (emit_all xs ss) (emit_all ys)"
proof (induction xs arbitrary: ss)
  case (Cons x xs)
  then show ?case by (cases "spans_emit x ss") simp_all
qed simp

lemma spans_emit_pending:
  "spans_emit sp (ss\<lparr>ss_pending := q\<rparr>) = map_option (\<lambda>ss'. ss'\<lparr>ss_pending := q\<rparr>) (spans_emit sp ss)"
  by (auto simp: spans_emit_def option.map_comp comp_def intro!: option.map_cong split: prod.split)

lemma emit_all_pending:
  "emit_all sps (ss\<lparr>ss_pending := q\<rparr>) = map_option (\<lambda>ss'. ss'\<lparr>ss_pending := q\<rparr>) (emit_all sps ss)"
proof (induction sps arbitrary: ss)
  case (Cons sp sps)
  then show ?case by (cases "spans_emit sp ss") (simp_all add: spans_emit_pending)
qed simp

lemma spans_emit_keeps: "spans_emit sp ss = Some ss' \<Longrightarrow> ss_text ss' = ss_text ss \<and> ss_reach ss' = ss_reach ss"
  by (auto simp: spans_emit_def split: prod.splits if_splits)

lemma emit_all_keeps: "emit_all sps ss = Some ss' \<Longrightarrow> ss_text ss' = ss_text ss \<and> ss_reach ss' = ss_reach ss"
proof (induction sps arbitrary: ss)
  case (Cons sp sps)
  then show ?case using spans_emit_keeps by (fastforce simp: bind_eq_Some_conv)
qed simp

text \<open>The text behind what was copied.\<close>

definition spans_tail :: "spans \<Rightarrow> string option" where
  "spans_tail ss = map_option (\<lambda>t. ss_out ss @ t) (str_slice (ss_text ss) (ss_copied ss) (length (ss_text ss)))"

lemma spans_tail_pending [simp]: "spans_tail (ss\<lparr>ss_pending := q\<rparr>) = spans_tail ss"
  by (simp add: spans_tail_def)

lemma spans_finish_emit: "spans_finish (ss\<lparr>ss_pending := q\<rparr>) = Option.bind (emit_all q ss) spans_tail"
proof -
  have "spans_finish (ss\<lparr>ss_pending := q\<rparr>) = Option.bind (emit_all q (ss\<lparr>ss_pending := []\<rparr>)) spans_tail"
    by (simp add: spans_finish_def spans_tail_def [abs_def])
  then show ?thesis by (cases "emit_all q ss") (simp_all add: emit_all_pending)
qed

text \<open>Emitting spans as soon as no later match can touch them is the same as emitting all at the end.\<close>

lemma push_all_emit:
  assumes "\<forall>sp \<in> set sps. fst sp < snd sp \<and> snd sp - ss_reach ss \<le> fst sp" "sorted (map snd sps)"
    "chained pending" "\<forall>sp \<in> set sps. \<forall>x \<in> set pending. snd x \<le> snd sp"
  shows "Option.bind (push_all_spans sps (ss\<lparr>ss_pending := pending\<rparr>)) spans_finish
    = Option.bind (emit_all (fold merge_span sps pending) ss) spans_tail"
  using assms
proof (induction sps arbitrary: ss pending)
  case Nil
  then show ?case by (simp add: spans_finish_emit)
next
  case (Cons sp sps)
  let ?M = "merge_span sp pending" and ?settled = "\<lambda>(_, l). l < snd sp - ss_reach ss"
  let ?D = "takeWhile ?settled ?M" and ?Q = "dropWhile ?settled ?M"
  have m: "chained ?M" "\<forall>x \<in> set ?M. snd x \<le> snd sp"
    using merge_span_chained(1,3) [OF Cons.prems(3), of sp] Cons.prems by simp_all
  have push: "spans_push sp (ss\<lparr>ss_pending := pending\<rparr>) = map_option (\<lambda>ss'. ss'\<lparr>ss_pending := ?Q\<rparr>) (emit_all ?D ss)"
    by (simp add: spans_push_def merge_span_def Let_def emit_all_pending case_prod_beta)
  have late: "\<forall>s \<in> set sps. fst s < snd s \<and> (\<forall>x \<in> set ?D. snd x < fst s)"
  proof (intro ballI conjI)
    fix s x assume s: "s \<in> set sps" and x: "x \<in> set ?D"
    have "snd x < snd sp - ss_reach ss" using set_takeWhileD [OF x] by (simp add: case_prod_beta)
    moreover have "snd sp \<le> snd s" "snd s - ss_reach ss \<le> fst s" using Cons.prems(1,2) s by auto
    ultimately show "snd x < fst s" by linarith
  qed (use Cons.prems(1) in auto)
  have ends: "\<forall>s \<in> set sps. \<forall>x \<in> set ?Q. snd x \<le> snd s"
    using m(2) Cons.prems(2) set_dropWhileD by (fastforce intro: order_trans)
  have split: "?D @ ?Q = ?M" by simp
  have fold: "fold merge_span sps ?M = ?D @ fold merge_span sps ?Q"
    using fold_merge_append [OF late, of ?Q] Cons.prems(2) m(1) ends by simp
  have chQ: "chained ?Q" using m(1) split by (metis chained_append)
  show ?case
  proof (cases "emit_all ?D ss")
    case None
    then show ?thesis by (simp add: push fold emit_all_append)
  next
    case (Some ss1)
    then have "ss_reach ss1 = ss_reach ss" using emit_all_keeps by blast
    then have "Option.bind (push_all_spans sps (ss1\<lparr>ss_pending := ?Q\<rparr>)) spans_finish
        = Option.bind (emit_all (fold merge_span sps ?Q) ss1) spans_tail"
      using Cons.IH [of ss1 ?Q] Cons.prems(1,2) chQ ends by simp
    then show ?thesis using Some by (simp add: push fold emit_all_append)
  qed
qed

section \<open>Emitting\<close>

lemma redact_ref_split:
  assumes "c \<le> m" "m \<le> l" "l \<le> length text" "m < l"
    and H: "\<And>i. c \<le> i \<Longrightarrow> i < l \<Longrightarrow> i \<in> H \<longleftrightarrow> m \<le> i" "l \<notin> H"
  shows "redact_ref text c H = take (m - c) (drop c text) @ REDACTED @ redact_ref text l H"
proof -
  let ?f = "\<lambda>c i. if i \<in> H then (if i = c \<or> i - 1 \<notin> H then REDACTED else []) else [text ! i]"
  have range: "[c..<length text] = [c..<m] @ m # [Suc m..<l] @ [l..<length text]"
  proof -
    have "[c..<length text] = [c..<m] @ [m..<length text]" "[m..<length text] = [m..<l] @ [l..<length text]"
      using assms(1-4) upt_add_eq_append [of c m "length text - m"] upt_add_eq_append [of m l "length text - l"]
      by auto
    then show ?thesis using assms(4) by (simp add: upt_conv_Cons)
  qed
  have "concat (map (?f c) [c..<m]) = concat (map (\<lambda>i. [text ! i]) [c..<m])"
    using H(1) assms(1,2) by (intro arg_cong [where f = concat] map_cong refl) auto
  also have "\<dots> = map ((!) text) [c..<m]" by (simp add: concat_map_singleton)
  also have "\<dots> = take (m - c) (drop c text)" using assms(1-3) by (intro nth_equalityI) auto
  finally have before: "concat (map (?f c) [c..<m]) = take (m - c) (drop c text)" .
  have first: "?f c m = REDACTED"
    using H(1) [of m] H(1) [of "m - 1"] assms by (cases "m = c") auto
  have inside: "concat (map (?f c) [Suc m..<l]) = []"
    using H(1) assms(1) by auto
  have after: "concat (map (?f c) [l..<length text]) = concat (map (?f l) [l..<length text])"
    using H(2) assms(1,4) by (intro arg_cong [where f = concat] map_cong refl) auto
  show ?thesis unfolding redact_ref_def range by (simp add: before first inside after)
qed

lemma emit_ref:
  assumes "chained sps" "ss_copied ss \<le> length (ss_text ss)" "char_boundary (ss_text ss) (ss_copied ss)"
    "\<forall>(s, e) \<in> set sps. e \<le> length (ss_text ss) \<and> char_boundary (ss_text ss) s \<and> char_boundary (ss_text ss) e"
  shows "Option.bind (emit_all sps ss) spans_tail
    = Some (ss_out ss @ redact_ref (ss_text ss) (ss_copied ss) (cover (set sps)))"
  using assms
proof (induction sps arbitrary: ss)
  case Nil
  then show ?case
    by (simp add: spans_tail_def str_slice_def redact_ref_none char_boundary_def)
next
  case (Cons sp sps)
  obtain s e where sp: "sp = (s, e)" by (cases sp)
  let ?t = "ss_text ss" and ?c = "ss_copied ss"
  have ch: "chained sps" "s < e" "\<forall>(a, l) \<in> set sps. e < a"
    using Cons.prems(1) by (auto simp: sp chained_def)
  have bd: "e \<le> length ?t" "char_boundary ?t s" "char_boundary ?t e"
    using Cons.prems(4) by (auto simp: sp)
  have rest: "i \<in> cover (set sps) \<Longrightarrow> e < i" for i
    using ch(3) by (fastforce simp: cover_def)
  have H: "cover (set (sp # sps)) = {s..<e} \<union> cover (set sps)" by (simp add: sp)
  show ?case
  proof (cases "?c < e")
    case False
    then have "redact_ref ?t ?c (cover (set (sp # sps))) = redact_ref ?t ?c (cover (set sps))"
      unfolding H by (intro redact_ref_cong) auto
    then show ?thesis using Cons.IH [of ss] Cons.prems ch(1) False by (simp add: spans_emit_def sp)
  next
    case True
    let ?m = "max s ?c"
    let ?ss = "ss\<lparr>ss_out := ss_out ss @ take (?m - ?c) (drop ?c ?t) @ REDACTED, ss_copied := e\<rparr>"
    have "char_boundary ?t ?m" using bd(2) Cons.prems(3) by (simp add: max_def)
    then have emit: "spans_emit sp ss = Some ?ss"
      using True bd(1) ch(2) Cons.prems(3) by (simp add: spans_emit_def sp str_slice_def)
    have "redact_ref ?t ?c ({s..<e} \<union> cover (set sps))
        = take (?m - ?c) (drop ?c ?t) @ REDACTED @ redact_ref ?t e ({s..<e} \<union> cover (set sps))"
      by (rule redact_ref_split) (use True bd(1) ch(2) rest in \<open>auto dest: rest\<close>)
    also have "redact_ref ?t e ({s..<e} \<union> cover (set sps)) = redact_ref ?t e (cover (set sps))"
      by (rule redact_ref_cong) auto
    finally have ref: "redact_ref ?t ?c ({s..<e} \<union> cover (set sps))
        = take (?m - ?c) (drop ?c ?t) @ REDACTED @ redact_ref ?t e (cover (set sps))" .
    have "Option.bind (emit_all (sp # sps) ss) spans_tail = Option.bind (emit_all sps ?ss) spans_tail"
      by (simp add: emit)
    also have "\<dots> = Some (ss_out ?ss @ redact_ref ?t e (cover (set sps)))"
      using Cons.IH [of ?ss] Cons.prems(4) ch(1) bd by simp
    finally show ?thesis unfolding H ref by simp
  qed
qed

text \<open>The whole stream.\<close>

lemma stream_redacts:
  assumes "\<forall>(s, e) \<in> set sps. s < e \<and> e - r \<le> s \<and> e \<le> length text
      \<and> char_boundary text s \<and> char_boundary text e"
    "sorted (map snd sps)" "start \<le> length text" "char_boundary text start"
  shows "Option.bind (push_all_spans sps (spans_new text start r)) spans_finish
    = Some (redact_ref text start (cover (set sps)))"
proof -
  let ?ss = "spans_new text start r" and ?M = "fold merge_span sps []"
  have eq: "?ss\<lparr>ss_pending := []\<rparr> = ?ss" by (simp add: spans_new_def)
  have sps: "\<forall>sp \<in> set sps. fst sp < snd sp \<and> snd sp - ss_reach ?ss \<le> fst sp"
    using assms(1) by (auto simp: spans_new_def)
  have "Option.bind (push_all_spans sps ?ss) spans_finish = Option.bind (emit_all ?M ?ss) spans_tail"
    using push_all_emit [OF sps assms(2), of "[]"] by (simp add: eq chained_def)
  moreover have M: "chained ?M \<and> cover (set ?M) = cover (set sps)
    \<and> (\<forall>x \<in> set ?M. fst x \<in> fst ` set sps \<and> snd x \<in> snd ` set sps)"
    using fold_merge_chained [of sps "[]"] sps assms(2) by (simp add: chained_def)
  have "\<forall>(s, e) \<in> set ?M. e \<le> length text \<and> char_boundary text s \<and> char_boundary text e"
  proof (clarify)
    fix s e assume "(s, e) \<in> set ?M"
    then obtain x y where "x \<in> set sps" "s = fst x" "y \<in> set sps" "e = snd y" using M by force
    then show "e \<le> length text \<and> char_boundary text s \<and> char_boundary text e"
      using assms(1) by (cases x; cases y) auto
  qed
  then have "Option.bind (emit_all ?M ?ss) spans_tail = Some (redact_ref text start (cover (set sps)))"
    using emit_ref [of ?M ?ss] M assms(3,4) by (simp add: spans_new_def)
  ultimately show ?thesis by simp
qed

section \<open>Escapes\<close>

lemma is_hex_facts: "is_hex c \<Longrightarrow> byte_in c 0 0x7F \<and> hex_value c < 16"
  by (auto simp: is_hex_def byte_in_def hex_value_def is_digit_def)

lemma hex4_facts:
  assumes "hex4 ds = Some n" "length ds = 4"
  shows "n < 65536" "\<forall>x \<in> set ds. byte_in x 0 0x7F"
proof -
  have h: "list_all is_hex ds" "n = foldl (\<lambda>n c. n * 16 + hex_value c) 0 ds"
    using assms(1) by (auto simp: hex4_def split: if_splits)
  obtain a b c d where ds: "ds = [a, b, c, d]"
    using assms(2) by (auto simp: eval_nat_numeral length_Suc_conv)
  show "n < 65536" using h is_hex_facts [of a] is_hex_facts [of b] is_hex_facts [of c] is_hex_facts [of d]
    by (simp add: ds)
  show "\<forall>x \<in> set ds. byte_in x 0 0x7F" using h(1) is_hex_facts by (auto simp: list_all_iff)
qed

lemma get_range_take:
  "get_range s a b = Some t \<Longrightarrow> take b s = take a s @ t \<and> length t = b - a \<and> b \<le> length s"
  using take_add [of a "b - a" s] by (auto simp: get_range_def split: if_splits)

lemma unicode_facts:
  assumes "unicode s = Some (c, used)" "take 2 s = [CHR 0x5C, CHR ''u'']"
  shows "scalar c \<and> (\<forall>x \<in> set (take used s). byte_in x 0 0x7F) \<and> used \<le> 6 * length (utf8_encode c)
    \<and> 0 < used \<and> used \<le> length s"
proof -
  obtain ds unit where d: "get_range s 2 6 = Some ds" "hex4 ds = Some unit"
    using assms(1) by (auto simp: unicode_def bind_eq_Some_conv)
  note r = get_range_take [OF d(1)] and h = hex4_facts [OF d(2)]
  have six: "\<forall>x \<in> set (take 6 s). byte_in x 0 0x7F"
    using r h assms(2) by (auto simp: byte_in_def)
  show ?thesis
  proof (cases "0xD800 \<le> unit \<and> unit \<le> 0xDBFF")
    case True
    then obtain ds' low where e: "get_range s 6 8 = Some [CHR 0x5C, CHR ''u'']" "get_range s 8 12 = Some ds'"
      "hex4 ds' = Some low" "0xDC00 \<le> low" "low \<le> 0xDFFF"
      "c = 0x10000 + (unit - 0xD800) * 1024 + (low - 0xDC00)" "used = 12"
      using assms(1) d by (auto simp: unicode_def bind_eq_Some_conv split: if_splits)
    have "\<forall>x \<in> set (take 12 s). byte_in x 0 0x7F"
      using get_range_take [OF e(1)] get_range_take [OF e(2)] hex4_facts [OF e(3)] six
      by (auto simp: byte_in_def)
    then show ?thesis using e True get_range_take [OF e(2)] by (auto simp: scalar_def utf8_encode_def)
  next
    case False
    then have "c = unit" "used = 6" "\<not> (0xDC00 \<le> unit \<and> unit \<le> 0xDFFF)"
      using assms(1) d by (auto simp: unicode_def bind_eq_Some_conv split: if_splits)
    then show ?thesis using False six r h by (auto simp: scalar_def utf8_encode_def)
  qed
qed

lemma unescape_facts:
  assumes "unescape s = Some (c, used)"
  shows "scalar c \<and> (\<forall>x \<in> set (take used s). byte_in x 0 0x7F) \<and> used \<le> 6 * length (utf8_encode c)
    \<and> 0 < used \<and> used \<le> length s"
proof -
  obtain b e rest where s: "s = b # e # rest" "b = CHR 0x5C"
    using assms by (cases s rule: unescape.cases) (auto split: if_splits)
  show ?thesis
  proof (cases "e = CHR ''u''")
    case True
    then show ?thesis using unicode_facts [of s c used] assms s by simp
  next
    case False
    then have "used = 2 \<and> c < 0x80 \<and> byte_in e 0 0x7F" using assms s by (auto simp: byte_in_def split: if_splits)
    then show ?thesis using s by (auto simp: scalar_def utf8_encode_def byte_in_def)
  qed
qed

lemma decode_step_facts:
  assumes "utf8_valid rest" "rest \<noteq> []" "decode_step pos rest = (piece, origins, used)"
  shows "one_char piece \<and> length origins = length piece \<and> origins ! 0 = pos \<and> 0 < used \<and> used \<le> length rest
    \<and> used \<le> 6 * length piece \<and> utf8_valid (drop used rest)"
proof (cases "unescape rest")
  case (Some cu)
  obtain c where cu: "cu = (c, used)" "piece = utf8_encode c" "origins = replicate (length piece) pos"
    using assms(3) Some by (cases cu) (auto simp: decode_step_def)
  note f = unescape_facts [OF Some [unfolded cu(1)]]
  have "utf8_valid (take used rest @ drop used rest) = utf8_valid (drop used rest)"
    using f by (intro ascii_append) blast
  then show ?thesis using f encode_one_char [of c] cu assms(1) by (auto simp: one_char_def)
next
  case None
  from utf8_uncons [OF assms(1,2)] obtain c r where c: "rest = c @ r" "one_char c" "utf8_valid r"
    "\<forall>x. utf8_valid (c @ x) = utf8_valid x" .
  have "piece = c" "used = length c" "origins = map ((+) pos) [0..<length c]"
    using assms(3) None one_char_first [OF c(2,3)] c(1) by (auto simp: decode_step_def)
  then show ?thesis using c by (auto simp: one_char_def)
qed

section \<open>Decoded views\<close>

text \<open>The boundaries of the decoded text come, in order, from boundaries of the text, at most six
  bytes of text for each decoded byte.\<close>

definition view_ok :: "string \<Rightarrow> nat \<Rightarrow> string \<Rightarrow> nat list \<Rightarrow> bool" where
  "view_ok text pos dtext origin \<longleftrightarrow> utf8_valid dtext \<and> length origin = Suc (length dtext) \<and> origin ! 0 = pos
     \<and> (\<forall>i. i \<le> length dtext \<and> char_boundary dtext i \<longrightarrow> pos \<le> origin ! i \<and> origin ! i \<le> pos + length text
          \<and> char_boundary text (origin ! i - pos))
     \<and> (\<forall>i j. i < j \<and> j \<le> length dtext \<and> char_boundary dtext i \<and> char_boundary dtext j \<longrightarrow>
          origin ! i < origin ! j \<and> origin ! j - origin ! i \<le> 6 * (j - i))"

lemma one_char_boundary:
  assumes "one_char c" "char_boundary (c @ t) i" "i \<le> length (c @ t)"
  shows "i = 0 \<or> length c \<le> i \<and> char_boundary t (i - length c)"
proof (rule ccontr)
  assume n: "\<not> ?thesis"
  have "i < length c"
  proof (rule ccontr)
    assume "\<not> i < length c"
    then have "char_boundary t (i - length c)" using assms(2,3) by (auto simp: char_boundary_def nth_append)
    then show False using n \<open>\<not> i < length c\<close> by simp
  qed
  then have "(c @ t) ! i \<in> set (tl c)" using n by (cases c; cases i) (auto simp: nth_append)
  then show False using assms(1,2) n \<open>i < length c\<close> by (auto simp: one_char_def char_boundary_def)
qed

lemma boundary_drop:
  assumes "utf8_valid (drop k t)" "k \<le> length t" "char_boundary (drop k t) i" "i \<le> length (drop k t)"
  shows "char_boundary t (k + i)"
  using valid_boundary [of "k + i" t] boundary_valid [OF assms(1,3,4)] assms(2,4) by (simp add: add.commute)

lemma view_ok_step:
  assumes c: "one_char piece" "length origins = length piece" "origins ! 0 = pos" "0 < used" "used \<le> length rest"
      "used \<le> 6 * length piece" "utf8_valid (drop used rest)"
    and v: "view_ok (drop used rest) (pos + used) dtext origin"
  shows "view_ok rest pos (piece @ dtext) (origins @ origin)"
proof -
  have len: "length origin = Suc (length dtext)" "origin ! 0 = pos + used" "utf8_valid dtext"
    and b: "\<And>i. i \<le> length dtext \<Longrightarrow> char_boundary dtext i \<Longrightarrow> pos + used \<le> origin ! i
      \<and> origin ! i \<le> pos + used + length (drop used rest) \<and> char_boundary (drop used rest) (origin ! i - (pos + used))"
    and m: "\<And>i j. i < j \<Longrightarrow> j \<le> length dtext \<Longrightarrow> char_boundary dtext i \<Longrightarrow> char_boundary dtext j \<Longrightarrow>
      origin ! i < origin ! j \<and> origin ! j - origin ! i \<le> 6 * (j - i)"
    using v by (auto simp: view_ok_def)
  have ne: "piece \<noteq> []" using c(1) by (simp add: one_char_def)
  have at0: "(origins @ origin) ! 0 = pos" using c(2,3) ne by (simp add: nth_append)
  have later: "(origins @ origin) ! i = origin ! (i - length piece)" if "length piece \<le> i" for i
    using that c(2) by (simp add: nth_append)
  have val: "utf8_valid (piece @ dtext)" using c(1) len(3) utf8_valid_append by (auto simp: one_char_def)
  have places: "pos \<le> (origins @ origin) ! i \<and> (origins @ origin) ! i \<le> pos + length rest
      \<and> char_boundary rest ((origins @ origin) ! i - pos)"
    if i: "i \<le> length (piece @ dtext)" "char_boundary (piece @ dtext) i" for i
    using one_char_boundary [OF c(1) i(2,1)]
  proof
    assume "i = 0"
    then show ?thesis by (simp add: at0 char_boundary_def)
  next
    assume j: "length piece \<le> i \<and> char_boundary dtext (i - length piece)"
    let ?j = "i - length piece"
    from b [of ?j] j i(1) have o: "pos + used \<le> origin ! ?j" "origin ! ?j \<le> pos + length rest"
      "char_boundary (drop used rest) (origin ! ?j - (pos + used))" using c(5) by auto
    have "char_boundary rest (used + (origin ! ?j - (pos + used)))"
      by (rule boundary_drop [OF c(7,5) o(3)]) (use o(2) c(5) in simp)
    moreover have "used + (origin ! ?j - (pos + used)) = origin ! ?j - pos" using o(1) by simp
    ultimately show ?thesis using o later j by simp
  qed
  have order: "(origins @ origin) ! i < (origins @ origin) ! j
      \<and> (origins @ origin) ! j - (origins @ origin) ! i \<le> 6 * (j - i)"
    if ij: "i < j" "j \<le> length (piece @ dtext)" "char_boundary (piece @ dtext) i" "char_boundary (piece @ dtext) j" for i j
  proof -
    have j: "length piece \<le> j" "char_boundary dtext (j - length piece)"
      using one_char_boundary [OF c(1) ij(4,2)] ij(1) by auto
    let ?j = "j - length piece"
    have jl: "?j \<le> length dtext" using ij(2) by simp
    consider "i = 0" | "length piece \<le> i" "char_boundary dtext (i - length piece)"
      using one_char_boundary [OF c(1) ij(3)] ij(1,2) by auto
    then show ?thesis
    proof cases
      case 1
      have "pos + used \<le> origin ! ?j \<and> origin ! ?j - (pos + used) \<le> 6 * ?j"
        using m [of 0 ?j] jl j(2) len(2) by (cases "?j = 0") (auto simp: char_boundary_def)
      moreover have "6 * j = 6 * ?j + 6 * length piece" using j(1) by simp
      ultimately have "pos < origin ! ?j" "origin ! ?j - pos \<le> 6 * j" using c(4,6) by linarith+
      then show ?thesis using 1 at0 later [OF j(1)] by simp
    next
      case 2
      have "i - length piece < ?j" using ij(1) 2(1) by simp
      then show ?thesis using m [of "i - length piece" ?j] jl 2 j later ij(1) by simp
    qed
  qed
  show ?thesis unfolding view_ok_def
    using val len(1) c(2) at0 places order by simp
qed

lemma decode_from_ok:
  assumes "utf8_valid rest" "decode_from pos rest = (dtext, origin)"
  shows "view_ok rest pos dtext origin"
  using assms
proof (induction pos rest arbitrary: dtext origin rule: decode_from.induct)
  case (1 pos rest)
  show ?case
  proof (cases "rest = []")
    case True
    then have "dtext = []" "origin = [pos]" using 1(3) by (simp_all add: decode_from.simps)
    then show ?thesis using True by (simp add: view_ok_def char_boundary_def)
  next
    case False
    obtain piece origins used where st: "decode_step pos rest = (piece, origins, used)" by (metis prod_cases3)
    obtain dt orig where d: "decode_from (pos + used) (drop used rest) = (dt, orig)" by fastforce
    have eq: "dtext = piece @ dt" "origin = origins @ orig"
      using 1(3) False st d by (simp_all add: decode_from.simps [of pos rest])
    note f = decode_step_facts [OF 1(2) False st]
    have "view_ok (drop used rest) (pos + used) dt orig"
      by (rule 1(1) [OF False st [symmetric] refl _ d]) (use f in simp)
    then show ?thesis unfolding eq using f by (intro view_ok_step) auto
  qed
qed

section \<open>Matches\<close>

text \<open>The occurrences of values, which a search that reports overlapping matches finds.\<close>

definition occurs :: "string set \<Rightarrow> string \<Rightarrow> span set" where
  "occurs values text = {(s, e). s \<le> e \<and> e \<le> length text \<and> take (e - s) (drop s text) \<in> values}"

text \<open>The span of text behind a match in a view of it.\<close>

definition shown :: "decoded \<Rightarrow> span \<Rightarrow> span" where
  "shown view = (\<lambda>(s, e). (dc_origin view ! s, dc_origin view ! e))"

definition match_spans :: "string set \<Rightarrow> string \<Rightarrow> bool \<Rightarrow> span set" where
  "match_spans values text is_cut = occurs values text
     \<union> (\<Union>view \<in> set (decoded_views text is_cut). shown view ` occurs values (dc_text view))"

definition values_ok :: "string set \<Rightarrow> nat \<Rightarrow> bool" where
  "values_ok values longest \<longleftrightarrow> (\<forall>v \<in> values. utf8_valid v \<and> MIN_SECRET_CHARS \<le> length (utf8_chars v) \<and> length v \<le> longest)"

lemma occurs_facts:
  assumes v: "values_ok values longest" and t: "utf8_valid t" and o: "(s, e) \<in> occurs values t"
  shows "e \<le> length t" "char_boundary t s" "char_boundary t e" "e - s \<le> longest"
    "\<exists>m. s < m \<and> m < e \<and> char_boundary t m"
proof -
  define v where "v = take (e - s) (drop s t)"
  have se: "s \<le> e" "e \<le> length t" "v \<in> values" using o by (auto simp: occurs_def v_def)
  have ok: "utf8_valid v" "2 \<le> length (utf8_chars v)" "length v \<le> longest"
    using v se(3) by (auto simp: values_ok_def MIN_SECRET_CHARS_def)
  have len: "length v = e - s" using se by (simp add: v_def)
  have split: "t = take s t @ v @ drop e t"
    using se(1) by (simp add: v_def) (metis append_take_drop_id drop_drop le_add_diff_inverse2)
  have ne: "v \<noteq> []" using ok(2) by auto
  from utf8_uncons [OF ok(1) ne] obtain c r where c: "v = c @ r" "one_char c" "utf8_valid r"
    "\<forall>x. utf8_valid (c @ x) = utf8_valid x" .
  have "r \<noteq> []"
  proof
    assume "r = []"
    then obtain x xs where "v = x # xs" "\<forall>y \<in> set xs. utf8_cont y" using c by (cases v) (auto simp: one_char_def)
    then have "length (utf8_chars v) = 1" by (simp add: takeWhile_eq_all_conv [THEN iffD2] dropWhile_eq_Nil_conv [THEN iffD2])
    then show False using ok(2) by simp
  qed
  moreover have "char_boundary t (length (take s t) + length c)"
    by (rule part_boundaries(2) [OF t, of _ c "r @ drop e t"]) (use split c in \<open>auto simp: one_char_def\<close>)
  moreover have "length (take s t) = s" using se by simp
  moreover have "0 < length c" "length v = length c + length r" using c by (auto simp: one_char_def)
  ultimately have "s < s + length c \<and> s + length c < e \<and> char_boundary t (s + length c)"
    using len by (cases r) auto
  then show "\<exists>m. s < m \<and> m < e \<and> char_boundary t m" by blast
  show "char_boundary t s" "char_boundary t e"
    using part_boundaries(1,2) [OF t split ok(1) ne] se len by (simp_all add: min_absorb2)
  show "e \<le> length t" "e - s \<le> longest" using se ok(3) len by simp_all
qed

lemma view_occurs:
  assumes v: "values_ok values longest" and ok: "view_ok text 0 dtext origin" and o: "(s, e) \<in> occurs values dtext"
  shows "s < length origin" "e < length origin" "origin ! s + 2 \<le> origin ! e" "origin ! e \<le> length text"
    "char_boundary text (origin ! s)" "char_boundary text (origin ! e)" "origin ! e - origin ! s \<le> 6 * longest"
proof -
  have d: "utf8_valid dtext" using ok by (simp add: view_ok_def)
  note f = occurs_facts [OF v d o]
  obtain m where m: "s < m" "m < e" "char_boundary dtext m" using f(5) by blast
  have mono: "\<And>i j. i < j \<Longrightarrow> j \<le> length dtext \<Longrightarrow> char_boundary dtext i \<Longrightarrow> char_boundary dtext j \<Longrightarrow>
      origin ! i < origin ! j \<and> origin ! j - origin ! i \<le> 6 * (j - i)"
    and at: "\<And>i. i \<le> length dtext \<Longrightarrow> char_boundary dtext i \<Longrightarrow> origin ! i \<le> length text \<and> char_boundary text (origin ! i)"
    and len: "length origin = Suc (length dtext)"
    using ok by (auto simp: view_ok_def)
  show "s < length origin" "e < length origin" using len f(1) m by simp_all
  have "origin ! s < origin ! m" "origin ! m < origin ! e" using mono [of s m] mono [of m e] m f by auto
  then show "origin ! s + 2 \<le> origin ! e" by simp
  show "origin ! e \<le> length text" "char_boundary text (origin ! s)" "char_boundary text (origin ! e)"
    using at [of s] at [of e] f m by auto
  have "origin ! e - origin ! s \<le> 6 * (e - s)" using mono [of s e] m f by auto
  also have "\<dots> \<le> 6 * longest" using f(4) by simp
  finally show "origin ! e - origin ! s \<le> 6 * longest" .
qed

lemma view_order:
  assumes "view_ok text 0 dtext origin" "i \<le> j" "j \<le> length dtext" "char_boundary dtext i" "char_boundary dtext j"
  shows "origin ! i \<le> origin ! j"
proof (cases "i = j")
  case False
  then have "i < j \<and> j \<le> length dtext \<and> char_boundary dtext i \<and> char_boundary dtext j" using assms(2-5) by simp
  then have "origin ! i < origin ! j" using assms(1) unfolding view_ok_def by blast
  then show ?thesis by simp
qed simp

text \<open>What holds of each view, with and without the backslash before the text.\<close>

definition span_ok :: "string \<Rightarrow> nat \<Rightarrow> span \<Rightarrow> bool" where
  "span_ok text r = (\<lambda>(s, e). s < e \<and> e - r \<le> s \<and> e \<le> length text \<and> char_boundary text s \<and> char_boundary text e)"

definition view_good :: "string set \<Rightarrow> nat \<Rightarrow> string \<Rightarrow> decoded \<Rightarrow> bool" where
  "view_good values longest text view \<longleftrightarrow> utf8_valid (dc_text view)
     \<and> (\<forall>sp \<in> occurs values (dc_text view). original view sp = Some (shown view sp)
          \<and> span_ok text (6 * longest) (shown view sp))
     \<and> (\<forall>x \<in> occurs values (dc_text view). \<forall>y \<in> occurs values (dc_text view).
          snd x \<le> snd y \<longrightarrow> snd (shown view x) \<le> snd (shown view y))"

lemma plain_view_good:
  assumes v: "values_ok values longest" and ok: "view_ok text 0 (dc_text view) (dc_origin view)"
  shows "view_good values longest text view"
proof -
  have d: "utf8_valid (dc_text view)" using ok by (simp add: view_ok_def)
  have "snd (shown view x) \<le> snd (shown view y)"
    if "x \<in> occurs values (dc_text view)" "y \<in> occurs values (dc_text view)" "snd x \<le> snd y" for x y
    using occurs_facts [OF v d, of "fst x" "snd x"] occurs_facts [OF v d, of "fst y" "snd y"] that
      view_order [OF ok, of "snd x" "snd y"] by (simp add: shown_def case_prod_beta)
  moreover have "original view sp = Some (shown view sp) \<and> span_ok text (6 * longest) (shown view sp)"
    if "sp \<in> occurs values (dc_text view)" for sp
    using view_occurs [OF v ok, of "fst sp" "snd sp"] that
    by (auto simp: original_def shown_def span_ok_def case_prod_beta)
  ultimately show ?thesis using d by (simp add: view_good_def)
qed

lemma lead_view_good:
  assumes v: "values_ok values longest" and ok: "view_ok (b # text) 0 (dc_text view) (dc_origin view)"
  shows "view_good values longest text (view\<lparr>dc_origin := map (\<lambda>i. i - 1) (dc_origin view)\<rparr>)"
proof -
  let ?view = "view\<lparr>dc_origin := map (\<lambda>i. i - 1) (dc_origin view)\<rparr>"
  have d: "utf8_valid (dc_text view)" using ok by (simp add: view_ok_def)
  have len: "length (dc_origin view) = Suc (length (dc_text view))" using ok by (simp add: view_ok_def)
  have bd: "char_boundary text (i - 1)" if "char_boundary (b # text) i" for i
    using that by (cases i) (auto simp: char_boundary_def)
  have "snd (shown ?view x) \<le> snd (shown ?view y)"
    if "x \<in> occurs values (dc_text view)" "y \<in> occurs values (dc_text view)" "snd x \<le> snd y" for x y
    using occurs_facts [OF v d, of "fst x" "snd x"] occurs_facts [OF v d, of "fst y" "snd y"] that len
      view_order [OF ok, of "snd x" "snd y"] by (simp add: shown_def case_prod_beta diff_le_mono)
  moreover have "original ?view sp = Some (shown ?view sp) \<and> span_ok text (6 * longest) (shown ?view sp)"
    if "sp \<in> occurs values (dc_text view)" for sp
  proof -
    note o = view_occurs [OF v ok, of "fst sp" "snd sp"]
    have "span_ok text (6 * longest) (dc_origin view ! fst sp - 1, dc_origin view ! snd sp - 1)"
      using o that bd by (auto simp: span_ok_def)
    then show ?thesis using o that by (simp add: original_def shown_def case_prod_beta)
  qed
  ultimately show ?thesis using d by (simp add: view_good_def)
qed

lemma decoded_plain_ok:
  assumes "decoded_plain text = Some view" "utf8_valid text"
  shows "view_ok text 0 (dc_text view) (dc_origin view)"
  using assms by (auto simp: decoded_plain_def split: if_splits prod.splits intro: decode_from_ok)

lemma decoded_views_good:
  assumes v: "values_ok values longest" and t: "utf8_valid text" and view: "view \<in> set (decoded_views text is_cut)"
  shows "view_good values longest text view"
proof -
  consider "decoded_plain text = Some view"
    | view' where "decoded_plain (CHR 0x5C # text) = Some view'"
        "view = view'\<lparr>dc_origin := map (\<lambda>i. i - 1) (dc_origin view')\<rparr>"
    using view by (auto simp: decoded_views_def decoded_new_def List.map_filter_def split: if_splits)
  then show ?thesis
  proof cases
    case 1
    then show ?thesis using plain_view_good [OF v] decoded_plain_ok t by blast
  next
    case 2
    have "utf8_valid (CHR 0x5C # text)" using t by (simp add: byte_in_def)
    then show ?thesis using lead_view_good [OF v decoded_plain_ok [OF 2(1)]] 2(2) by simp
  qed
qed

section \<open>Merged streams\<close>

lemma pick_stream_None: "pick_stream i streams = None \<longleftrightarrow> (\<forall>s \<in> set streams. s = [])"
proof (induction i streams rule: pick_stream.induct)
  case (3 i sp s streams)
  then show ?case by (auto split: option.splits if_splits)
qed simp_all

lemma merge_streams_facts:
  assumes "\<forall>s \<in> set streams. sorted (map snd s)"
  shows "set (merge_streams streams) = \<Union> (set ` set streams) \<and> sorted (map snd (merge_streams streams))"
  using assms
proof (induction streams rule: merge_streams.induct)
  case (1 streams)
  show ?case
  proof (cases "pick_stream 0 streams")
    case None
    then show ?thesis using pick_stream_None [of 0 streams] by (simp add: merge_streams.simps)
  next
    case (Some ej)
    obtain e j where ej: "ej = (e, j)" by (cases ej)
    let ?next = "streams[j := tl (streams ! j)]"
    from pick_stream_SomeD [OF Some [unfolded ej]] have j: "j < length streams" "streams ! j \<noteq> []"
      "snd (hd (streams ! j)) = e" "\<forall>s \<in> set streams. s \<noteq> [] \<longrightarrow> e \<le> snd (hd s)" by simp_all
    have so: "\<forall>s \<in> set ?next. sorted (map snd s)"
    proof
      fix s assume "s \<in> set ?next"
      then have "s = tl (streams ! j) \<or> s \<in> set streams" using set_update_subset_insert by fastforce
      then show "sorted (map snd s)" using 1(2) j(1) nth_mem [OF j(1)] by (auto simp: map_tl sorted_tl)
    qed
    have eq: "merge_streams streams = hd (streams ! j) # merge_streams ?next"
      using Some ej by (simp add: merge_streams.simps [of streams])
    from 1(1) [OF Some ej [symmetric] so] have IH: "set (merge_streams ?next) = \<Union> (set ` set ?next)"
      "sorted (map snd (merge_streams ?next))" by simp_all
    have union: "\<Union> (set ` set streams) = insert (hd (streams ! j)) (\<Union> (set ` set ?next))"
    proof -
      have all: "\<Union> (set ` set ss) = set (ss ! j) \<union> (\<Union>i \<in> {..<length ss} - {j}. set (ss ! i))"
        if "j < length ss" for ss :: "span list list"
        using that by (force simp: set_conv_nth)
      have "\<Union> (set ` set streams) = set (streams ! j) \<union> (\<Union>i \<in> {..<length streams} - {j}. set (streams ! i))"
        using all j(1) .
      also have "set (streams ! j) = insert (hd (streams ! j)) (set (?next ! j))"
        using j(1,2) by (cases "streams ! j") simp_all
      also have "(\<Union>i \<in> {..<length streams} - {j}. set (streams ! i)) = (\<Union>i \<in> {..<length ?next} - {j}. set (?next ! i))"
        by auto
      also have "insert (hd (streams ! j)) (set (?next ! j)) \<union> \<dots> = insert (hd (streams ! j)) (\<Union> (set ` set ?next))"
        using all [of ?next] j(1) by simp
      finally show ?thesis .
    qed
    have "e \<le> snd x" if "x \<in> \<Union> (set ` set streams)" for x
    proof -
      from that obtain s where s: "s \<in> set streams" "x \<in> set s" by auto
      obtain y ys where y: "s = y # ys" using s(2) by (cases s) auto
      have "sorted (map snd s)" using 1(2) s(1) by blast
      then have "snd (hd s) \<le> snd x" using s(2) by (auto simp: y)
      then show ?thesis using j(4) s by fastforce
    qed
    then show ?thesis using IH union j(3) by (simp add: eq)
  qed
qed

lemma those_map: "\<forall>x \<in> set xs. f x = Some (g x) \<Longrightarrow> those (map f xs) = Some (map g xs)"
  by (induction xs) auto

lemma next_boundary_facts:
  "i \<le> length text \<Longrightarrow> i \<le> next_boundary text i \<and> next_boundary text i \<le> length text
    \<and> char_boundary text (next_boundary text i)"
proof (induction "text" i rule: next_boundary.induct)
  case (1 t i)
  show ?case
  proof (cases "length t \<le> i \<or> char_boundary t i")
    case True
    then show ?thesis using 1(2) by (auto simp: next_boundary.simps char_boundary_def)
  next
    case False
    then show ?thesis using 1 by (simp add: next_boundary.simps [of t i])
  qed
qed

section \<open>Resolved values\<close>

lemma utf8_lossy_valid: "utf8_valid (utf8_lossy s)"
proof (induction s rule: utf8_lossy.induct)
  case (1 s)
  show ?case
  proof (cases "s = []")
    case False
    obtain ok n where u: "utf8_unit s = (ok, n)" by fastforce
    have fffd: "utf8_valid [CHR 0xEF, CHR 0xBF, CHR 0xBD]" by (simp add: byte_in_def utf8_cont_def)
    have "utf8_valid (if ok then take n s else [CHR 0xEF, CHR 0xBF, CHR 0xBD])"
      using fffd utf8_unit_valid [of s n] u by (cases ok) simp_all
    then show ?thesis using 1 [OF False u [symmetric]] False u
      by (subst utf8_lossy.simps) (simp add: utf8_valid_append)
  qed (simp add: utf8_lossy.simps)
qed

text \<open>The values to redact: those of the variables that have at least six characters.\<close>

definition secret_values :: "server_config \<Rightarrow> (string \<times> string) list \<Rightarrow> string set" where
  "secret_values c env = {v. \<exists>variable \<in> set (secret_variables c). \<exists>raw. map_of env variable = Some raw
     \<and> v = utf8_lossy raw \<and> MIN_SECRET_CHARS \<le> length (utf8_chars v)}"

lemma collect_values_facts:
  assumes "collect_values env variables acc short = Inr (values, short')"
  shows "set values = set acc \<union> {v. \<exists>variable \<in> set variables. \<exists>raw. map_of env variable = Some raw
     \<and> v = utf8_lossy raw \<and> MIN_SECRET_CHARS \<le> length (utf8_chars v)}"
  using assms
proof (induction env variables acc short arbitrary: "values" short' rule: collect_values.induct)
  case (2 env variable rest acc short)
  show ?case
  proof (cases "map_of env variable")
    case None
    then show ?thesis using 2 by auto
  next
    case (Some raw)
    let ?v = "utf8_lossy raw"
    have fits: "\<not> MAX_SECRET_BYTES < length ?v"
      using 2(4) Some by (auto simp: Let_def)
    show ?thesis
    proof (cases "length (utf8_chars ?v) < MIN_SECRET_CHARS")
      case True
      then have "collect_values env rest acc (if ?v \<noteq> [] \<and> variable \<notin> set short then short @ [variable] else short)
          = Inr (values, short')"
        using 2(4) Some fits by (simp add: Let_def)
      from 2(2) [OF Some refl fits True this] show ?thesis using Some True by auto
    next
      case False
      then have "collect_values env rest (acc @ [?v]) short = Inr (values, short')"
        using 2(4) Some fits by (simp add: Let_def)
      from 2(3) [OF Some refl fits False this] show ?thesis using Some False by auto
    qed
  qed
qed simp

lemma fold_max_length: "v \<in> set vs \<or> length v \<le> n \<Longrightarrow> length v \<le> fold (max \<circ> length) vs n"
proof (induction vs arbitrary: n)
  case (Cons w vs)
  then show ?case by (cases "v = w") (auto simp: max_def)
qed simp

lemma resolve_facts:
  assumes "resolve_secrets sr c env = Inr pt"
  shows "values_ok (secret_values c env) (pt_longest pt)"
    "pt_automaton pt = None \<longleftrightarrow> secret_values c env = {}"
    "pt_automaton pt = Some a \<Longrightarrow> \<exists>values. set values = secret_values c env \<and> sr_build sr values = Inr a"
proof -
  obtain collected short where co: "collect_values env (secret_variables c) [] [] = Inr (collected, short)"
    using assms by (auto simp: resolve_secrets_def split: sum.splits)
  let ?vs = "sorted_list_of_set (set collected)"
  have set: "set collected = secret_values c env"
    using collect_values_facts [OF co] by (simp add: secret_values_def)
  have pt: "pt_longest pt = fold (max \<circ> length) ?vs 0"
    "?vs = [] \<Longrightarrow> pt_automaton pt = None"
    "?vs \<noteq> [] \<Longrightarrow> \<exists>a. pt_automaton pt = Some a \<and> sr_build sr ?vs = Inr a"
    using assms co by (auto simp: resolve_secrets_def Let_def split: sum.splits if_splits)
  have "utf8_valid v \<and> MIN_SECRET_CHARS \<le> length (utf8_chars v)" if "v \<in> secret_values c env" for v
    using that utf8_lossy_valid by (auto simp: secret_values_def)
  then show "values_ok (secret_values c env) (pt_longest pt)"
    using fold_max_length [of _ ?vs 0] set unfolding values_ok_def pt(1)
    by (metis List.finite_set set_sorted_list_of_set)
  have "?vs = [] \<longleftrightarrow> secret_values c env = {}" using set by (metis List.finite_set set_empty sorted_list_of_set(1) sorted_list_of_set.set_sorted_key_list_of_set)
  then show "pt_automaton pt = None \<longleftrightarrow> secret_values c env = {}"
    using pt(2,3) by (cases "?vs = []") auto
  show "\<exists>values. set values = secret_values c env \<and> sr_build sr values = Inr a" if "pt_automaton pt = Some a"
  proof -
    have "?vs \<noteq> []" using pt(2) that by auto
    then have "sr_build sr ?vs = Inr a" using pt(3) that by auto
    moreover have "set ?vs = secret_values c env"
      using set set_sorted_list_of_set [OF finite_set, of collected] by simp
    ultimately show ?thesis by blast
  qed
qed

section \<open>Properties\<close>

text \<open>What is relied on of the automaton: overlapping search reports exactly the occurrences of its
  values, by their ends.\<close>

definition searcher_ok :: "'a searcher \<Rightarrow> bool" where
  "searcher_ok sr \<longleftrightarrow> (\<forall>values a text. sr_build sr values = Inr a \<longrightarrow>
     sorted (map snd (sr_find sr a text)) \<and> set (sr_find sr a text) = occurs (set values) text
     \<and> (sr_is_match sr a text \<longleftrightarrow> occurs (set values) text \<noteq> {}))"

text \<open>A search that tries every position.\<close>

definition plain_find :: "string list \<Rightarrow> string \<Rightarrow> span list" where
  "plain_find values text = concat (map (\<lambda>e. map (\<lambda>s. (s, e))
     (filter (\<lambda>s. take (e - s) (drop s text) \<in> set values) [0..<Suc e])) [0..<Suc (length text)])"

definition plain_searcher :: "string list searcher" where
  "plain_searcher = \<lparr>sr_build = Inr, sr_find = plain_find, sr_is_match = (\<lambda>values text. plain_find values text \<noteq> [])\<rparr>"

lemma plain_searcher_ok: "searcher_ok plain_searcher"
proof -
  have set: "set (plain_find values text) = occurs (set values) text" for "values" "text"
    by (force simp: plain_find_def occurs_def less_Suc_eq_le image_iff simp del: upt_Suc)
  have "sorted (map snd (concat (map (\<lambda>e. map (\<lambda>s. (s, e)) (f e)) [0..<n])))" for f :: "nat \<Rightarrow> nat list" and n
  proof (induction n)
    case (Suc n)
    then show ?case by (auto simp: sorted_append sorted_map sorted_wrt_map comp_def)
  qed simp
  then have "sorted (map snd (plain_find values text))" for "values" "text" unfolding plain_find_def .
  moreover have "plain_find values text \<noteq> [] \<longleftrightarrow> occurs (set values) text \<noteq> {}" for "values" "text"
    by (metis set set_empty)
  ultimately show ?thesis by (simp add: searcher_ok_def plain_searcher_def set)
qed

lemma redact_spans_ref:
  assumes "searcher_ok sr" "resolve_secrets sr c env = Inr pt" "utf8_valid text"
  shows "redact_spans sr pt text start is_cut = Some (redact_ref text (next_boundary text (min start (length text)))
    (cover (match_spans (secret_values c env) text is_cut)))"
proof -
  let ?V = "secret_values c env" and ?start = "next_boundary text (min start (length text))"
  let ?views = "decoded_views text is_cut"
  note R = resolve_facts [OF assms(2)]
  have st: "?start \<le> length text" "char_boundary text ?start"
    using next_boundary_facts [of "min start (length text)" "text"] by auto
  show ?thesis
  proof (cases "pt_automaton pt")
    case None
    then have "occurs ?V t = {}" for t using R(2) by (simp add: occurs_def)
    then show ?thesis using None st
      by (simp add: redact_spans_def str_slice_def char_boundary_def match_spans_def redact_ref_none)
  next
    case (Some a)
    obtain vs where vs: "set vs = ?V" "sr_build sr vs = Inr a" using R(3) [OF Some] by blast
    have find: "sorted (map snd (sr_find sr a t))" "set (sr_find sr a t) = occurs ?V t" for t
      using assms(1) vs by (auto simp: searcher_ok_def)
    note good = decoded_views_good [OF R(1) assms(3)]
    let ?shown = "\<lambda>view. map (shown view) (sr_find sr a (dc_text view))"
    have "those (map (original view) (sr_find sr a (dc_text view))) = Some (?shown view)"
      if "view \<in> set ?views" for view
      using good [OF that] find(2) by (intro those_map) (auto simp: view_good_def)
    then have decoded: "those (map (\<lambda>view. those (map (original view) (sr_find sr a (dc_text view)))) ?views)
        = Some (map ?shown ?views)"
      by (intro those_map) blast
    let ?streams = "sr_find sr a text # map ?shown ?views"
    have "sorted (map snd (?shown view))" if "view \<in> set ?views" for view
      using good [OF that] find [of "dc_text view"] unfolding view_good_def sorted_map
      by (auto simp: sorted_wrt_map intro: sorted_wrt_mono_rel [rotated])
    then have M: "set (merge_streams ?streams) = \<Union> (set ` set ?streams)" "sorted (map snd (merge_streams ?streams))"
      using merge_streams_facts [of ?streams] find(1) by auto
    have S: "set (merge_streams ?streams) = match_spans ?V text is_cut"
      unfolding M(1) match_spans_def using find(2) by simp
    have "span_ok text (reach pt) sp" if "sp \<in> match_spans ?V text is_cut" for sp
    proof -
      consider "sp \<in> occurs ?V text"
        | view x where "view \<in> set ?views" "x \<in> occurs ?V (dc_text view)" "sp = shown view x"
        using \<open>sp \<in> match_spans ?V text is_cut\<close> by (auto simp: match_spans_def)
      then show ?thesis
      proof cases
        case 1
        then show ?thesis using occurs_facts [OF R(1) assms(3), of "fst sp" "snd sp"]
          by (auto simp: span_ok_def case_prod_beta reach_def ESCAPE_GROWTH_def)
      next
        case 2
        then show ?thesis using good [OF 2(1)] by (simp add: view_good_def reach_def ESCAPE_GROWTH_def mult.commute)
      qed
    qed
    then have "\<forall>(s, e) \<in> set (merge_streams ?streams). s < e \<and> e - reach pt \<le> s \<and> e \<le> length text
        \<and> char_boundary text s \<and> char_boundary text e"
      unfolding S by (auto simp: span_ok_def)
    from stream_redacts [OF this M(2) st] show ?thesis
      unfolding redact_spans_def Let_def S by (simp add: Some decoded)
  qed
qed

text \<open>
  C39. Redaction returns, whatever well-formed text and cut it is given: the text from the cut on in
  which every maximal run of bytes covered by an occurrence of a value, in the text or in a view
  of it with its escapes decoded, is replaced by one placeholder; all other bytes are kept.
\<close>
theorem redaction_is_reference:
  assumes "searcher_ok sr" "resolve_secrets sr c env = Inr pt" "utf8_valid text"
  shows "redact_spans sr pt text start is_cut = Some (redact_ref text (next_boundary text (min start (length text)))
    (cover (match_spans (secret_values c env) text is_cut)))"
  by (rule redact_spans_ref [OF assms])

definition sample_server :: server_config where
  "sample_server = server_config_default\<lparr>sv_command := Some ''server'', sv_env_vars := [''V'']\<rparr>"

lemma sample_resolve: "resolve_secrets plain_searcher sample_server [(''V'', ''0123456789'')]
    = Inr \<lparr>pt_automaton = Some [''0123456789''], pt_longest = 10, pt_short = []\<rparr>"
  by code_simp

lemma sample_values: "secret_values sample_server [(''V'', ''0123456789'')] = {''0123456789''}"
proof -
  have "utf8_lossy ''0123456789'' = ''0123456789''" "length (utf8_chars ''0123456789'') = 10" by code_simp+
  then show ?thesis
    by (auto simp: secret_values_def sample_server_def server_config_default_def secret_variables_def MIN_SECRET_CHARS_def)
qed

lemma sample_occurs: "occurs {''0123456789''} ''xx0123456789yy'' = {(2, 12)}"
proof -
  have range: "e = 10 + s \<and> s \<le> 4" if o: "(s, e) \<in> occurs {''0123456789''} ''xx0123456789yy''" for s e
  proof -
    have t: "s \<le> e" "e \<le> 14" "take (e - s) (drop s ''xx0123456789yy'') = ''0123456789''"
      using o by (simp_all add: occurs_def)
    have "min (14 - s) (e - s) = 10" using arg_cong [OF t(3), of length] by simp
    then show ?thesis using t(1,2) by linarith
  qed
  have "x = (2, 12)" if "x \<in> occurs {''0123456789''} ''xx0123456789yy''" for x
  proof -
    obtain s e where x: "x = (s, e)" by (cases x)
    have "e = 10 + s" "s = 0 \<or> s = 1 \<or> s = 2 \<or> s = 3 \<or> s = 4" using range [of s e] that x by auto
    then show ?thesis using that by (auto simp: occurs_def x)
  qed
  moreover have "(2, 12) \<in> occurs {''0123456789''} ''xx0123456789yy''" by (simp add: occurs_def)
  ultimately show ?thesis by blast
qed

theorem redaction_is_reference_witness:
  "\<exists>pt. resolve_secrets plain_searcher sample_server [(''V'', ''0123456789'')] = Inr pt
    \<and> redact_spans plain_searcher pt ''xx0123456789yy'' 6 False = Some ''[redacted]yy''"
proof -
  let ?t = "''xx0123456789yy''"
  have valid: "utf8_valid ?t" and start: "next_boundary ?t (min 6 (length ?t)) = 6" by code_simp+
  have spans: "match_spans {''0123456789''} ?t False = {(2, 12)}"
    by (simp add: match_spans_def decoded_views_def decoded_new_def decoded_plain_def sample_occurs List.map_filter_simps)
  have "redact_ref ?t 6 {2..<12} = ''[redacted]yy''"
    by (simp add: redact_ref_def REDACTED_def upt_rec)
  then have "redact_spans plain_searcher \<lparr>pt_automaton = Some [''0123456789''], pt_longest = 10, pt_short = []\<rparr> ?t 6 False
      = Some ''[redacted]yy''"
    using redaction_is_reference [OF plain_searcher_ok sample_resolve valid, of 6 False]
    unfolding start sample_values spans by simp
  then show ?thesis using sample_resolve by blast
qed

section \<open>Spellings\<close>

text \<open>The escapes of a JSON string (RFC 8259, section 7), from the grammar: two-character escapes, a
  code unit in four hexadecimal digits of either case, and a surrogate pair of two.\<close>

definition short_escapes :: "(char \<times> nat) list" where
  "short_escapes = [(CHR 0x22, 0x22), (CHR 0x5C, 0x5C), (CHR ''/'', 0x2F), (CHR ''b'', 0x08),
     (CHR ''f'', 0x0C), (CHR ''n'', 0x0A), (CHR ''r'', 0x0D), (CHR ''t'', 0x09)]"

definition hex_digits :: "(char \<times> nat) list" where
  "hex_digits = zip ''0123456789abcdef'' [0..<16] @ zip ''ABCDEF'' [10..<16]"

definition json_unit :: "nat \<Rightarrow> string \<Rightarrow> bool" where
  "json_unit u ds \<longleftrightarrow> (\<exists>a b c d va vb vc vd. ds = [a, b, c, d]
     \<and> {(a, va), (b, vb), (c, vc), (d, vd)} \<subseteq> set hex_digits
     \<and> u = va * 0x1000 + vb * 0x100 + vc * 0x10 + vd)"

inductive json_escape :: "nat \<Rightarrow> string \<Rightarrow> bool" where
  json_short: "(e, code) \<in> set short_escapes \<Longrightarrow> json_escape code [CHR 0x5C, e]"
| json_bmp: "json_unit code ds \<Longrightarrow> \<not> (0xD800 \<le> code \<and> code \<le> 0xDFFF) \<Longrightarrow>
    json_escape code ([CHR 0x5C, CHR ''u''] @ ds)"
| json_pair: "0x10000 \<le> code \<Longrightarrow> code \<le> 0x10FFFF \<Longrightarrow>
    json_unit (0xD800 + (code - 0x10000) div 0x400) hi \<Longrightarrow>
    json_unit (0xDC00 + (code - 0x10000) mod 0x400) lo \<Longrightarrow>
    json_escape code ([CHR 0x5C, CHR ''u''] @ hi @ [CHR 0x5C, CHR ''u''] @ lo)"

text \<open>`spells v w`: `w` is a spelling of the text `v`, each character raw or as an escape for it.  The
  raw characters include those that a JSON string may not hold unescaped, as text that is not JSON
  does.\<close>

inductive spells :: "string \<Rightarrow> string \<Rightarrow> bool" where
  spells_nil: "spells [] []"
| spells_raw: "one_char c \<Longrightarrow> c \<noteq> [CHR 0x5C] \<Longrightarrow> spells v w \<Longrightarrow> spells (c @ v) (c @ w)"
| spells_escape: "json_escape code e \<Longrightarrow> spells v w \<Longrightarrow> spells (utf8_encode code @ v) (e @ w)"

lemma hex_digit_value: "(a, va) \<in> set hex_digits \<Longrightarrow> is_hex a \<and> hex_value a = va"
proof -
  have "\<forall>(a, va) \<in> set hex_digits. is_hex a \<and> hex_value a = va" by code_simp
  then show "(a, va) \<in> set hex_digits \<Longrightarrow> is_hex a \<and> hex_value a = va" by fast
qed

lemma hex4_unit: "json_unit u ds \<Longrightarrow> length ds = 4 \<and> hex4 ds = Some u"
  by (auto simp: json_unit_def hex4_def dest!: hex_digit_value)

text \<open>The decoder of the code reads every escape of the grammar.\<close>

lemma unescape_json: "json_escape code e \<Longrightarrow> unescape e = Some (code, length e)"
proof (induction rule: json_escape.induct)
  case (json_short e code)
  then show ?case by (auto simp: short_escapes_def)
next
  case (json_bmp code ds)
  then show ?case using hex4_unit [OF json_bmp(1)] by (auto simp: unicode_def get_range_def)
next
  case (json_pair code hi lo)
  let ?x = "code - 0x10000"
  have "?x div 0x400 < 0x400" using json_pair(2) by (simp add: less_mult_imp_div_less)
  moreover have "?x div 0x400 * 0x400 + ?x mod 0x400 = ?x" by (rule div_mult_mod_eq)
  moreover have "?x mod 0x400 < 0x400" by simp
  ultimately show ?case using hex4_unit [OF json_pair(3)] hex4_unit [OF json_pair(4)] json_pair(1)
    by (simp add: unicode_def get_range_def)
qed

lemma get_range_prefix: "b \<le> length e \<Longrightarrow> get_range (e @ x) a b = get_range e a b"
  by (auto simp: get_range_def)

lemma get_range_None: "length e < b \<Longrightarrow> get_range e a b = None"
  by (simp add: get_range_def)

lemma unicode_prefix:
  assumes "unicode e = Some (code, length e)"
  shows "unicode (e @ x) = Some (code, length e)"
proof -
  obtain ds unit where d: "get_range e 2 6 = Some ds" "hex4 ds = Some unit"
    using assms by (auto simp: unicode_def bind_eq_Some_conv)
  have six: "6 \<le> length e" using get_range_take [OF d(1)] by simp
  show ?thesis
  proof (cases "0xD800 \<le> unit \<and> unit \<le> 0xDBFF")
    case True
    then have "length e = 12" using assms d by (auto simp: unicode_def bind_eq_Some_conv split: if_splits)
    then have g: "get_range (e @ x) 2 6 = get_range e 2 6" "get_range (e @ x) 6 8 = get_range e 6 8"
      "get_range (e @ x) 8 12 = get_range e 8 12" by (simp_all add: get_range_prefix)
    show ?thesis using assms unfolding unicode_def g .
  next
    case False
    then show ?thesis using assms d six by (auto simp: unicode_def get_range_prefix split: if_splits)
  qed
qed

lemma unescape_prefix:
  assumes "unescape e = Some (code, length e)"
  shows "unescape (e @ x) = Some (code, length e)"
proof -
  obtain b d rest where e: "e = b # d # rest" using assms by (cases e rule: unescape.cases) auto
  show ?thesis
  proof (cases "b = CHR 0x5C \<and> d = CHR ''u''")
    case True
    then show ?thesis using assms unicode_prefix [of e code x] by (simp add: e)
  next
    case False
    then show ?thesis using assms by (auto simp: e split: if_splits)
  qed
qed

lemma unescape_backslash: "unescape e = Some r \<Longrightarrow> e \<noteq> [] \<and> hd e = CHR 0x5C"
  by (cases e rule: unescape.cases) (auto split: if_splits)

lemma spells_valid: "spells v w \<Longrightarrow> utf8_valid w"
proof (induction rule: spells.induct)
  case (spells_raw c v w)
  then show ?case using utf8_valid_append by (auto simp: one_char_def)
next
  case (spells_escape code e v w)
  then show ?case using unescape_facts [OF unescape_json [OF spells_escape(1)]] ascii_append [of e w] by simp
qed simp

lemma spells_plain: "spells v w \<Longrightarrow> CHR 0x5C \<notin> set w \<Longrightarrow> v = w"
proof (induction rule: spells.induct)
  case (spells_escape code e v w)
  then show ?case using unescape_backslash [OF unescape_json [OF spells_escape(1)]] by (cases e) auto
qed auto

lemma decode_spelled:
  assumes "spells u p" "utf8_valid x"
  shows "\<exists>os. length os = length u \<and> decode_from pos (p @ x)
    = (u @ fst (decode_from (pos + length p) x), os @ snd (decode_from (pos + length p) x))"
  using assms
proof (induction arbitrary: pos rule: spells.induct)
  case (spells_raw c v w)
  obtain os where os: "length os = length v" "decode_from (pos + length c) (w @ x)
      = (v @ fst (decode_from (pos + length c + length w) x), os @ snd (decode_from (pos + length c + length w) x))"
    using spells_raw.IH [OF spells_raw.prems] by blast
  have wx: "utf8_valid (w @ x)" using spells_valid [OF spells_raw.hyps(3)] spells_raw.prems utf8_valid_append by simp
  have "unescape (c @ w @ x) = None"
  proof (rule ccontr)
    assume "unescape (c @ w @ x) \<noteq> None"
    then obtain r where "unescape (c @ w @ x) = Some r" by auto
    from unescape_backslash [OF this] have "hd c = CHR 0x5C" using spells_raw.hyps(1) by (auto simp: one_char_def)
    then obtain t where c: "c = CHR 0x5C # t" using spells_raw.hyps(1) by (cases c) (auto simp: one_char_def)
    then have "t = []"
      using spells_raw.hyps(1) utf8_head [of t] by (cases t) (auto simp: one_char_def byte_in_def)
    then show False using c spells_raw.hyps(2) by simp
  qed
  then have "decode_step pos (c @ w @ x) = (c, map ((+) pos) [0..<length c], length c)"
    using one_char_first [OF spells_raw.hyps(1) wx] by (simp add: decode_step_def)
  then have "decode_from pos (c @ w @ x) = (c @ v @ fst (decode_from (pos + length c + length w) x),
      (map ((+) pos) [0..<length c] @ os) @ snd (decode_from (pos + length c + length w) x))"
    using os spells_raw.hyps(1) by (simp add: decode_from.simps [of pos "c @ w @ x"] one_char_def)
  then show ?case using os(1) by (intro exI [of _ "map ((+) pos) [0..<length c] @ os"]) (simp add: add.assoc)
next
  case (spells_escape code e v w)
  obtain os where os: "length os = length v" "decode_from (pos + length e) (w @ x)
      = (v @ fst (decode_from (pos + length e + length w) x), os @ snd (decode_from (pos + length e + length w) x))"
    using spells_escape.IH [OF spells_escape.prems] by blast
  let ?c = "utf8_encode code"
  have "decode_step pos (e @ w @ x) = (?c, replicate (length ?c) pos, length e)"
    using unescape_prefix [OF unescape_json [OF spells_escape.hyps(1)]] by (simp add: decode_step_def)
  then have "decode_from pos (e @ w @ x) = (?c @ v @ fst (decode_from (pos + length e + length w) x),
      (replicate (length ?c) pos @ os) @ snd (decode_from (pos + length e + length w) x))"
    using os unescape_backslash [OF unescape_json [OF spells_escape.hyps(1)]] by (simp add: decode_from.simps [of pos "e @ w @ x"])
  then show ?case using os(1) by (intro exI [of _ "replicate (length ?c) pos @ os"]) (simp add: add.assoc)
qed (simp add: exI [of _ "[]"])

lemma decode_origin: "utf8_valid x \<Longrightarrow> snd (decode_from pos x) \<noteq> [] \<and> snd (decode_from pos x) ! 0 = pos"
  using decode_from_ok [of x pos "fst (decode_from pos x)" "snd (decode_from pos x)"] by (auto simp: view_ok_def)

lemma spelled_match:
  assumes "spells u pre" "spells v w" "v \<in> V" "utf8_valid post" "length (pre @ w @ post) + 1 < 2 ^ 32"
  shows "(length pre, length pre + length w) \<in> match_spans V (pre @ w @ post) is_cut"
proof (cases "CHR 0x5C \<in> set (pre @ w @ post)")
  case False
  then have "v = w" using spells_plain [OF assms(2)] by simp
  then show ?thesis using assms(3) by (auto simp: match_spans_def occurs_def)
next
  case True
  have wp: "utf8_valid (w @ post)" using spells_valid [OF assms(2)] assms(4) utf8_valid_append by simp
  obtain os where os: "length os = length u" "decode_from 0 (pre @ w @ post)
      = (u @ fst (decode_from (length pre) (w @ post)), os @ snd (decode_from (length pre) (w @ post)))"
    using decode_spelled [OF assms(1) wp, of 0] by auto
  obtain qs where qs: "length qs = length v" "decode_from (length pre) (w @ post)
      = (v @ fst (decode_from (length pre + length w) post), qs @ snd (decode_from (length pre + length w) post))"
    using decode_spelled [OF assms(2,4), of "length pre"] by auto
  let ?dt = "u @ v @ fst (decode_from (length pre + length w) post)"
    and ?or = "os @ qs @ snd (decode_from (length pre + length w) post)"
  let ?view = "\<lparr>dc_text = ?dt, dc_origin = ?or\<rparr>"
  have d: "decode_from 0 (pre @ w @ post) = (?dt, ?or)" using os qs by simp
  have "decoded_plain (pre @ w @ post) = Some ?view"
    unfolding decoded_plain_def d using True assms(5) by simp
  then have "?view \<in> set (decoded_views (pre @ w @ post) is_cut)"
    using assms(5) by (simp add: decoded_views_def decoded_new_def List.map_filter_simps)
  moreover have "(length u, length u + length v) \<in> occurs V ?dt" using assms(3) by (simp add: occurs_def)
  moreover have "shown ?view (length u, length u + length v) = (length pre, length pre + length w)"
  proof -
    have "(qs @ snd (decode_from (length pre + length w) post)) ! 0 = length pre"
      using decode_origin [OF wp, of "length pre"] qs(2) by simp
    moreover have "snd (decode_from (length pre + length w) post) ! 0 = length pre + length w"
      using decode_origin [OF assms(4)] by blast
    ultimately show ?thesis using os(1) qs(1) by (simp add: shown_def nth_append)
  qed
  ultimately show ?thesis unfolding match_spans_def
    by (intro UnI2 UN_I [of ?view]) (auto intro!: image_eqI [of _ _ "(length u, length u + length v)"] simp del: append.simps)
qed

text \<open>
  C40. A value of the configured variables never gets through redaction in a JSON spelling of it:
  wherever it stands behind text that is itself spelled out, however each of its characters is
  written, as itself or as any escape for it, surrogate pairs included, all bytes of the
  spelling are among those that the placeholders replace.
\<close>
theorem spelled_values_hidden:
  assumes "searcher_ok sr" "resolve_secrets sr c env = Inr pt" "v \<in> secret_values c env"
    "spells u pre" "spells v w" "utf8_valid post" "length (pre @ w @ post) + 1 < 2 ^ 32"
  shows "\<exists>H. secrets_redact sr pt (pre @ w @ post) = Some (redact_ref (pre @ w @ post) 0 H)
    \<and> {length pre..<length pre + length w} \<subseteq> H"
proof -
  have valid: "utf8_valid (pre @ w @ post)"
    using spells_valid [OF assms(4)] spells_valid [OF assms(5)] assms(6) utf8_valid_append by simp
  have "next_boundary (pre @ w @ post) 0 = 0" by (simp add: next_boundary.simps char_boundary_def)
  then have "secrets_redact sr pt (pre @ w @ post) = Some (redact_ref (pre @ w @ post) 0
      (cover (match_spans (secret_values c env) (pre @ w @ post) False)))"
    using redact_spans_ref [OF assms(1,2) valid, of 0 False] by (simp add: secrets_redact_def)
  moreover have "{length pre..<length pre + length w}
      \<subseteq> cover (match_spans (secret_values c env) (pre @ w @ post) False)"
    using spelled_match [OF assms(4,5,3,6,7), of False] by (force simp: cover_def)
  ultimately show ?thesis by blast
qed

text \<open>`p` written as an escape.\<close>

definition escaped_p :: string where
  "escaped_p = [CHR 0x5C, CHR ''u'', CHR ''0'', CHR ''0'', CHR ''7'', CHR ''0'']"

lemma ascii_one_char: "byte_in c 0 0x7F \<Longrightarrow> one_char [c]"
  using cont_lead [of c 0 "0x7F"] by (simp add: one_char_def)

lemma ascii_spells: "\<forall>c \<in> set w. byte_in c 0 0x7F \<and> c \<noteq> CHR 0x5C \<Longrightarrow> spells w w"
proof (induction w)
  case (Cons c w)
  then show ?case using spells_raw [of "[c]" w w] ascii_one_char [of c] by simp
qed (simp add: spells_nil)

lemma ascii_lossy: "\<forall>c \<in> set w. byte_in c 0 0x7F \<Longrightarrow> utf8_lossy w = w"
proof (induction w)
  case (Cons c w)
  then show ?case by (simp add: utf8_lossy.simps [of "c # w"] utf8_unit_def)
qed (simp add: utf8_lossy.simps)

theorem spelled_values_hidden_witness:
  "\<exists>H pt. resolve_secrets plain_searcher sample_server [(''V'', ''password'')] = Inr pt
    \<and> secrets_redact plain_searcher pt (''x '' @ (escaped_p @ ''assword'') @ '' y'')
      = Some (redact_ref (''x '' @ (escaped_p @ ''assword'') @ '' y'') 0 H) \<and> {2..<15} \<subseteq> H"
proof -
  have pt: "resolve_secrets plain_searcher sample_server [(''V'', ''password'')]
      = Inr \<lparr>pt_automaton = Some [''password''], pt_longest = 8, pt_short = []\<rparr>" by code_simp
  have "utf8_lossy ''password'' = ''password''" by (rule ascii_lossy) (simp add: byte_in_def)
  moreover have "utf8_chars ''password'' = map (\<lambda>c. [c]) ''password''"
    by (rule utf8_chars_ascii) (simp add: utf8_cont_def)
  ultimately have v: "''password'' \<in> secret_values sample_server [(''V'', ''password'')]"
    by (auto simp: secret_values_def sample_server_def server_config_default_def secret_variables_def MIN_SECRET_CHARS_def)
  have digits: "{(CHR ''0'', 0), (CHR ''7'', 7)} \<subseteq> set hex_digits" by code_simp
  have "json_unit 112 ''0070''"
    unfolding json_unit_def using digits by (intro exI conjI) (auto intro!: refl)
  then have "json_escape 112 escaped_p" using json_bmp [of 112 "''0070''"] by (simp add: escaped_p_def)
  moreover have "utf8_encode 112 = ''p''" by code_simp
  moreover have "spells ''assword'' ''assword''" by (rule ascii_spells) (simp add: byte_in_def)
  ultimately have w: "spells ''password'' (escaped_p @ ''assword'')"
    using spells_escape [of 112 escaped_p "''assword''" "''assword''"] by simp
  have pre: "spells ''x '' ''x ''" by (rule ascii_spells) (simp add: byte_in_def)
  have "utf8_valid '' y''" "length (''x '' @ (escaped_p @ ''assword'') @ '' y'') + 1 < 2 ^ 32"
    by (simp_all add: byte_in_def escaped_p_def)
  note hidden = spelled_values_hidden [OF plain_searcher_ok pt v pre w this]
  have len: "length ''x '' = 2" "2 + length (escaped_p @ ''assword'') = 15"
    by (simp_all add: escaped_p_def)
  show ?thesis using hidden pt unfolding len by blast
qed

end
