(* ===== verification/Os_Calls.thy ===== *)
theory Os_Calls
  imports Prelude
begin

text \<open>
  The operating system as the file tools of `crates/tools/src` see it.  Every call is recorded in
  a history and answered from it, so an answer may depend on everything before it, and a theorem
  over all answers covers whatever other programs do to the file system meanwhile.  A file
  descriptor is the position of the call that opened it.
\<close>

datatype oflag = O_RDONLY | O_WRONLY | O_DIRECTORY | O_CLOEXEC | O_NOFOLLOW | O_NONBLOCK | O_CREAT | O_EXCL

datatype os_call =
    Canonicalize string
  | Open string "oflag list"
  | OpenAt nat string "oflag list" u32
  | MkdirAt nat string u32
  | StatAt nat string
  | StatFd nat
  | ReadAll nat
  | WriteAll nat string
  | Flush nat
  | Chmod nat u32
  | RenameAt nat string string
  | UnlinkAt nat string

text \<open>The errors of `nix` that the code tells apart.\<close>

datatype errno = EEXIST | ENOENT | OtherErrno nat

record file_stat =
  st_dev :: u64
  st_ino :: u64
  st_mode :: u32

text \<open>The answers: of `canonicalize`, of calls that only succeed or fail, of `fstat` and `fstatat`,
  of a read to the end of a file and of the calls of `std::io` on a file, with the texts of
  errors and the identifiers of `uuid`.\<close>

record os =
  os_realpath :: "os_call list \<Rightarrow> string + string"
  os_nix :: "os_call list \<Rightarrow> errno option"
  os_stat :: "os_call list \<Rightarrow> errno + file_stat"
  os_read :: "os_call list \<Rightarrow> string + string"
  os_io :: "os_call list \<Rightarrow> string option"
  os_errno_text :: "errno \<Rightarrow> string"
  os_uuid :: "os_call list \<Rightarrow> 128 word"

text \<open>Operations that may fail with a message; the history is kept when they do.\<close>

type_synonym 'a io = "os_call list \<Rightarrow> (string + 'a) \<times> os_call list"

definition io_return :: "'a \<Rightarrow> 'a io" where
  "io_return a h = (Inr a, h)"

definition io_fail :: "string \<Rightarrow> 'a io" where
  "io_fail e h = (Inl e, h)"

definition io_bind :: "'a io \<Rightarrow> ('a \<Rightarrow> 'b io) \<Rightarrow> 'b io" where
  "io_bind m f h = (case m h of (Inl e, h') \<Rightarrow> (Inl e, h') | (Inr a, h') \<Rightarrow> f a h')"

text \<open>A call whose answer `answer` is looked up once it is recorded.\<close>

definition io_call :: "os_call \<Rightarrow> (os_call list \<Rightarrow> 'a) \<Rightarrow> 'a io" where
  "io_call c answer h = (Inr (answer (h @ [c])), h @ [c])"

definition io_lift :: "string + 'a \<Rightarrow> 'a io" where
  "io_lift r h = (r, h)"

definition io_assert :: "bool \<Rightarrow> string \<Rightarrow> unit io" where
  "io_assert b e h = (if b then Inr () else Inl e, h)"

text \<open>The `?` operator on the calls.\<close>

definition canonicalize :: "os \<Rightarrow> string \<Rightarrow> (string + string) io" where
  "canonicalize os p = io_call (Canonicalize p) (os_realpath os)"

definition nix_call :: "os \<Rightarrow> os_call \<Rightarrow> unit io" where
  "nix_call os c = io_bind (io_call c (os_nix os)) (\<lambda>r. case r of
     None \<Rightarrow> io_return () | Some e \<Rightarrow> io_fail (os_errno_text os e))"

text \<open>A call that opens a file gives its descriptor.\<close>

definition open_call :: "os \<Rightarrow> os_call \<Rightarrow> nat io" where
  "open_call os c h = io_bind (nix_call os c) (\<lambda>_. io_return (length h)) h"

definition stat_call :: "os \<Rightarrow> os_call \<Rightarrow> file_stat io" where
  "stat_call os c = io_bind (io_call c (os_stat os)) (\<lambda>r. case r of
     Inr st \<Rightarrow> io_return st | Inl e \<Rightarrow> io_fail (os_errno_text os e))"

definition read_call :: "os \<Rightarrow> nat \<Rightarrow> string io" where
  "read_call os fd = io_bind (io_call (ReadAll fd) (os_read os)) io_lift"

definition std_call :: "os \<Rightarrow> os_call \<Rightarrow> unit io" where
  "std_call os c = io_bind (io_call c (os_io os)) (\<lambda>r. case r of
     None \<Rightarrow> io_return () | Some e \<Rightarrow> io_fail e)"

section \<open>Paths\<close>

text \<open>`Path::components` on Unix: empty and `.` components are dropped, except a leading `.`.
  Two paths are equal when their components are.\<close>

datatype component = RootDir | CurDir | ParentDir | Normal string

definition components :: "string \<Rightarrow> component list" where
  "components p =
     (let parts = split_char (CHR ''/'') p;
          front = (if prefix ''/'' p then [RootDir] else if hd parts = ''.'' then [CurDir] else [])
      in front @ map (\<lambda>s. if s = ''..'' then ParentDir else Normal s)
           (filter (\<lambda>s. s \<noteq> [] \<and> s \<noteq> ''.'') parts))"

definition same_path :: "string \<Rightarrow> string \<Rightarrow> bool" where
  "same_path a b \<longleftrightarrow> components a = components b"

definition is_absolute :: "string \<Rightarrow> bool" where
  "is_absolute p \<longleftrightarrow> prefix ''/'' p"

text \<open>`Path::strip_prefix`, by components.\<close>

definition strip_path :: "string \<Rightarrow> component list \<Rightarrow> component list option" where
  "strip_path base cs = (if prefix (components base) cs
     then Some (drop (length (components base)) cs) else None)"

text \<open>A name that denotes an entry of the directory it is looked up in.\<close>

definition entry_name :: "string \<Rightarrow> bool" where
  "entry_name n \<longleftrightarrow> n \<noteq> [] \<and> n \<noteq> ''.'' \<and> n \<noteq> ''..'' \<and> CHR ''/'' \<notin> set n"


section \<open>Reasoning on histories\<close>

text \<open>`keeps I P m Q`: from a history with `I` and `P`, the operation `m` only appends, keeps `I` and
  ends, where it succeeds, with `Q` of its result.\<close>

definition keeps :: "(os_call list \<Rightarrow> bool) \<Rightarrow> (os_call list \<Rightarrow> bool) \<Rightarrow> 'a io
    \<Rightarrow> ('a \<Rightarrow> os_call list \<Rightarrow> bool) \<Rightarrow> bool" where
  "keeps I P m Q \<longleftrightarrow> (\<forall>h. I h \<longrightarrow> P h \<longrightarrow>
     I (snd (m h)) \<and> prefix h (snd (m h)) \<and> (\<forall>a. fst (m h) = Inr a \<longrightarrow> Q a (snd (m h))))"

definition lasting :: "(os_call list \<Rightarrow> bool) \<Rightarrow> bool" where
  "lasting P \<longleftrightarrow> (\<forall>h h'. prefix h h' \<longrightarrow> P h \<longrightarrow> P h')"

named_theorems io_rules \<open>rules for operations on histories\<close>

lemma keepsD:
  assumes "keeps I P m Q" "I h" "P h" "m h = (r, h')"
  shows "I h'" "prefix h h'" "r = Inr a \<Longrightarrow> Q a h'"
proof -
  have "I (snd (m h)) \<and> prefix h (snd (m h)) \<and> (\<forall>a. fst (m h) = Inr a \<longrightarrow> Q a (snd (m h)))"
    using assms(1-3) unfolding keeps_def by blast
  then show "I h'" "prefix h h'" "r = Inr a \<Longrightarrow> Q a h'" using assms(4) by simp_all
qed

lemma keepsI:
  assumes "\<And>h r h'. I h \<Longrightarrow> P h \<Longrightarrow> m h = (r, h') \<Longrightarrow>
    I h' \<and> prefix h h' \<and> (\<forall>a. r = Inr a \<longrightarrow> Q a h')"
  shows "keeps I P m Q"
  unfolding keeps_def using assms by (metis prod.collapse)

lemma keeps_weaken:
  assumes "keeps I P' m Q'" "\<And>h. P h \<Longrightarrow> P' h" "\<And>a h. Q' a h \<Longrightarrow> Q a h"
  shows "keeps I P m Q"
  using assms unfolding keeps_def by blast

lemma keeps_bind:
  assumes "keeps I P m Q" "lasting P" "\<And>a. keeps I (\<lambda>h. P h \<and> Q a h) (f a) R"
  shows "keeps I P (io_bind m f) R"
proof (rule keepsI)
  fix h r h' assume h: "I h" "P h" "io_bind m f h = (r, h')"
  obtain r1 h1 where m: "m h = (r1, h1)" by fastforce
  note M = keepsD [OF assms(1) h(1,2) m]
  show "I h' \<and> prefix h h' \<and> (\<forall>a. r = Inr a \<longrightarrow> R a h')"
  proof (cases r1)
    case (Inl e)
    then show ?thesis using M h(3) m by (auto simp: io_bind_def)
  next
    case (Inr a)
    then have f: "f a h1 = (r, h')" using h(3) m by (simp add: io_bind_def)
    have "P h1" using assms(2) M(2) h(2) unfolding lasting_def by blast
    with M(3) [OF Inr] have "P h1 \<and> Q a h1" by blast
    from keepsD [OF assms(3) M(1) this f] M(2) show ?thesis by (blast intro: prefix_order.trans)
  qed
qed

lemma keeps_return [io_rules]: "(\<And>h. P h \<Longrightarrow> Q a h) \<Longrightarrow> keeps I P (io_return a) Q"
  by (simp add: keeps_def io_return_def)

lemma keeps_fail [io_rules]: "keeps I P (io_fail e) Q"
  by (simp add: keeps_def io_fail_def)

lemma keeps_lift [io_rules]: "(\<And>a h. P h \<Longrightarrow> r = Inr a \<Longrightarrow> Q a h) \<Longrightarrow> keeps I P (io_lift r) Q"
  by (simp add: keeps_def io_lift_def)

lemma keeps_assert [io_rules]: "(\<And>h. P h \<Longrightarrow> b \<Longrightarrow> Q () h) \<Longrightarrow> keeps I P (io_assert b e) Q"
  by (simp add: keeps_def io_assert_def)

lemma keeps_call:
  assumes "\<And>h. I h \<Longrightarrow> P h \<Longrightarrow> I (h @ [c])" "\<And>h. I h \<Longrightarrow> P h \<Longrightarrow> Q (answer (h @ [c])) (h @ [c])"
  shows "keeps I P (io_call c answer) Q"
  using assms by (simp add: keeps_def io_call_def)

lemma lastingI: "(\<And>h h'. prefix h h' \<Longrightarrow> P h \<Longrightarrow> P h') \<Longrightarrow> lasting P"
  by (auto simp: lasting_def)

lemma lasting_const [io_rules]: "lasting (\<lambda>_. b)"
  by (simp add: lasting_def)

lemma lasting_conj [io_rules]: "lasting P \<Longrightarrow> lasting Q \<Longrightarrow> lasting (\<lambda>h. P h \<and> Q h)"
  by (auto simp: lasting_def)


text \<open>What one call of each kind does.\<close>

lemma nix_call_eq: "nix_call os c h =
   (case os_nix os (h @ [c]) of None \<Rightarrow> Inr () | Some e \<Rightarrow> Inl (os_errno_text os e), h @ [c])"
  by (simp add: nix_call_def io_bind_def io_call_def io_return_def io_fail_def split: option.splits)

lemma open_call_eq: "open_call os c h =
   (case os_nix os (h @ [c]) of None \<Rightarrow> Inr (length h) | Some e \<Rightarrow> Inl (os_errno_text os e), h @ [c])"
  by (simp add: open_call_def nix_call_eq io_bind_def io_return_def split: option.splits)

lemma stat_call_eq: "stat_call os c h =
   (case os_stat os (h @ [c]) of Inr st \<Rightarrow> Inr st | Inl e \<Rightarrow> Inl (os_errno_text os e), h @ [c])"
  by (simp add: stat_call_def io_bind_def io_call_def io_return_def io_fail_def split: sum.splits)

lemma read_call_eq: "read_call os fd h = (os_read os (h @ [ReadAll fd]), h @ [ReadAll fd])"
  by (simp add: read_call_def io_bind_def io_call_def io_lift_def)

lemma std_call_eq: "std_call os c h =
   (case os_io os (h @ [c]) of None \<Rightarrow> Inr () | Some e \<Rightarrow> Inl e, h @ [c])"
  by (simp add: std_call_def io_bind_def io_call_def io_return_def io_fail_def split: option.splits)

lemma canonicalize_eq: "canonicalize os p h =
   (Inr (os_realpath os (h @ [Canonicalize p])), h @ [Canonicalize p])"
  by (simp add: canonicalize_def io_call_def)

lemmas call_eqs = nix_call_eq open_call_eq stat_call_eq read_call_eq std_call_eq canonicalize_eq

lemma keeps_nix [io_rules]:
  "(\<And>h. I h \<Longrightarrow> P h \<Longrightarrow> I (h @ [c])) \<Longrightarrow>
   (\<And>h. P h \<Longrightarrow> os_nix os (h @ [c]) = None \<Longrightarrow> Q () (h @ [c])) \<Longrightarrow> keeps I P (nix_call os c) Q"
  by (auto simp: keeps_def call_eqs split: option.splits)

lemma keeps_open [io_rules]:
  "(\<And>h. I h \<Longrightarrow> P h \<Longrightarrow> I (h @ [c])) \<Longrightarrow>
   (\<And>h. P h \<Longrightarrow> os_nix os (h @ [c]) = None \<Longrightarrow> Q (length h) (h @ [c])) \<Longrightarrow> keeps I P (open_call os c) Q"
  by (auto simp: keeps_def call_eqs split: option.splits)

lemma keeps_stat [io_rules]:
  "(\<And>h. I h \<Longrightarrow> P h \<Longrightarrow> I (h @ [c])) \<Longrightarrow>
   (\<And>h st. P h \<Longrightarrow> os_stat os (h @ [c]) = Inr st \<Longrightarrow> Q st (h @ [c])) \<Longrightarrow> keeps I P (stat_call os c) Q"
  by (auto simp: keeps_def call_eqs split: sum.splits)

lemma keeps_read [io_rules]:
  "(\<And>h. I h \<Longrightarrow> P h \<Longrightarrow> I (h @ [ReadAll fd])) \<Longrightarrow>
   (\<And>h s. P h \<Longrightarrow> os_read os (h @ [ReadAll fd]) = Inr s \<Longrightarrow> Q s (h @ [ReadAll fd])) \<Longrightarrow>
   keeps I P (read_call os fd) Q"
  by (auto simp: keeps_def call_eqs)

lemma keeps_std [io_rules]:
  "(\<And>h. I h \<Longrightarrow> P h \<Longrightarrow> I (h @ [c])) \<Longrightarrow>
   (\<And>h. P h \<Longrightarrow> os_io os (h @ [c]) = None \<Longrightarrow> Q () (h @ [c])) \<Longrightarrow> keeps I P (std_call os c) Q"
  by (auto simp: keeps_def call_eqs split: option.splits)

lemma keeps_canonicalize [io_rules]:
  "(\<And>h. I h \<Longrightarrow> P h \<Longrightarrow> I (h @ [Canonicalize p])) \<Longrightarrow>
   (\<And>h. P h \<Longrightarrow> Q (os_realpath os (h @ [Canonicalize p])) (h @ [Canonicalize p])) \<Longrightarrow>
   keeps I P (canonicalize os p) Q"
  by (auto simp: keeps_def call_eqs)

lemma keeps_if [io_rules]:
  "(b \<Longrightarrow> keeps I P m Q) \<Longrightarrow> (\<not> b \<Longrightarrow> keeps I P m' Q) \<Longrightarrow> keeps I P (if b then m else m') Q"
  by simp

end
