(* ===== verification/Files.thy ===== *)
theory Files
  imports Os_Calls Agent
begin

text \<open>
  The file tools `read_file`, `write_file` and `edit_file` of `crates/tools/src/files.rs`, with the
  trusted spellings of the workspace of `workspace.rs`.  A relative path that has been checked is
  the list of its names.  The locks that order concurrent edits are modelled in Edit_Locks; here
  the rounds of the loop in `edit` that find the file replaced are bounded by an argument.
\<close>

section \<open>Configuration\<close>

text \<open>`FileConfig`\<close>

record file_config =
  fc_root_aliases :: "string list"
  fc_lines :: u64
  fc_max_bytes :: u64
  fc_line_chars :: u64

definition file_config_default :: file_config where
  "file_config_default = \<lparr>fc_root_aliases = [], fc_lines = 2000, fc_max_bytes = 4 * 1024 * 1024,
     fc_line_chars = 2000\<rparr>"

definition file_spec :: "string \<Rightarrow> string \<Rightarrow> json \<Rightarrow> json \<Rightarrow> bool \<Rightarrow> tool_spec" where
  "file_spec name description properties required large_input =
     \<lparr>ts_name = name, ts_description = description,
      ts_input_schema = jobj [(''type'', JStr ''object''), (''properties'', properties),
        (''required'', required), (''additionalProperties'', JBool False)],
      ts_large_input = large_input\<rparr>"

definition path_property :: "string \<times> json" where
  "path_property = (''path'', jobj [(''type'', JStr ''string''), (''description'',
     JStr ''Path relative to the workspace. Absolute paths must be inside the workspace.'')])"

definition typed :: "string \<Rightarrow> json" where
  "typed t = jobj [(''type'', JStr t)]"

definition read_file_spec :: tool_spec where
  "read_file_spec = file_spec ''read_file''
     ''Read UTF-8 text with 1-based line numbers and bounded input. Offset is a 1-based line number.''
     (jobj [path_property, (''offset'', typed ''integer''), (''limit'', typed ''integer'')])
     (JArr [JStr ''path'']) False"

definition write_file_spec :: tool_spec where
  "write_file_spec = file_spec ''write_file''
     ''Atomically write UTF-8 contents, creating parent directories.''
     (jobj [path_property, (''content'', typed ''string'')])
     (JArr [JStr ''path'', JStr ''content'']) True"

definition edit_file_spec :: tool_spec where
  "edit_file_spec = file_spec ''edit_file''
     ''Replace an exact nonempty match, exactly once unless replace_all is true.''
     (jobj [path_property, (''old'', typed ''string''), (''new'', typed ''string''),
       (''replace_all'', typed ''boolean'')])
     (JArr [JStr ''path'', JStr ''old'', JStr ''new'']) True"

section \<open>Trusted spellings of the workspace\<close>

text \<open>`PathBuf::push` of a name and `PathBuf::pop`, on the path as a string.\<close>

definition path_pop :: "string \<Rightarrow> string" where
  "path_pop p = (let cs = components p in
     if cs = [] \<or> last cs = RootDir then p
     else let trimmed = rev (dropWhile (\<lambda>c. c = CHR ''/'') (rev p));
              dir = rev (dropWhile (\<lambda>c. c \<noteq> CHR ''/'') (rev trimmed));
              base = rev (dropWhile (\<lambda>c. c = CHR ''/'') (rev dir))
          in if base = [] \<and> prefix ''/'' p then ''/'' else base)"

definition component_text :: "component \<Rightarrow> string" where
  "component_text c = (case c of RootDir \<Rightarrow> ''/'' | CurDir \<Rightarrow> ''.'' | ParentDir \<Rightarrow> ''..'' | Normal n \<Rightarrow> n)"

fun normalize_from :: "string \<Rightarrow> component list \<Rightarrow> string" where
  "normalize_from acc [] = acc"
| "normalize_from acc (c # cs) = normalize_from
     (case c of CurDir \<Rightarrow> acc | ParentDir \<Rightarrow> path_pop acc | _ \<Rightarrow> path_join acc (component_text c)) cs"

definition normalize :: "string \<Rightarrow> string" where
  "normalize p = normalize_from [] (components p)"

definition known_path :: "string list \<Rightarrow> string \<Rightarrow> bool" where
  "known_path aliases p \<longleftrightarrow> list_ex (\<lambda>a. same_path a p) aliases"

text \<open>Whether a path resolves to the canonical root.\<close>

definition resolves_to :: "os \<Rightarrow> string \<Rightarrow> string \<Rightarrow> bool io" where
  "resolves_to os cwd p = io_bind (canonicalize os p) (\<lambda>r. io_return
     (case r of Inr c \<Rightarrow> same_path c cwd | Inl _ \<Rightarrow> False))"

fun add_candidates :: "os \<Rightarrow> string \<Rightarrow> string list \<Rightarrow> string list \<Rightarrow> string list io" where
  "add_candidates os cwd aliases [] = io_return aliases"
| "add_candidates os cwd aliases (c # cs) =
     (if \<not> is_absolute c then add_candidates os cwd aliases cs
      else io_bind (resolves_to os cwd c) (\<lambda>valid.
        add_candidates os cwd (if valid \<and> \<not> known_path aliases c then aliases @ [c] else aliases) cs))"

text \<open>The shorter spelling of `/private/...`; `suffix` joined to `/`.\<close>

definition rest_path :: "component list \<Rightarrow> string" where
  "rest_path cs = foldl (\<lambda>p c. path_join p (component_text c)) [] cs"

fun add_shorter :: "os \<Rightarrow> string \<Rightarrow> string list \<Rightarrow> string list \<Rightarrow> string list io" where
  "add_shorter os cwd aliases [] = io_return aliases"
| "add_shorter os cwd aliases (a # as) =
     (case strip_path ''/private'' (components a) of
        None \<Rightarrow> add_shorter os cwd aliases as
      | Some rest \<Rightarrow>
          (let short = path_join ''/'' (rest_path rest)
           in io_bind (resolves_to os cwd short) (\<lambda>valid.
                add_shorter os cwd
                  (if valid \<and> \<not> known_path aliases short then aliases @ [short] else aliases) as)))"

text \<open>Whether the shell's `pwd` names the current directory.\<close>

definition logical_cwd :: "os \<Rightarrow> string \<Rightarrow> string option \<Rightarrow> string option io" where
  "logical_cwd os current_dir pwd = (case pwd of
       None \<Rightarrow> io_return None
     | Some p \<Rightarrow>
         if \<not> is_absolute p then io_return None
         else io_bind (canonicalize os p) (\<lambda>a. io_bind (canonicalize os current_dir) (\<lambda>b.
           io_return (case (a, b) of (Inr x, Inr y) \<Rightarrow> if same_path x y then Some p else None
                      | _ \<Rightarrow> None))))"

definition workspace_root_aliases ::
    "os \<Rightarrow> string \<Rightarrow> string option \<Rightarrow> string \<Rightarrow> string option \<Rightarrow> string list io" where
  "workspace_root_aliases os cwd cd current_dir pwd =
     io_bind (logical_cwd os current_dir pwd) (\<lambda>logical.
       let candidates = (case cd of
             Some cd \<Rightarrow> map (\<lambda>base. normalize (path_join base cd))
               (current_dir # (if is_absolute cd then [] else case logical of Some p \<Rightarrow> [p] | None \<Rightarrow> []))
           | None \<Rightarrow> (case pwd of Some p \<Rightarrow> if is_absolute p then [p] else [] | None \<Rightarrow> []))
       in io_bind (add_candidates os cwd [cwd] candidates) (\<lambda>aliases.
            add_shorter os cwd aliases aliases))"

section \<open>Paths given by the model\<close>

text \<open>Whether a spelling that the path starts with still names the root: the runtime cwd and its
  canonical form do, an alias is resolved again.\<close>

definition spelling_valid :: "os \<Rightarrow> string \<Rightarrow> string \<Rightarrow> string \<Rightarrow> bool io" where
  "spelling_valid os cwd canonical alias =
     (if same_path alias cwd \<or> same_path alias canonical then io_return True
      else resolves_to os canonical alias)"

text \<open>The chain of `filter_map`, `filter` and `max_by_key`: whether a spelling was stale, and the
  valid one with the most components, the last of several, with the rest of the path.\<close>

fun best_spelling :: "os \<Rightarrow> string \<Rightarrow> string \<Rightarrow> component list \<Rightarrow> string list
    \<Rightarrow> bool \<Rightarrow> (nat \<times> component list) option \<Rightarrow> (bool \<times> (nat \<times> component list) option) io" where
  "best_spelling os cwd canonical cs [] stale best = io_return (stale, best)"
| "best_spelling os cwd canonical cs (a # as) stale best =
     (case strip_path a cs of
        None \<Rightarrow> best_spelling os cwd canonical cs as stale best
      | Some rest \<Rightarrow> io_bind (spelling_valid os cwd canonical a) (\<lambda>valid.
          if \<not> valid then best_spelling os cwd canonical cs as True best
          else best_spelling os cwd canonical cs as stale
            (let n = length (components a) in
             case best of
               None \<Rightarrow> Some (n, rest)
             | Some (m, r) \<Rightarrow> if m \<le> n then Some (n, rest) else best)))"

definition inside_root :: "os \<Rightarrow> string \<Rightarrow> string list \<Rightarrow> string \<Rightarrow> component list io" where
  "inside_root os cwd aliases p =
     (if \<not> is_absolute p then io_return (components p)
      else io_bind (canonicalize os cwd) (\<lambda>r. io_bind (io_lift r) (\<lambda>canonical.
        let aliases = (case aliases of
              a # _ \<Rightarrow> if same_path a canonical then aliases else [] | [] \<Rightarrow> [])
        in io_bind (best_spelling os cwd canonical (components p) (aliases @ [cwd, canonical]) False None)
             (\<lambda>(stale, best). case best of
                Some (_, rest) \<Rightarrow> io_return rest
              | None \<Rightarrow> io_fail (if stale
                  then ''workspace alias no longer refers to the workspace root''
                  else ''absolute path must be inside the workspace root'')))))"

text \<open>The names of the relative path: no component climbs above the root.\<close>

fun relative_names :: "string list \<Rightarrow> component list \<Rightarrow> string + string list" where
  "relative_names acc [] = Inr acc"
| "relative_names acc (c # cs) =
     (case c of
        Normal n \<Rightarrow> relative_names (acc @ [n]) cs
      | CurDir \<Rightarrow> relative_names acc cs
      | ParentDir \<Rightarrow> if acc \<noteq> [] then relative_names (butlast acc) cs
                     else Inl ''path must remain relative to the workspace root''
      | RootDir \<Rightarrow> Inl ''path must remain relative to the workspace root'')"

definition checked_path :: "os \<Rightarrow> json \<Rightarrow> string \<Rightarrow> string list \<Rightarrow> string list io" where
  "checked_path os input cwd aliases =
     (case as_str (jindex input ''path'') of
        None \<Rightarrow> io_fail ''missing path''
      | Some p \<Rightarrow> io_bind (inside_root os cwd aliases p) (\<lambda>cs.
          io_bind (io_lift (relative_names [] cs)) (\<lambda>names.
            if names = [] then io_fail ''path must name a file'' else io_return names)))"

section \<open>Directories and files\<close>

text \<open>`parent`: each directory is opened from the one before it, one name at a time.\<close>

definition DIR_FLAGS :: "oflag list" where
  "DIR_FLAGS = [O_RDONLY, O_DIRECTORY, O_CLOEXEC, O_NOFOLLOW]"

definition make_dir :: "os \<Rightarrow> nat \<Rightarrow> string \<Rightarrow> unit io" where
  "make_dir os dir name = io_bind (io_call (MkdirAt dir name 0x1ED) (os_nix os)) (\<lambda>r. case r of
     None \<Rightarrow> io_return ()
   | Some e \<Rightarrow> if e = EEXIST then io_return () else io_fail (os_errno_text os e))"

fun descend :: "os \<Rightarrow> bool \<Rightarrow> nat \<Rightarrow> string list \<Rightarrow> nat io" where
  "descend os create dir [] = io_return dir"
| "descend os create dir (name # names) =
     io_bind (if create then make_dir os dir name else io_return ()) (\<lambda>_.
       io_bind (open_call os (OpenAt dir name DIR_FLAGS 0)) (\<lambda>d. descend os create d names))"

definition parent_dir :: "os \<Rightarrow> string \<Rightarrow> string list \<Rightarrow> bool \<Rightarrow> nat io" where
  "parent_dir os cwd names create =
     io_bind (canonicalize os cwd) (\<lambda>r. io_bind (io_lift r) (\<lambda>canonical.
       io_bind (open_call os (Open canonical DIR_FLAGS)) (\<lambda>d.
         descend os create d (butlast names))))"

text \<open>`regular`: the file type bits of the mode are `S_IFREG`.\<close>

unbundle bit_operations_syntax

definition regular_mode :: "u32 \<Rightarrow> bool" where
  "regular_mode mode \<longleftrightarrow> mode AND 0xF000 = 0x8000"

definition permissions :: "u32 \<Rightarrow> u32" where
  "permissions mode = mode AND 0x1FF"


text \<open>`file_identity`: device and inode of a regular file.\<close>

type_synonym file_id = "u64 \<times> u64"

definition file_identity :: "os \<Rightarrow> nat \<Rightarrow> string \<Rightarrow> file_id io" where
  "file_identity os dir name = io_bind (stat_call os (StatAt dir name)) (\<lambda>st.
     io_bind (io_assert (regular_mode (st_mode st)) ''non-regular file refused'') (\<lambda>_.
       io_return (st_dev st, st_ino st)))"

text \<open>`read_file`: the type is checked before and after the file is opened.\<close>

definition READ_FLAGS :: "oflag list" where
  "READ_FLAGS = [O_RDONLY, O_CLOEXEC, O_NOFOLLOW, O_NONBLOCK]"

definition open_regular :: "os \<Rightarrow> nat \<Rightarrow> string \<Rightarrow> nat io" where
  "open_regular os dir name = io_bind (stat_call os (StatAt dir name)) (\<lambda>st.
     io_bind (io_assert (regular_mode (st_mode st)) ''non-regular file refused'') (\<lambda>_.
       io_bind (open_call os (OpenAt dir name READ_FLAGS 0)) (\<lambda>fd.
         io_bind (stat_call os (StatFd fd)) (\<lambda>st.
           io_bind (io_assert (regular_mode (st_mode st)) ''non-regular file refused'') (\<lambda>_.
             io_return fd)))))"

text \<open>`Uuid`'s text: 32 lower-case hexadecimal digits in groups of 8, 4, 4, 4 and 12.\<close>

definition hex_lower :: "nat \<Rightarrow> char" where
  "hex_lower n = char_of (if n < 10 then 48 + n else 87 + n)"

definition uuid_text :: "128 word \<Rightarrow> string" where
  "uuid_text u = (let ds = map (\<lambda>i. hex_lower (unat (take_bit 4 (drop_bit (4 * (31 - i)) u)))) [0..<32]
     in take 8 ds @ ''-'' @ take 4 (drop 8 ds) @ ''-'' @ take 4 (drop 12 ds) @ ''-''
        @ take 4 (drop 16 ds) @ ''-'' @ drop 20 ds)"

text \<open>`atomic_write`.  The temporary file is removed whenever it was created, by the drop of
  `Cleanup`; its failure is ignored.\<close>

definition write_mode :: "os \<Rightarrow> nat \<Rightarrow> string \<Rightarrow> u32 io" where
  "write_mode os dir name = io_bind (io_call (StatAt dir name) (os_stat os)) (\<lambda>r. case r of
     Inr st \<Rightarrow> io_bind (io_assert (regular_mode (st_mode st)) ''non-regular file refused'')
       (\<lambda>_. io_return (permissions (st_mode st)))
   | Inl e \<Rightarrow> if e = ENOENT then io_return 0x180 else io_fail (os_errno_text os e))"

definition TMP_FLAGS :: "oflag list" where
  "TMP_FLAGS = [O_WRONLY, O_CREAT, O_EXCL, O_NOFOLLOW, O_CLOEXEC]"

definition publish :: "os \<Rightarrow> nat \<Rightarrow> string \<Rightarrow> string \<Rightarrow> nat \<Rightarrow> u32 \<Rightarrow> string \<Rightarrow> unit io" where
  "publish os dir tmp name fd mode content =
     io_bind (std_call os (WriteAll fd content)) (\<lambda>_.
       io_bind (std_call os (Flush fd)) (\<lambda>_.
         io_bind (nix_call os (Chmod fd mode)) (\<lambda>_.
           nix_call os (RenameAt dir tmp name))))"

definition with_cleanup :: "os \<Rightarrow> nat \<Rightarrow> string \<Rightarrow> 'a io \<Rightarrow> 'a io" where
  "with_cleanup os dir tmp m h = (case m h of (r, h') \<Rightarrow> (r, h' @ [UnlinkAt dir tmp]))"

definition atomic_write :: "os \<Rightarrow> nat \<Rightarrow> string \<Rightarrow> string \<Rightarrow> unit io" where
  "atomic_write os dir name content = io_bind (write_mode os dir name) (\<lambda>mode h.
     let tmp = ''.kyora-'' @ uuid_text (os_uuid os h)
     in io_bind (open_call os (OpenAt dir tmp TMP_FLAGS 0x180)) (\<lambda>fd.
          with_cleanup os dir tmp (publish os dir tmp name fd mode content)) h)"

section \<open>The tools\<close>

text \<open>`ReadFile::read`.  `usize` has 64 bits, so the conversions of `offset` and `limit` succeed.\<close>

definition u64_field :: "json \<Rightarrow> string \<Rightarrow> u64 \<Rightarrow> string + u64" where
  "u64_field input key absent = (case jget input key of
       None \<Rightarrow> Inr absent
     | Some v \<Rightarrow> (case as_u64 v of Some n \<Rightarrow> Inr n | None \<Rightarrow> Inl (key @ '' must be positive'')))"

text \<open>The text of the bytes: a clipped read may end inside a character, which is dropped.\<close>

definition clipped_text :: "bool \<Rightarrow> string \<Rightarrow> string + string" where
  "clipped_text clipped bytes =
     (if CHR 0x00 \<in> set bytes then Inl ''binary file refused''
      else case utf8_error bytes of
        None \<Rightarrow> Inr bytes
      | Some (valid, ended) \<Rightarrow>
          if clipped \<and> ended then Inr (take valid bytes)
          else Inl ''binary or non-UTF-8 file refused'')"

definition numbered_line :: "nat \<Rightarrow> nat \<times> string \<Rightarrow> string" where
  "numbered_line line_chars p = (case p of (i, line) \<Rightarrow>
     show_nat (i + 1) @ '': '' @ truncate_text line line_chars @ [CHR 0x0A])"

definition listing :: "nat \<Rightarrow> nat \<Rightarrow> nat \<Rightarrow> bool \<Rightarrow> string \<Rightarrow> string" where
  "listing offset limit line_chars clipped text =
     concat (map (numbered_line line_chars)
       (take limit (drop (offset - 1) (List.enumerate 0 (str_lines text)))))
     @ (if clipped then ''[read byte limit reached]'' @ [CHR 0x0A] else [])"

definition read_text :: "os \<Rightarrow> file_config \<Rightarrow> json \<Rightarrow> string \<Rightarrow> string io" where
  "read_text os cfg input cwd =
     io_bind (io_lift (u64_field input ''offset'' 1)) (\<lambda>offset.
     io_bind (io_lift (u64_field input ''limit'' (fc_lines cfg))) (\<lambda>limit.
     io_bind (io_assert (\<not> (offset = 0 \<or> limit = 0 \<or> fc_max_bytes cfg = 0 \<or> fc_line_chars cfg = 0))
       ''file bounds must be positive'') (\<lambda>_.
     io_bind (checked_path os input cwd (fc_root_aliases cfg)) (\<lambda>names.
     io_bind (parent_dir os cwd names False) (\<lambda>dir.
     io_bind (open_regular os dir (last names)) (\<lambda>fd.
     io_bind (read_call os fd) (\<lambda>content.
       let bytes = take (unat (fc_max_bytes cfg + 1)) content;
           clipped = unat (fc_max_bytes cfg) < length bytes
       in io_bind (io_lift (clipped_text clipped (take (unat (fc_max_bytes cfg)) bytes))) (\<lambda>content.
            io_return (listing (unat offset) (unat limit) (unat (fc_line_chars cfg)) clipped content)))))))))"

text \<open>`WriteFile::call`\<close>

definition write_text :: "os \<Rightarrow> file_config \<Rightarrow> json \<Rightarrow> string \<Rightarrow> string io" where
  "write_text os cfg input cwd =
     io_bind (checked_path os input cwd (fc_root_aliases cfg)) (\<lambda>names.
     io_bind (parent_dir os cwd names True) (\<lambda>dir.
       case as_str (jindex input ''content'') of
         None \<Rightarrow> io_fail ''missing content''
       | Some content \<Rightarrow> io_bind (atomic_write os dir (last names) content) (\<lambda>_.
           io_return (''wrote '' @ show_nat (length content) @ '' bytes''))))"

text \<open>`str::matches(old).count()`: non-overlapping occurrences from the left.\<close>

function count_matches :: "string \<Rightarrow> string \<Rightarrow> nat" where
  "count_matches p s =
     (if p = [] \<or> s = [] then 0
      else if prefix p s then 1 + count_matches p (drop (length p) s)
      else count_matches p (tl s))"
  by pat_completeness auto

termination count_matches
  by (relation "measure (\<lambda>(p, s). length s)") auto

declare count_matches.simps [simp del]

text \<open>What an edit makes of the content it read.\<close>

definition edit_content :: "json \<Rightarrow> string \<Rightarrow> string \<Rightarrow> string \<Rightarrow> string + string" where
  "edit_content input old new content =
     (let count = count_matches old content
      in if count = 0 \<or> count \<noteq> 1 \<and> jindex input ''replace_all'' \<noteq> JBool True
         then Inl (''expected exactly one match, found '' @ show_nat count)
         else Inr (str_replace old new content))"

text \<open>The part of a round under the lock of the file, once its identity has been confirmed.\<close>

definition edit_locked :: "os \<Rightarrow> json \<Rightarrow> nat \<Rightarrow> string \<Rightarrow> string io" where
  "edit_locked os input dir name =
     (case (as_str (jindex input ''old''), as_str (jindex input ''new'')) of
        (None, _) \<Rightarrow> io_fail ''missing old''
      | (_, None) \<Rightarrow> io_fail ''missing new''
      | (Some old, Some new) \<Rightarrow>
          io_bind (io_assert (old \<noteq> []) ''old must not be empty'') (\<lambda>_.
          io_bind (open_regular os dir name) (\<lambda>fd.
          io_bind (read_call os fd) (\<lambda>content.
          io_bind (io_assert (utf8_valid content) ''stream did not contain valid UTF-8'') (\<lambda>_.
          io_bind (io_lift (edit_content input old new content)) (\<lambda>replaced.
          io_bind (atomic_write os dir name replaced) (\<lambda>_.
          io_bind (file_identity os dir name) (\<lambda>_.
            io_return (''replaced '' @ show_nat (count_matches old content) @ '' matches'')))))))))"

text \<open>The loop of `edit`; None when every one of `rounds` rounds found the file replaced.\<close>

fun edit_loop :: "os \<Rightarrow> json \<Rightarrow> nat \<Rightarrow> string \<Rightarrow> nat \<Rightarrow> string option io" where
  "edit_loop os input dir name 0 = io_return None"
| "edit_loop os input dir name (Suc rounds) =
     io_bind (file_identity os dir name) (\<lambda>identity.
     io_bind (file_identity os dir name) (\<lambda>confirmed.
       if confirmed \<noteq> identity then edit_loop os input dir name rounds
       else io_bind (edit_locked os input dir name) (\<lambda>r. io_return (Some r))))"

definition edit_text :: "os \<Rightarrow> file_config \<Rightarrow> json \<Rightarrow> string \<Rightarrow> nat \<Rightarrow> string option io" where
  "edit_text os cfg input cwd rounds =
     io_bind (checked_path os input cwd (fc_root_aliases cfg)) (\<lambda>names.
     io_bind (parent_dir os cwd names False) (\<lambda>dir.
       edit_loop os input dir (last names) rounds))"

section \<open>Blocking work\<close>

text \<open>`blocking_work`: what it sees of cancellation and deadline before the work is queued, in the
  worker thread, and while it waits for a read; `bw_join` is the error of a task that the runtime
  dropped before it began.\<close>

record blocking_env =
  bw_stopped_before :: bool
  bw_stopped_in_worker :: bool
  bw_stopped_waiting :: bool
  bw_join :: "string option"

definition text_output :: "string \<Rightarrow> tool_output" where
  "text_output t = \<lparr>ou_content = [PartText t], ou_is_error = False, ou_final = None\<rparr>"

definition output_of :: "string + string \<Rightarrow> tool_output" where
  "output_of r = (case r of Inr s \<Rightarrow> text_output s | Inl e \<Rightarrow> error_output e)"

definition blocking_work :: "blocking_env \<Rightarrow> bool \<Rightarrow> string io \<Rightarrow> os_call list \<Rightarrow> tool_output \<times> os_call list" where
  "blocking_work ev mutating work h =
     (if bw_stopped_before ev then (error_output ''cancelled'', h)
      else case bw_join ev of
        Some e \<Rightarrow> (if \<not> mutating \<and> bw_stopped_waiting ev then error_output ''cancelled'' else error_output e, h)
      | None \<Rightarrow>
          (case (if bw_stopped_in_worker ev then (Inl ''cancelled'', h) else work h) of
             (r, h') \<Rightarrow> (if \<not> mutating \<and> bw_stopped_waiting ev then error_output ''cancelled''
                        else output_of r, h')))"

definition read_file_call :: "os \<Rightarrow> file_config \<Rightarrow> blocking_env \<Rightarrow> json \<Rightarrow> string \<Rightarrow> tool_output \<times> os_call list" where
  "read_file_call os cfg ev input cwd = blocking_work ev False (read_text os cfg input cwd) []"

definition write_file_call :: "os \<Rightarrow> file_config \<Rightarrow> blocking_env \<Rightarrow> json \<Rightarrow> string \<Rightarrow> tool_output \<times> os_call list" where
  "write_file_call os cfg ev input cwd = blocking_work ev True (write_text os cfg input cwd) []"


text \<open>`EditFile::call`; None when the rounds do not suffice.\<close>

definition edit_file_call :: "os \<Rightarrow> file_config \<Rightarrow> blocking_env \<Rightarrow> json \<Rightarrow> string \<Rightarrow> nat
    \<Rightarrow> (tool_output \<times> os_call list) option" where
  "edit_file_call os cfg ev input cwd rounds =
     (if fst (edit_text os cfg input cwd rounds []) = Inr None then None
      else Some (blocking_work ev True
        (io_bind (edit_text os cfg input cwd rounds) (\<lambda>r. io_return (the r))) []))"

end
