(* ===== verification/Files_Props.thy ===== *)
theory Files_Props
  imports Files
begin

text \<open>
  What the file tools promise whatever the operating system answers: every call they make stays
  below the workspace root, and an edit publishes exactly the replacement of what it read, or
  nothing.
\<close>

section \<open>Histories that stay below the root\<close>

definition opened :: "(oflag list \<Rightarrow> bool) \<Rightarrow> os_call list \<Rightarrow> nat \<Rightarrow> bool" where
  "opened F h d \<longleftrightarrow> d < length h \<and>
     (case h ! d of Open p fl \<Rightarrow> F fl | OpenAt b n fl m \<Rightarrow> F fl | _ \<Rightarrow> False)"

abbreviation dir_fd :: "os_call list \<Rightarrow> nat \<Rightarrow> bool" where
  "dir_fd \<equiv> opened (\<lambda>fl. O_DIRECTORY \<in> set fl)"

abbreviation file_fd :: "os_call list \<Rightarrow> nat \<Rightarrow> bool" where
  "file_fd \<equiv> opened (\<lambda>fl. O_DIRECTORY \<notin> set fl)"

text \<open>A path that the history resolved the working directory to.\<close>

definition resolved :: "os \<Rightarrow> string \<Rightarrow> os_call list \<Rightarrow> string \<Rightarrow> bool" where
  "resolved os cwd h p \<longleftrightarrow> (\<exists>i < length h. h ! i = Canonicalize cwd
     \<and> os_realpath os (take (Suc i) h) = Inr p)"

text \<open>Only the working directory and the trusted aliases are resolved; only the resolved working
  directory is opened by path; everything else is looked up by the name of an entry in a
  directory opened before, never through a symbolic link.\<close>

definition confined_call :: "os \<Rightarrow> string \<Rightarrow> string list \<Rightarrow> os_call list \<Rightarrow> os_call \<Rightarrow> bool" where
  "confined_call os cwd aliases h c = (case c of
       Canonicalize p \<Rightarrow> p = cwd \<or> p \<in> set aliases
     | Open p fl \<Rightarrow> resolved os cwd h p \<and> O_NOFOLLOW \<in> set fl
     | OpenAt d n fl m \<Rightarrow> dir_fd h d \<and> entry_name n \<and> O_NOFOLLOW \<in> set fl
     | MkdirAt d n m \<Rightarrow> dir_fd h d \<and> entry_name n
     | StatAt d n \<Rightarrow> dir_fd h d \<and> entry_name n
     | RenameAt d n n' \<Rightarrow> dir_fd h d \<and> entry_name n \<and> entry_name n'
     | UnlinkAt d n \<Rightarrow> dir_fd h d \<and> entry_name n
     | StatFd f \<Rightarrow> file_fd h f
     | ReadAll f \<Rightarrow> file_fd h f
     | WriteAll f content \<Rightarrow> file_fd h f
     | Flush f \<Rightarrow> file_fd h f
     | Chmod f m \<Rightarrow> file_fd h f)"

definition confined :: "os \<Rightarrow> string \<Rightarrow> string list \<Rightarrow> os_call list \<Rightarrow> bool" where
  "confined os cwd aliases h \<longleftrightarrow> (\<forall>i < length h. confined_call os cwd aliases (take i h) (h ! i))"

lemma confined_Nil [simp]: "confined os cwd aliases []"
  by (simp add: confined_def)

lemma confined_snoc [simp]:
  "confined os cwd aliases (h @ [c]) \<longleftrightarrow> confined os cwd aliases h \<and> confined_call os cwd aliases h c"
  by (auto simp: confined_def nth_append less_Suc_eq)

lemma opened_last [simp]: "opened F (h @ [Open p fl]) (length h) \<longleftrightarrow> F fl"
  "opened F (h @ [OpenAt d n fl m]) (length h) \<longleftrightarrow> F fl"
  by (simp_all add: opened_def)

lemma lasting_opened [io_rules]: "lasting (\<lambda>h. opened F h d)"
proof (rule lastingI)
  fix h h' assume "prefix h h'" "opened F h d"
  then show "opened F h' d" by (auto simp: opened_def prefix_def nth_append)
qed

lemma lasting_resolved [io_rules]: "lasting (\<lambda>h. resolved os cwd h p)"
proof (rule lastingI)
  fix h h' assume "prefix h h'" "resolved os cwd h p"
  then obtain i s where "h' = h @ s" "i < length h" "h ! i = Canonicalize cwd"
    "os_realpath os (take (Suc i) h) = Inr p" by (auto simp: resolved_def prefix_def)
  then show "resolved os cwd h' p"
    unfolding resolved_def by (intro exI [of _ i]) (simp add: nth_append)
qed

lemma resolved_last: "resolved os cwd (h @ [Canonicalize cwd]) p"
  if "os_realpath os (h @ [Canonicalize cwd]) = Inr p"
  unfolding resolved_def using that by (intro exI [of _ "length h"]) simp

section \<open>Names\<close>

lemma split_char_clean: "s \<in> set (split_char c t) \<Longrightarrow> c \<notin> set s"
  by (induction c t arbitrary: s rule: split_char.induct) (auto split: if_splits list.splits)

definition good_components :: "component list \<Rightarrow> bool" where
  "good_components cs \<longleftrightarrow> (\<forall>n. Normal n \<in> set cs \<longrightarrow> entry_name n)"

lemma good_components_components [simp]: "good_components (components p)"
  using split_char_clean [of _ "CHR ''/''" p]
  by (auto simp: good_components_def components_def Let_def entry_name_def split: if_splits)

lemma good_components_drop: "good_components cs \<Longrightarrow> good_components (drop n cs)"
  using set_drop_subset [of n cs] by (auto simp: good_components_def)

lemma relative_names_entries:
  "relative_names acc cs = Inr names \<Longrightarrow> good_components cs \<Longrightarrow> list_all entry_name acc
    \<Longrightarrow> list_all entry_name names"
proof (induction acc cs rule: relative_names.induct)
  case (2 acc c cs)
  have "good_components cs" using 2(5) by (simp add: good_components_def)
  moreover have "list_all entry_name (butlast acc)"
    using 2(6) by (auto simp: list_all_iff dest: in_set_butlastD)
  moreover have "entry_name n" if "c = Normal n" for n using 2(5) that by (simp add: good_components_def)
  ultimately show ?case using 2 by (cases c) (auto split: if_splits)
qed simp

lemma uuid_groups: "c \<in> set (take 8 ds @ ''-'' @ take 4 (drop 8 ds) @ ''-'' @ take 4 (drop 12 ds) @ ''-''
    @ take 4 (drop 16 ds) @ ''-'' @ drop 20 ds) \<Longrightarrow> c \<in> set ds \<or> c = CHR ''-''"
  by (auto dest: in_set_takeD in_set_dropD)

lemma uuid_text_chars: "c \<in> set (uuid_text u) \<Longrightarrow> c \<noteq> CHR ''/''"
proof -
  have "hex_lower n \<noteq> CHR ''/''" if "n < 16" for n
  proof
    assume "hex_lower n = CHR ''/''"
    then have "(of_char (hex_lower n) :: nat) = 47" by simp
    moreover have "(of_char (hex_lower n) :: nat) = (if n < 10 then 48 + n else 87 + n)"
      using that by (simp add: hex_lower_def)
    ultimately show False by presburger
  qed
  moreover have "unat (take_bit 4 (w :: 128 word)) < 16" for w
  proof -
    have "unat (take_bit 4 w) = take_bit 4 (unat w)" by (rule unsigned_take_bit_eq)
    then show ?thesis using take_bit_nat_less_exp [of 4 "unat w"] by simp
  qed
  ultimately have "\<forall>d \<in> set (map (\<lambda>i. hex_lower (unat (take_bit 4 (drop_bit (4 * (31 - i)) u)))) [0..<32]).
      d \<noteq> CHR ''/''" by (simp only: set_map ball_simps) blast
  moreover assume "c \<in> set (uuid_text u)"
  then have "c \<in> set (map (\<lambda>i. hex_lower (unat (take_bit 4 (drop_bit (4 * (31 - i)) u)))) [0..<32])
      \<or> c = CHR ''-''"
    unfolding uuid_text_def Let_def by (rule uuid_groups)
  moreover have "CHR ''-'' \<noteq> CHR ''/''" by simp
  ultimately show ?thesis by blast
qed

lemma tmp_entry [simp]: "entry_name (''.kyora-'' @ uuid_text u)"
  using uuid_text_chars [of _ u] by (auto simp: entry_name_def)


section \<open>Every operation stays below the root\<close>

lemma same_spelling: "spelling_valid os cwd canonical a = io_return True \<or> (a \<noteq> cwd \<and> a \<noteq> canonical
    \<and> spelling_valid os cwd canonical a = resolves_to os canonical a)"
  by (auto simp: spelling_valid_def same_path_def)

lemma confined_resolves:
  "p = cwd \<or> p \<in> set aliases \<Longrightarrow>
   keeps (confined os cwd aliases) P (resolves_to os canon p) (\<lambda>_ _. True)"
  unfolding resolves_to_def
  by (auto simp: keeps_def io_bind_def call_eqs io_return_def confined_call_def)

lemma confined_best_spelling:
  "set as \<subseteq> set aliases \<union> {cwd, canonical} \<Longrightarrow> good_components cs \<Longrightarrow>
   (\<And>n r. best = Some (n, r) \<Longrightarrow> good_components r) \<Longrightarrow>
   keeps (confined os cwd aliases) (\<lambda>_. True) (best_spelling os cwd canonical cs as stale best)
     (\<lambda>(st, b) h. \<forall>n r. b = Some (n, r) \<longrightarrow> good_components r)"
proof (induction as arbitrary: stale best)
  case (Cons a as)
  have sub: "set as \<subseteq> set aliases \<union> {cwd, canonical}" using Cons.prems(1) by simp
  show ?case
  proof (cases "strip_path a cs")
    case (Some rest)
    have rest: "good_components rest"
      using Some Cons.prems(2) by (auto simp: strip_path_def good_components_drop split: if_splits)
    have valid: "keeps (confined os cwd aliases) (\<lambda>_. True) (spelling_valid os cwd canonical a) (\<lambda>_ _. True)"
      using same_spelling [of os cwd canonical a] Cons.prems(1)
      by (auto intro: confined_resolves keeps_return)
    show ?thesis
      unfolding best_spelling.simps Some option.case
      by (rule keeps_bind [OF valid])
        (auto intro!: io_rules keeps_weaken [OF Cons.IH [OF sub Cons.prems(2)]]
          simp: rest Cons.prems(3) Let_def split: option.splits if_splits)
  qed (simp add: Cons.IH [OF sub Cons.prems(2,3)])
next
  case Nil
  then show ?case unfolding best_spelling.simps by (intro keeps_return) simp
qed


lemma confined_root [io_rules]:
  "keeps (confined os cwd aliases) P (canonicalize os cwd)
     (\<lambda>r h. \<forall>canonical. r = Inr canonical \<longrightarrow> resolved os cwd h canonical)"
  by (rule keeps_canonicalize) (simp_all add: confined_call_def resolved_last)

lemma keeps_canonical:
  assumes "\<And>canonical. keeps (confined os cwd aliases) (\<lambda>_. True) (f canonical) Q"
  shows "keeps (confined os cwd aliases) (\<lambda>_. True)
    (io_bind (canonicalize os cwd) (\<lambda>r. io_bind (io_lift r) f)) Q"
  by (intro keeps_bind [OF keeps_canonicalize [where Q = "\<lambda>_ _. True"]]
      keeps_bind [OF keeps_lift [where Q = "\<lambda>_ _. True"]] io_rules)
    (simp_all add: confined_call_def assms keeps_weaken [OF assms])

lemma confined_inside_root:
  "keeps (confined os cwd aliases) (\<lambda>_. True) (inside_root os cwd aliases p)
     (\<lambda>cs h. good_components cs)"
proof (cases "is_absolute p")
  case True
  have best: "keeps (confined os cwd aliases) (\<lambda>_. True)
      (best_spelling os cwd canonical (components p) (as @ [cwd, canonical]) False None)
      (\<lambda>(st, b) h. \<forall>n r. b = Some (n, r) \<longrightarrow> good_components r)" if "set as \<subseteq> set aliases" for as canonical
    using that by (intro confined_best_spelling) auto
  have choice: "set (case aliases of [] \<Rightarrow> [] | a # x \<Rightarrow> if same_path a canonical then aliases else [])
      \<subseteq> set aliases" for canonical by (auto split: list.splits)
  show ?thesis
    unfolding inside_root_def Let_def not_not if_not_P [OF iffD2 [OF not_not True]]
    by (rule keeps_canonical, rule keeps_bind [OF best [OF choice]], rule lasting_const)
      (auto intro!: io_rules split: option.splits prod.splits)
next
  case False
  then show ?thesis unfolding inside_root_def by (auto intro: keeps_return)
qed

lemma confined_checked_path:
  "keeps (confined os cwd aliases) (\<lambda>_. True) (checked_path os input cwd aliases)
     (\<lambda>names h. names \<noteq> [] \<and> list_all entry_name names)"
  unfolding checked_path_def
  by (auto intro!: keeps_bind [OF confined_inside_root] keeps_bind [where Q = "\<lambda>names h. list_all entry_name names"]
      io_rules dest: relative_names_entries split: option.splits)


text \<open>Preconditions that hold a directory and the name of an entry of it.\<close>

abbreviation at_entry :: "nat \<Rightarrow> string \<Rightarrow> os_call list \<Rightarrow> bool" where
  "at_entry d n h \<equiv> dir_fd h d \<and> entry_name n"

lemma confined_make_dir:
  "keeps (confined os cwd aliases) (at_entry d n) (make_dir os d n) (\<lambda>_ h. True)"
  unfolding make_dir_def
  by (rule keeps_bind [OF keeps_call [where Q = "\<lambda>_ _. True"]])
    (auto intro!: io_rules simp: confined_call_def split: option.splits)

lemma confined_descend:
  "list_all entry_name names \<Longrightarrow>
   keeps (confined os cwd aliases) (\<lambda>h. dir_fd h d) (descend os create d names) (\<lambda>e h. dir_fd h e)"
proof (induction names arbitrary: d)
  case (Cons n names)
  have n: "entry_name n" and names: "list_all entry_name names" using Cons.prems by simp_all
  have mk: "keeps (confined os cwd aliases) (\<lambda>h. dir_fd h d)
      (if create then make_dir os d n else io_return ()) (\<lambda>_ _. True)"
    using n by (auto intro!: io_rules keeps_weaken [OF confined_make_dir])
  have op: "keeps (confined os cwd aliases) (\<lambda>h. dir_fd h d \<and> True)
      (open_call os (OpenAt d n DIR_FLAGS 0)) (\<lambda>e h. dir_fd h e)"
    using n by (intro keeps_open) (simp_all add: confined_call_def DIR_FLAGS_def)
  show ?case unfolding descend.simps
    by (rule keeps_bind [OF mk lasting_opened keeps_bind [OF op]])
      (auto intro!: io_rules keeps_weaken [OF Cons.IH [OF names]])
qed (auto intro: keeps_return)

lemma keeps_root:
  assumes "\<And>p. keeps (confined os cwd aliases) (\<lambda>h. resolved os cwd h p) (f p) Q"
  shows "keeps (confined os cwd aliases) (\<lambda>_. True)
    (io_bind (canonicalize os cwd) (\<lambda>r. io_bind (io_lift r) f)) Q"
proof (rule keeps_bind [OF confined_root lasting_const])
  fix r :: "string + string"
  show "keeps (confined os cwd aliases) (\<lambda>h. True \<and> (\<forall>p. r = Inr p \<longrightarrow> resolved os cwd h p))
      (io_bind (io_lift r) f) Q"
  proof (cases r)
    case (Inr p)
    then have "io_bind (io_lift r) f = f p" by (simp add: fun_eq_iff io_bind_def io_lift_def)
    then show ?thesis using Inr by (auto intro: keeps_weaken [OF assms])
  qed (simp add: keeps_def io_bind_def io_lift_def)
qed

lemma confined_parent:
  assumes "list_all entry_name names"
  shows "keeps (confined os cwd aliases) (\<lambda>_. True) (parent_dir os cwd names create) (\<lambda>d h. dir_fd h d)"
proof -
  have names: "list_all entry_name (butlast names)"
    using assms by (auto simp: list_all_iff dest: in_set_butlastD)
  have op: "keeps (confined os cwd aliases) (\<lambda>h. resolved os cwd h p) (open_call os (Open p DIR_FLAGS))
      (\<lambda>d h. dir_fd h d)" for p
    by (intro keeps_open) (simp_all add: confined_call_def DIR_FLAGS_def)
  show ?thesis unfolding parent_dir_def
    by (rule keeps_root, rule keeps_bind [OF op lasting_resolved])
      (auto intro!: keeps_weaken [OF confined_descend [OF names]])
qed


lemma confined_regular:
  "keeps (confined os cwd aliases) (at_entry d n) (open_regular os d n) (\<lambda>fd h. file_fd h fd)"
proof -
  have stat: "keeps (confined os cwd aliases) (at_entry d n) (stat_call os (StatAt d n)) (\<lambda>_ _. True)"
    by (intro keeps_stat) (simp_all add: confined_call_def)
  have op: "keeps (confined os cwd aliases) (at_entry d n)
      (open_call os (OpenAt d n READ_FLAGS 0)) (\<lambda>fd h. file_fd h fd)"
    by (intro keeps_open) (simp_all add: confined_call_def READ_FLAGS_def)
  have again: "keeps (confined os cwd aliases) (\<lambda>h. at_entry d n h \<and> file_fd h fd)
      (stat_call os (StatFd fd)) (\<lambda>_ h. file_fd h fd)" for fd
    using lasting_opened [of "\<lambda>fl. O_DIRECTORY \<notin> set fl" fd]
    by (intro keeps_stat) (auto simp: confined_call_def lasting_def prefix_def)
  show ?thesis unfolding open_regular_def
    by (rule keeps_bind [OF stat], (intro io_rules),
        rule keeps_bind [OF keeps_assert [where Q = "\<lambda>_ _. True"]], simp, (intro io_rules),
        rule keeps_bind [OF keeps_weaken [OF op]], blast, assumption, (intro io_rules),
        rule keeps_bind [OF keeps_weaken [OF again]], blast, assumption, (intro io_rules),
        rule keeps_bind [OF keeps_assert [where Q = "\<lambda>_ _. True"]], simp, (intro io_rules))
      (auto intro!: keeps_return)
qed

lemma confined_identity:
  "keeps (confined os cwd aliases) (at_entry d n) (file_identity os d n) (\<lambda>_ _. True)"
  unfolding file_identity_def
  by (rule keeps_bind [OF keeps_stat [where Q = "\<lambda>_ _. True"]])
    (auto intro!: io_rules keeps_bind [OF keeps_assert [where Q = "\<lambda>_ _. True"]] simp: confined_call_def)

lemma confined_publish:
  assumes "entry_name tmp"
  shows "keeps (confined os cwd aliases) (\<lambda>h. at_entry d n h \<and> file_fd h fd)
    (publish os d tmp n fd mode content) (\<lambda>_ _. True)"
  unfolding publish_def
  by (rule keeps_bind [OF keeps_std [where Q = "\<lambda>_ _. True"]], simp_all add: confined_call_def,
      (intro io_rules), rule keeps_bind [OF keeps_std [where Q = "\<lambda>_ _. True"]], simp_all add: confined_call_def,
      (intro io_rules), rule keeps_bind [OF keeps_nix [where Q = "\<lambda>_ _. True"]], simp_all add: confined_call_def,
      (intro io_rules), rule keeps_nix, simp_all add: confined_call_def assms)


lemma confined_cleanup:
  assumes "keeps (confined os cwd aliases) P m Q" "lasting P" "\<And>h. P h \<Longrightarrow> at_entry d tmp h"
  shows "keeps (confined os cwd aliases) P (with_cleanup os d tmp m) (\<lambda>_ _. True)"
proof (rule keepsI)
  fix h r h' assume h: "confined os cwd aliases h" "P h" "with_cleanup os d tmp m h = (r, h')"
  obtain h1 where m: "m h = (r, h1)" and h': "h' = h1 @ [UnlinkAt d tmp]"
    using h(3) by (auto simp: with_cleanup_def split: prod.splits)
  note M = keepsD [OF assms(1) h(1,2) m]
  have "P h1" using assms(2) M(2) h(2) unfolding lasting_def by blast
  then show "confined os cwd aliases h' \<and> prefix h h' \<and> (\<forall>a. r = Inr a \<longrightarrow> True)"
    using M(1,2) assms(3) [of h1] by (simp add: h' confined_call_def prefix_def) force
qed

lemma confined_atomic_write:
  "keeps (confined os cwd aliases) (at_entry d n) (atomic_write os d n content) (\<lambda>_ _. True)"
proof -
  have mode: "keeps (confined os cwd aliases) (at_entry d n) (write_mode os d n) (\<lambda>_ _. True)"
    unfolding write_mode_def
    by (rule keeps_bind [OF keeps_call [where Q = "\<lambda>_ _. True"]])
      (auto intro!: io_rules keeps_bind [OF keeps_assert [where Q = "\<lambda>_ _. True"]]
        simp: confined_call_def split: sum.splits)
  have op: "keeps (confined os cwd aliases) (at_entry d n)
      (open_call os (OpenAt d (''.kyora-'' @ uuid_text u) TMP_FLAGS 0x180)) (\<lambda>fd h. file_fd h fd)" for u
    by (intro keeps_open) (auto simp: confined_call_def TMP_FLAGS_def tmp_entry [simplified])
  have rest: "keeps (confined os cwd aliases) (\<lambda>h. at_entry d n h \<and> file_fd h fd)
      (with_cleanup os d (''.kyora-'' @ uuid_text u) (publish os d (''.kyora-'' @ uuid_text u) n fd m content))
      (\<lambda>_ _. True)" for u fd m
    by (rule confined_cleanup [OF confined_publish [OF tmp_entry]])
      (auto intro!: io_rules simp: tmp_entry [simplified])
  have body: "keeps (confined os cwd aliases) (at_entry d n)
      (\<lambda>h. let tmp = ''.kyora-'' @ uuid_text (os_uuid os h)
        in io_bind (open_call os (OpenAt d tmp TMP_FLAGS 0x180)) (\<lambda>fd.
          with_cleanup os d tmp (publish os d tmp n fd m content)) h) (\<lambda>_ _. True)" for m
  proof -
    have "keeps (confined os cwd aliases) (at_entry d n)
      (io_bind (open_call os (OpenAt d (''.kyora-'' @ uuid_text u) TMP_FLAGS 0x180)) (\<lambda>fd.
        with_cleanup os d (''.kyora-'' @ uuid_text u)
          (publish os d (''.kyora-'' @ uuid_text u) n fd m content))) (\<lambda>_ _. True)" for u
      by (rule keeps_bind [OF op _ rest]) (intro io_rules)
    then show ?thesis unfolding keeps_def Let_def by blast
  qed
  show ?thesis unfolding atomic_write_def
    by (rule keeps_bind [OF mode], (intro io_rules), rule keeps_weaken [OF body]) simp_all
qed

text \<open>The tools.\<close>

lemma confined_read_call:
  "keeps (confined os cwd aliases) (\<lambda>h. file_fd h fd) (read_call os fd) (\<lambda>_ _. True)"
  by (intro keeps_read) (simp_all add: confined_call_def)

lemma at_last: "names \<noteq> [] \<and> list_all entry_name names \<Longrightarrow> entry_name (last names)"
  by (auto simp: list_all_iff)

text \<open>Checking a path and opening its parent directory, then working there.\<close>

lemma confined_work:
  assumes "\<And>d n. entry_name n \<Longrightarrow>
    keeps (confined os cwd aliases) (at_entry d n) (f d n) (\<lambda>_ _. True)"
  shows "keeps (confined os cwd aliases) (\<lambda>_. True)
    (io_bind (checked_path os input cwd aliases) (\<lambda>names.
       io_bind (parent_dir os cwd names create) (\<lambda>d. f d (last names)))) (\<lambda>_ _. True)"
proof (rule keeps_bind [OF confined_checked_path lasting_const])
  fix names
  show "keeps (confined os cwd aliases) (\<lambda>h. True \<and> names \<noteq> [] \<and> list_all entry_name names)
    (io_bind (parent_dir os cwd names create) (\<lambda>d. f d (last names))) (\<lambda>_ _. True)"
  proof (cases "names \<noteq> [] \<and> list_all entry_name names")
    case True
    have "keeps (confined os cwd aliases) (\<lambda>_. True)
      (io_bind (parent_dir os cwd names create) (\<lambda>d. f d (last names))) (\<lambda>_ _. True)"
      by (rule keeps_bind [OF confined_parent lasting_const])
        (use True in \<open>auto intro!: keeps_weaken [OF assms [OF at_last]] simp: at_last\<close>)
    then show ?thesis by (rule keeps_weaken) simp_all
  qed (auto simp: keeps_def)
qed

lemma confined_read_text:
  "keeps (confined os cwd (fc_root_aliases cfg)) (\<lambda>_. True) (read_text os cfg input cwd) (\<lambda>_ _. True)"
proof -
  have work: "keeps (confined os cwd (fc_root_aliases cfg)) (at_entry d n)
      (io_bind (open_regular os d n) (\<lambda>fd. io_bind (read_call os fd) (\<lambda>s. io_bind (io_lift (g s)) (\<lambda>t. io_return (k s t)))))
      (\<lambda>_ _. True)" for d n and g :: "string \<Rightarrow> string + 'z" and k :: "string \<Rightarrow> 'z \<Rightarrow> string"
    by (rule keeps_bind [OF confined_regular], (intro io_rules),
        rule keeps_bind [OF keeps_weaken [OF confined_read_call]], blast, assumption, (intro io_rules),
        rule keeps_bind [OF keeps_lift [where Q = "\<lambda>_ _. True"]], simp, (intro io_rules))
      (auto intro: keeps_return)
  show ?thesis unfolding read_text_def Let_def
    by (rule keeps_bind [OF keeps_lift [where Q = "\<lambda>_ _. True"]], simp, (intro io_rules),
        rule keeps_bind [OF keeps_lift [where Q = "\<lambda>_ _. True"]], simp, (intro io_rules),
        rule keeps_bind [OF keeps_assert [where Q = "\<lambda>_ _. True"]], simp, (intro io_rules),
        rule keeps_weaken [OF confined_work [OF work]])
      simp_all
qed

lemma confined_write_text:
  "keeps (confined os cwd (fc_root_aliases cfg)) (\<lambda>_. True) (write_text os cfg input cwd) (\<lambda>_ _. True)"
proof -
  have work: "keeps (confined os cwd (fc_root_aliases cfg)) (at_entry d n)
      (case as_str (jindex input ''content'') of
         None \<Rightarrow> io_fail ''missing content''
       | Some content \<Rightarrow> io_bind (atomic_write os d n content) (\<lambda>_.
           io_return (''wrote '' @ show_nat (length content) @ '' bytes''))) (\<lambda>_ _. True)" for d n
    by (auto intro!: io_rules keeps_bind [OF confined_atomic_write] split: option.splits)
  show ?thesis unfolding write_text_def by (rule confined_work [OF work])
qed

lemma confined_edit_locked:
  "keeps (confined os cwd aliases) (at_entry d n) (edit_locked os input d n) (\<lambda>_ _. True)"
  unfolding edit_locked_def
  by (auto intro!: io_rules split: option.splits,
      rule keeps_bind [OF keeps_assert [where Q = "\<lambda>_ _. True"]], simp, (intro io_rules),
      rule keeps_bind [OF keeps_weaken [OF confined_regular]], blast, assumption, (intro io_rules),
      rule keeps_bind [OF keeps_weaken [OF confined_read_call]], blast, assumption, (intro io_rules),
      rule keeps_bind [OF keeps_assert [where Q = "\<lambda>_ _. True"]], simp, (intro io_rules),
      rule keeps_bind [OF keeps_lift [where Q = "\<lambda>_ _. True"]], simp, (intro io_rules),
      rule keeps_bind [OF keeps_weaken [OF confined_atomic_write]], blast, assumption, (intro io_rules),
      rule keeps_bind [OF keeps_weaken [OF confined_identity]], blast, assumption, (intro io_rules))
    (auto intro: keeps_return)

lemma confined_edit_loop:
  "keeps (confined os cwd aliases) (at_entry d n) (edit_loop os input d n rounds) (\<lambda>_ _. True)"
proof (induction rounds)
  case (Suc rounds)
  show ?case unfolding edit_loop.simps
    by (rule keeps_bind [OF confined_identity], (intro io_rules),
        rule keeps_bind [OF keeps_weaken [OF confined_identity]], blast, assumption, (intro io_rules))
      (auto intro!: io_rules keeps_weaken [OF Suc.IH] keeps_bind [OF keeps_weaken [OF confined_edit_locked]])
qed (auto intro: keeps_return)

lemma confined_edit_text:
  "keeps (confined os cwd (fc_root_aliases cfg)) (\<lambda>_. True) (edit_text os cfg input cwd rounds) (\<lambda>_ _. True)"
  unfolding edit_text_def by (rule confined_work [OF confined_edit_loop])


text \<open>
  C29. No call of the file tools leaves the workspace.  Whatever the operating system answers, the
  history of `read_file`, `write_file` and `edit_file` resolves only the working directory of the
  agent and the trusted aliases, never a path that the model supplied; it opens by path only what
  the working directory resolved to; and every other call names an entry (not empty, not `.` or
  `..`, without a slash) of a directory opened before it, refusing symbolic links.
\<close>

theorem file_calls_confined:
  "confined os cwd (fc_root_aliases cfg) (snd (read_file_call os cfg ev input cwd))
   \<and> confined os cwd (fc_root_aliases cfg) (snd (write_file_call os cfg ev input cwd))
   \<and> (case edit_file_call os cfg ev input cwd rounds of
        None \<Rightarrow> True | Some (out, h) \<Rightarrow> confined os cwd (fc_root_aliases cfg) h)"
proof -
  have work: "confined os cwd (fc_root_aliases cfg) (snd (blocking_work ev mutating m []))"
    if "keeps (confined os cwd (fc_root_aliases cfg)) (\<lambda>_. True) m (\<lambda>_ _. True)" for mutating and m :: "string io"
  proof -
    have "confined os cwd (fc_root_aliases cfg) (snd (m []))" using that by (simp add: keeps_def)
    then show ?thesis by (auto simp: blocking_work_def split: option.splits prod.splits)
  qed
  have "keeps (confined os cwd (fc_root_aliases cfg)) (\<lambda>_. True)
      (io_bind (edit_text os cfg input cwd rounds) (\<lambda>r. io_return (the r))) (\<lambda>_ _. True)"
    by (rule keeps_bind [OF confined_edit_text lasting_const]) (auto intro: keeps_return)
  from work [OF this, of True] show ?thesis
    using work [OF confined_read_text] work [OF confined_write_text]
    by (auto simp: read_file_call_def write_file_call_def edit_file_call_def split: prod.splits)
qed

section \<open>What an edit publishes\<close>

text \<open>The content that a successful rename gave the file, written three calls before it.\<close>

definition published_at :: "os \<Rightarrow> os_call list \<Rightarrow> nat \<Rightarrow> string list" where
  "published_at os h i = (case h ! i of
       RenameAt d t n \<Rightarrow> if os_nix os (take (Suc i) h) = None
         then (case h ! (i - 3) of WriteAll fd c \<Rightarrow> [c] | _ \<Rightarrow> [])
         else []
     | _ \<Rightarrow> [])"

definition published :: "os \<Rightarrow> os_call list \<Rightarrow> string list" where
  "published os h = concat (map (published_at os h) [0..<length h])"

text \<open>Every rename has behind it a new temporary file in the same directory, all of its content and
  its mode, each without an error.\<close>

definition whole :: "os \<Rightarrow> os_call list \<Rightarrow> nat \<Rightarrow> nat \<Rightarrow> string \<Rightarrow> bool" where
  "whole os h i d t \<longleftrightarrow> 4 \<le> i
     \<and> h ! (i - 4) = OpenAt d t TMP_FLAGS 0x180 \<and> os_nix os (take (i - 3) h) = None
     \<and> (\<exists>c. h ! (i - 3) = WriteAll (i - 4) c) \<and> os_io os (take (i - 2) h) = None
     \<and> h ! (i - 2) = Flush (i - 4) \<and> os_io os (take (i - 1) h) = None
     \<and> (\<exists>m. h ! (i - 1) = Chmod (i - 4) m) \<and> os_nix os (take i h) = None"

definition renames_whole :: "os \<Rightarrow> os_call list \<Rightarrow> bool" where
  "renames_whole os h \<longleftrightarrow> (\<forall>i < length h. case h ! i of RenameAt d t n \<Rightarrow> whole os h i d t | _ \<Rightarrow> True)"

text \<open>A temporary file that was created is unlinked later.\<close>

definition cleaned :: "os \<Rightarrow> os_call list \<Rightarrow> bool" where
  "cleaned os h \<longleftrightarrow> (\<forall>i < length h. case h ! i of
       OpenAt d t fl m \<Rightarrow> fl = TMP_FLAGS \<and> os_nix os (take (Suc i) h) = None
         \<longrightarrow> (\<exists>j < length h. i < j \<and> h ! j = UnlinkAt d t)
     | _ \<Rightarrow> True)"

text \<open>A reply of the history to a read.\<close>

definition read_reply :: "os \<Rightarrow> os_call list \<Rightarrow> string \<Rightarrow> bool" where
  "read_reply os h c \<longleftrightarrow> (\<exists>i < length h. \<exists>fd. h ! i = ReadAll fd \<and> os_read os (take (Suc i) h) = Inr c)"

lemma published_snoc: "published os (h @ [c]) = published os h @ published_at os (h @ [c]) (length h)"
proof -
  have "published_at os (h @ [c]) i = published_at os h i" if "i < length h" for i
  proof -
    have "i - 3 < length h" using that by simp
    with that have "(h @ [c]) ! i = h ! i" "(h @ [c]) ! (i - 3) = h ! (i - 3)"
      "take (Suc i) (h @ [c]) = take (Suc i) h" by (simp_all add: nth_append)
    then show ?thesis by (simp only: published_at_def)
  qed
  then have "map (published_at os (h @ [c])) [0..<length h] = map (published_at os h) [0..<length h]"
    by simp
  moreover have "[0..<length (h @ [c])] = [0..<length h] @ [length h]" by simp
  ultimately show ?thesis by (simp only: published_def map_append concat_append list.map concat.simps append_Nil2)
qed

lemma renames_whole_snoc:
  "renames_whole os (h @ [c]) \<longleftrightarrow> renames_whole os h
     \<and> (case c of RenameAt d t n \<Rightarrow> whole os (h @ [c]) (length h) d t | _ \<Rightarrow> True)"
proof -
  have "whole os (h @ [c]) i d t = whole os h i d t" if "i < length h" for i d t
  proof -
    have "(h @ [c]) ! j = h ! j" "take (Suc j) (h @ [c]) = take (Suc j) h" "take j (h @ [c]) = take j h"
      if "j \<le> i" for j using that \<open>i < length h\<close> by (simp_all add: nth_append)
    then show ?thesis unfolding whole_def by (simp only: diff_le_self order_refl)
  qed
  then have "(case (h @ [c]) ! i of RenameAt d t n \<Rightarrow> whole os (h @ [c]) i d t | _ \<Rightarrow> True)
      = (case h ! i of RenameAt d t n \<Rightarrow> whole os h i d t | _ \<Rightarrow> True)" if "i < length h" for i
    using that by (simp add: nth_append split: os_call.splits)
  moreover have "(h @ [c]) ! length h = c" by simp
  ultimately show ?thesis unfolding renames_whole_def length_append
    by (simp add: less_Suc_eq all_conj_distrib imp_conjL)
qed

text \<open>The calls that neither rename nor create.\<close>

definition quiet_call :: "os_call \<Rightarrow> bool" where
  "quiet_call c = (case c of RenameAt d t n \<Rightarrow> False | OpenAt d t fl m \<Rightarrow> fl \<noteq> TMP_FLAGS | _ \<Rightarrow> True)"

definition safe :: "os \<Rightarrow> os_call list \<Rightarrow> bool" where
  "safe os h \<longleftrightarrow> renames_whole os h \<and> cleaned os h"

lemma quiet_snoc:
  assumes "quiet_call c"
  shows "published os (h @ [c]) = published os h" "safe os h \<Longrightarrow> safe os (h @ [c])"
    "renames_whole os (h @ [c]) = renames_whole os h"
proof -
  show "renames_whole os (h @ [c]) = renames_whole os h"
    using assms by (auto simp: renames_whole_snoc quiet_call_def split: os_call.splits)
  show "published os (h @ [c]) = published os h"
    using assms by (auto simp: published_snoc published_at_def quiet_call_def split: os_call.splits)
  assume "safe os h"
  moreover have "cleaned os (h @ [c])" if "cleaned os h"
    unfolding cleaned_def
  proof (intro allI impI)
    fix i assume i: "i < length (h @ [c])"
    show "case (h @ [c]) ! i of OpenAt d t fl m \<Rightarrow> fl = TMP_FLAGS \<and> os_nix os (take (Suc i) (h @ [c])) = None
        \<longrightarrow> (\<exists>j < length (h @ [c]). i < j \<and> (h @ [c]) ! j = UnlinkAt d t) | _ \<Rightarrow> True"
    proof (cases "i = length h")
      case True
      then show ?thesis using assms by (auto simp: quiet_call_def split: os_call.splits)
    next
      case False
      then have "i < length h" using i by simp
      then have "case h ! i of OpenAt d t fl m \<Rightarrow> fl = TMP_FLAGS \<and> os_nix os (take (Suc i) h) = None
        \<longrightarrow> (\<exists>j < length h. i < j \<and> h ! j = UnlinkAt d t) | _ \<Rightarrow> True"
        using that unfolding cleaned_def by blast
      then show ?thesis using \<open>i < length h\<close>
        by (auto simp: nth_append split: os_call.splits)
    qed
  qed
  ultimately show "safe os (h @ [c])"
    using assms by (auto simp: safe_def renames_whole_snoc quiet_call_def split: os_call.splits)
qed

lemma read_reply_append: "read_reply os h c \<Longrightarrow> read_reply os (h @ cs) c"
proof -
  assume "read_reply os h c"
  then obtain i fd where "i < length h" "h ! i = ReadAll fd" "os_read os (take (Suc i) h) = Inr c"
    by (auto simp: read_reply_def)
  then show ?thesis unfolding read_reply_def
    by (intro exI [of _ i]) (simp add: nth_append)
qed


definition quiet :: "'a io \<Rightarrow> bool" where
  "quiet m \<longleftrightarrow> (\<forall>h. \<exists>cs. snd (m h) = h @ cs \<and> list_all quiet_call cs)"

named_theorems quiet_rules \<open>operations that neither rename nor create\<close>

lemma quietE:
  assumes "quiet m" "m h = (r, h')"
  obtains cs where "h' = h @ cs" "list_all quiet_call cs"
proof -
  have "\<exists>cs. snd (m h) = h @ cs \<and> list_all quiet_call cs" using assms(1) by (simp add: quiet_def)
  then show thesis using that assms(2) by auto
qed

lemma quiet_effect:
  assumes "quiet m" "m h = (r, h')"
  shows "published os h' = published os h" "safe os h \<Longrightarrow> safe os h'" "read_reply os h c \<Longrightarrow> read_reply os h' c"
proof -
  obtain cs where cs: "h' = h @ cs" "list_all quiet_call cs" by (rule quietE [OF assms])
  have "published os (h @ cs) = published os h \<and> (safe os h \<longrightarrow> safe os (h @ cs))"
    using cs(2) by (induction cs rule: rev_induct)
      (simp_all add: append_assoc [symmetric] quiet_snoc del: append_assoc)
  then show "published os h' = published os h" "safe os h \<Longrightarrow> safe os h'" using cs(1) by simp_all
qed (use assms in \<open>auto elim!: quietE intro: read_reply_append\<close>)

lemma quiet_bind [quiet_rules]:
  assumes "quiet m" "\<And>a. quiet (f a)"
  shows "quiet (io_bind m f)"
  unfolding quiet_def
proof
  fix h
  obtain r h1 where m: "m h = (r, h1)" by fastforce
  obtain cs where cs: "h1 = h @ cs" "list_all quiet_call cs" by (rule quietE [OF assms(1) m])
  show "\<exists>cs. snd (io_bind m f h) = h @ cs \<and> list_all quiet_call cs"
  proof (cases r)
    case (Inr a)
    obtain r2 h2 where f: "f a h1 = (r2, h2)" by fastforce
    obtain cs2 where "h2 = h1 @ cs2" "list_all quiet_call cs2" by (rule quietE [OF assms(2) f])
    then show ?thesis using cs m f Inr by (simp add: io_bind_def)
  qed (use cs m in \<open>simp add: io_bind_def\<close>)
qed

lemma quiet_pure [quiet_rules]:
  "quiet (io_return a)" "quiet (io_fail e)" "quiet (io_lift r)" "quiet (io_assert b e)"
  by (simp_all add: quiet_def io_return_def io_fail_def io_lift_def io_assert_def)

lemma quiet_calls [quiet_rules]:
  "quiet_call c \<Longrightarrow> quiet (io_call c answer)" "quiet_call c \<Longrightarrow> quiet (nix_call os c)"
  "quiet_call c \<Longrightarrow> quiet (open_call os c)" "quiet_call c \<Longrightarrow> quiet (stat_call os c)"
  "quiet (read_call os fd)" "quiet (canonicalize os p)"
  by (simp_all add: quiet_def call_eqs io_call_def quiet_call_def)

lemma quiet_cases [quiet_rules]:
  "(b \<Longrightarrow> quiet m) \<Longrightarrow> (\<not> b \<Longrightarrow> quiet m') \<Longrightarrow> quiet (if b then m else m')"
  by simp

lemma quiet_open [simp]: "quiet_call (OpenAt d n DIR_FLAGS m)" "quiet_call (OpenAt d n READ_FLAGS m)"
  by (simp_all add: quiet_call_def DIR_FLAGS_def READ_FLAGS_def TMP_FLAGS_def)

lemma quiet_others [simp]: "quiet_call (StatAt d n)" "quiet_call (MkdirAt d n m)" "quiet_call (Open p fl)"
  "quiet_call (StatFd fd)" "quiet_call (WriteAll fd c)" "quiet_call (Flush fd)" "quiet_call (Chmod fd m)"
  by (simp_all add: quiet_call_def)

lemma quiet_resolves [quiet_rules]: "quiet (resolves_to os canon p)"
  unfolding resolves_to_def by (intro quiet_rules)

lemma quiet_spelling [quiet_rules]: "quiet (spelling_valid os cwd canonical a)"
  unfolding spelling_valid_def by (intro quiet_rules)

lemma quiet_best [quiet_rules]: "quiet (best_spelling os cwd canonical cs as stale best)"
  by (induction as arbitrary: stale best) (auto intro!: quiet_rules split: option.splits)

lemma quiet_inside [quiet_rules]: "quiet (inside_root os cwd aliases p)"
  unfolding inside_root_def Let_def by (auto intro!: quiet_rules split: option.splits prod.splits)

lemma quiet_checked [quiet_rules]: "quiet (checked_path os input cwd aliases)"
  unfolding checked_path_def by (auto intro!: quiet_rules split: option.splits)

lemma quiet_descend [quiet_rules]: "quiet (descend os create d names)"
  by (induction names arbitrary: d) (auto simp: make_dir_def intro!: quiet_rules split: option.splits)

lemma quiet_parent [quiet_rules]: "quiet (parent_dir os cwd names create)"
  unfolding parent_dir_def by (intro quiet_rules) simp

lemma quiet_regular [quiet_rules]: "quiet (open_regular os d n)"
  unfolding open_regular_def by (intro quiet_rules) simp_all

lemma quiet_identity [quiet_rules]: "quiet (file_identity os d n)"
  unfolding file_identity_def by (intro quiet_rules) simp_all

lemma quiet_write_mode [quiet_rules]: "quiet (write_mode os d n)"
  unfolding write_mode_def by (auto intro!: quiet_rules split: sum.splits)

lemma publish_outcomes:
  assumes "publish os d tmp n fd mode content h = (r, h')"
  shows "(r \<noteq> Inr () \<and> (\<exists>cs. h' = h @ cs \<and> list_all quiet_call cs \<and> (\<forall>c \<in> set cs. \<nexists>d t fl m. c = OpenAt d t fl m)))
    \<or> (h' = h @ [WriteAll fd content, Flush fd, Chmod fd mode, RenameAt d tmp n]
       \<and> os_io os (h @ [WriteAll fd content]) = None
       \<and> os_io os (h @ [WriteAll fd content, Flush fd]) = None
       \<and> os_nix os (h @ [WriteAll fd content, Flush fd, Chmod fd mode]) = None
       \<and> (r = Inr () \<longleftrightarrow> os_nix os h' = None))"
proof -
  let ?w = "h @ [WriteAll fd content]" and ?f = "h @ [WriteAll fd content, Flush fd]"
  let ?c = "h @ [WriteAll fd content, Flush fd, Chmod fd mode]"
  consider e where "os_io os ?w = Some e" | e where "os_io os ?w = None" "os_io os ?f = Some e"
    | e where "os_io os ?w = None" "os_io os ?f = None" "os_nix os ?c = Some e"
    | "os_io os ?w = None" "os_io os ?f = None" "os_nix os ?c = None" by blast
  then show ?thesis
    using assms by cases (auto simp: publish_def io_bind_def call_eqs split: option.splits)
qed


lemma cleaned_append:
  assumes "cleaned os h"
    and "\<And>j d t fl m. j < length cs \<Longrightarrow> cs ! j = OpenAt d t fl m \<Longrightarrow> fl = TMP_FLAGS \<Longrightarrow>
      os_nix os (h @ take (Suc j) cs) = None \<Longrightarrow> \<exists>k < length cs. j < k \<and> cs ! k = UnlinkAt d t"
  shows "cleaned os (h @ cs)"
  unfolding cleaned_def
proof (intro allI impI)
  fix i assume i: "i < length (h @ cs)"
  show "case (h @ cs) ! i of OpenAt d t fl m \<Rightarrow> fl = TMP_FLAGS \<and> os_nix os (take (Suc i) (h @ cs)) = None
      \<longrightarrow> (\<exists>j < length (h @ cs). i < j \<and> (h @ cs) ! j = UnlinkAt d t) | _ \<Rightarrow> True"
  proof (cases "i < length h")
    case True
    then have "case h ! i of OpenAt d t fl m \<Rightarrow> fl = TMP_FLAGS \<and> os_nix os (take (Suc i) h) = None
      \<longrightarrow> (\<exists>j < length h. i < j \<and> h ! j = UnlinkAt d t) | _ \<Rightarrow> True"
      using assms(1) unfolding cleaned_def by blast
    moreover have "\<exists>j < length (h @ cs). i < j \<and> (h @ cs) ! j = c"
      if "\<exists>j < length h. i < j \<and> h ! j = c" for c
      using that by (auto simp: nth_append intro: trans_less_add1)
    moreover have "(h @ cs) ! i = h ! i" "take (Suc i) (h @ cs) = take (Suc i) h"
      using True by (simp_all add: nth_append)
    ultimately show ?thesis by (simp del: take_append split: os_call.splits)
  next
    case False
    then obtain j where j: "i = length h + j" "j < length cs"
      using i by (metis add_diff_inverse_nat length_append nat_add_left_cancel_less)
    have "\<exists>k < length (h @ cs). i < k \<and> (h @ cs) ! k = c"
      if "\<exists>k < length cs. j < k \<and> cs ! k = c" for c
      using that j(1) by (metis add_less_cancel_left length_append nth_append_length_plus)
    then show ?thesis using j assms(2) [of j] by (simp split: os_call.splits)
  qed
qed

lemma cleaned_tmp:
  assumes "cleaned os h" "\<forall>c \<in> set cs. \<nexists>d t fl m. c = OpenAt d t fl m"
  shows "cleaned os (h @ OpenAt d t fl m # cs @ [UnlinkAt d t])"
proof (rule cleaned_append [OF assms(1)], goal_cases)
  case (1 j d' t' fl' m')
  show ?case
  proof (cases j)
    case 0
    then show ?thesis using 1(2) by (intro exI [of _ "Suc (length cs)"]) simp
  next
    case (Suc k)
    then have "(cs @ [UnlinkAt d t]) ! k = OpenAt d' t' fl' m'" "k < Suc (length cs)"
      using 1(1,2) by simp_all
    moreover then have "k < length cs" by (cases "k = length cs") (auto simp: nth_append)
    ultimately have "OpenAt d' t' fl' m' \<in> set cs" by (metis nth_append nth_mem)
    then show ?thesis using assms(2) by blast
  qed
qed

lemma atomic_write_outcome:
  assumes "atomic_write os d n content h = (r, h')" "safe os h"
  shows "safe os h' \<and> (\<exists>cs. h' = h @ cs)
    \<and> published os h' = published os h @ (if r = Inr () then [content] else [])"
proof -
  obtain rm h1 where mode: "write_mode os d n h = (rm, h1)" by fastforce
  note quiet = quiet_effect [OF quiet_write_mode mode]
  obtain cs1 where cs1: "h1 = h @ cs1" by (rule quietE [OF quiet_write_mode mode])
  show ?thesis
  proof (cases rm)
    case (Inl e)
    then have "r = Inl e" "h' = h1" using assms(1) mode by (auto simp: atomic_write_def io_bind_def)
    then show ?thesis using quiet(1,2) assms(2) cs1 by simp
  next
    case (Inr m)
    define t where "t = ''.kyora-'' @ uuid_text (os_uuid os h1)"
    let ?o = "OpenAt d t TMP_FLAGS 0x180"
    have pub: "published os (h1 @ [?o]) = published os h" and ren: "renames_whole os (h1 @ [?o])"
      and clean: "cleaned os h1"
      using quiet(1,2) assms(2) by (simp_all add: published_snoc published_at_def renames_whole_snoc safe_def)
    show ?thesis
    proof (cases "os_nix os (h1 @ [?o])")
      case (Some e)
      have "h' = h1 @ [?o]" "r = Inl (os_errno_text os e)"
        using assms(1) mode Inr Some
        by (simp_all add: atomic_write_def io_bind_def Let_def call_eqs t_def [symmetric, simplified])
      moreover have "cleaned os (h1 @ [?o])"
        using Some by (intro cleaned_append [OF clean]) (simp add: nth_Cons')
      ultimately show ?thesis using pub ren cs1 by (simp add: safe_def)
    next
      case None
      define h2 where "h2 = h1 @ [?o]"
      obtain r3 h3 where p: "publish os d t n (length h1) m content h2 = (r3, h3)" by fastforce
      have h': "h' = h3 @ [UnlinkAt d t]" "r = r3"
        using assms(1) mode Inr None p
        by (simp_all add: atomic_write_def io_bind_def Let_def call_eqs with_cleanup_def
            t_def [symmetric, simplified] h2_def [symmetric])
      have last: "published os h' = published os h3" "renames_whole os h' = renames_whole os h3"
        unfolding h'(1) by (simp_all add: published_snoc published_at_def renames_whole_snoc)
      from publish_outcomes [OF p] show ?thesis
      proof (elim disjE conjE exE)
        fix cs assume cs: "r3 \<noteq> Inr ()" "h3 = h2 @ cs" "list_all quiet_call cs"
          "\<forall>c \<in> set cs. \<nexists>d t fl m. c = OpenAt d t fl m"
        have "published os (h2 @ cs) = published os h2 \<and> (renames_whole os h2 \<longrightarrow> renames_whole os (h2 @ cs))"
          using cs(3) by (induction cs rule: rev_induct)
            (simp_all add: append_assoc [symmetric] quiet_snoc del: append_assoc)
        moreover have "cleaned os h'"
          using cleaned_tmp [OF clean cs(4), of d t TMP_FLAGS "0x180"] by (simp add: h'(1) cs(2) h2_def)
        ultimately show ?thesis using pub ren last cs(1,2) cs1 h' by (simp add: safe_def h2_def)
      next
        let ?w = "WriteAll (length h1) content" and ?f = "Flush (length h1)"
        let ?c = "Chmod (length h1) m" and ?r = "RenameAt d t n"
        assume ok: "h3 = h2 @ [?w, ?f, ?c, ?r]" "os_io os (h2 @ [?w]) = None"
          "os_io os (h2 @ [?w, ?f]) = None" "os_nix os (h2 @ [?w, ?f, ?c]) = None"
          "(r3 = Inr ()) = (os_nix os h3 = None)"
        have h3: "h3 = (((h2 @ [?w]) @ [?f]) @ [?c]) @ [?r]" using ok(1) by simp
        have "whole os h3 (length h2 + 3) d t"
          unfolding whole_def using ok(1-4) None by (simp add: h2_def nth_append)
        then have whole: "renames_whole os h3"
          unfolding h3 renames_whole_snoc using ren by (simp add: h2_def eval_nat_numeral)
        define h4 where "h4 = ((h2 @ [?w]) @ [?f]) @ [?c]"
        have h4: "h3 = h4 @ [?r]" "length h4 = length h2 + 3" using h3 by (simp_all add: h4_def)
        have "published_at os h3 (length h2 + 3) = (if os_nix os h3 = None then [content] else [])"
          using ok(1) by (simp add: published_at_def nth_append)
        moreover have "published os h4 = published os h"
          using pub unfolding h4_def by (simp only: quiet_snoc quiet_others h2_def)
        moreover have "published os h3 = published os h4 @ published_at os h3 (length h4)"
          unfolding h4(1) by (rule published_snoc)
        ultimately have "published os h3 = published os h @ (if r3 = Inr () then [content] else [])"
          by (simp only: h4(2) ok(5))
        moreover have "cleaned os h'"
          using cleaned_tmp [OF clean, of "[?w, ?f, ?c, ?r]" d t TMP_FLAGS "0x180"]
          by (simp add: h'(1) ok(1) h2_def)
        ultimately show ?thesis using whole last cs1 h' ok(1) by (simp add: safe_def h2_def)
      qed
    qed
  qed
qed


text \<open>Replacing every match is splitting the text at its matches and joining the parts anew.\<close>

fun interpose :: "string \<Rightarrow> string list \<Rightarrow> string" where
  "interpose sep [] = []"
| "interpose sep [p] = p"
| "interpose sep (p # ps) = p @ sep @ interpose sep ps"

lemma interpose_Cons: "ps \<noteq> [] \<Longrightarrow> interpose sep (p # ps) = p @ sep @ interpose sep ps"
  by (cases ps) simp_all

lemma interpose_first: "interpose sep ((x # p) # ps) = x # interpose sep (p # ps)"
  by (cases ps) simp_all

lemma prefix_interpose: "prefix p (interpose sep (p # ps))"
  by (cases ps) simp_all

lemma replace_parts:
  assumes "old \<noteq> []"
  shows "\<exists>parts. s = interpose old parts \<and> str_replace old new s = interpose new parts
    \<and> length parts = Suc (count_matches old s) \<and> (\<forall>p \<in> set parts. \<not> sublist old p)"
proof (induction "length s" arbitrary: s rule: less_induct)
  case less
  show ?case
  proof (cases s)
    case Nil
    then show ?thesis using assms
      by (intro exI [of _ "[[]]"]) (simp add: str_replace.simps [of _ _ "[]"] count_matches.simps [of _ "[]"])
  next
    case (Cons x xs)
    show ?thesis
    proof (cases "prefix old s")
      case True
      then obtain rest where s: "s = old @ rest" by (auto simp: prefix_def)
      then have "length rest < length s" using assms by simp
      from less [OF this] obtain parts where p: "rest = interpose old parts"
        "str_replace old new rest = interpose new parts" "length parts = Suc (count_matches old rest)"
        "\<forall>p \<in> set parts. \<not> sublist old p" by blast
      have "str_replace old new s = new @ str_replace old new rest"
        "count_matches old s = Suc (count_matches old rest)"
        unfolding s using assms
        by (simp_all add: str_replace.simps [of old new "old @ rest"] count_matches.simps [of old "old @ rest"])
      moreover have "parts \<noteq> []" using p(3) by auto
      ultimately show ?thesis using p s assms
        by (intro exI [of _ "[] # parts"]) (simp add: interpose_Cons)
    next
      case False
      have "length xs < length s" using Cons by simp
      from less [OF this] obtain parts where p: "xs = interpose old parts"
        "str_replace old new xs = interpose new parts" "length parts = Suc (count_matches old xs)"
        "\<forall>p \<in> set parts. \<not> sublist old p" by blast
      then obtain q ps where q: "parts = q # ps" by (cases parts) auto
      have "str_replace old new s = x # str_replace old new xs" "count_matches old s = count_matches old xs"
        using assms False Cons by (simp_all add: str_replace.simps [of old new "x # xs"] count_matches.simps [of old "x # xs"])
      moreover have "s = interpose old ((x # q) # ps)" using Cons p(1) q by (simp add: interpose_first)
      moreover have "\<not> sublist old (x # q)"
      proof -
        have "\<not> prefix old (x # q)"
          using False \<open>s = interpose old ((x # q) # ps)\<close> prefix_interpose [of "x # q" old ps]
          by (metis prefix_order.trans)
        then show ?thesis using p(4) q by (simp add: sublist_Cons_right)
      qed
      ultimately show ?thesis using p q
        by (intro exI [of _ "(x # q) # ps"]) (simp add: interpose_first)
    qed
  qed
qed

lemma io_bindE:
  assumes "io_bind m f h = (r, h')"
  obtains e where "m h = (Inl e, h')" "r = Inl e" | a h1 where "m h = (Inr a, h1)" "f a h1 = (r, h')"
  using assms by (auto simp: io_bind_def split: prod.splits sum.splits)

lemma io_bind_assert: "b \<Longrightarrow> io_bind (io_assert b e) f = f ()"
  by (simp add: fun_eq_iff io_bind_def io_assert_def)

text \<open>What the history of an edit may have published.\<close>

definition replaced :: "os \<Rightarrow> json \<Rightarrow> os_call list \<Rightarrow> bool" where
  "replaced os input h \<longleftrightarrow> (\<exists>old new parts.
     as_str (jindex input ''old'') = Some old \<and> as_str (jindex input ''new'') = Some new \<and> old \<noteq> []
     \<and> read_reply os h (interpose old parts) \<and> utf8_valid (interpose old parts)
     \<and> (\<forall>p \<in> set parts. \<not> sublist old p)
     \<and> (length parts = 2 \<or> 2 \<le> length parts \<and> jindex input ''replace_all'' = JBool True)
     \<and> published os h = [interpose new parts])"

text \<open>The end of an edit, from the content it read.\<close>

abbreviation edit_tail :: "os \<Rightarrow> json \<Rightarrow> nat \<Rightarrow> string \<Rightarrow> string \<Rightarrow> string \<Rightarrow> string \<Rightarrow> string io" where
  "edit_tail os input d n old new content \<equiv>
     io_bind (io_assert (utf8_valid content) ''stream did not contain valid UTF-8'') (\<lambda>_.
     io_bind (io_lift (edit_content input old new content)) (\<lambda>replaced.
     io_bind (atomic_write os d n replaced) (\<lambda>_.
     io_bind (file_identity os d n) (\<lambda>_.
       io_return (''replaced '' @ show_nat (count_matches old content) @ '' matches'')))))"

lemma edit_tail_outcome:
  assumes run: "edit_tail os input d n old new content h = (r, h')"
    and h: "safe os h" "published os h = []" "read_reply os h content"
    and input: "as_str (jindex input ''old'') = Some old" "as_str (jindex input ''new'') = Some new" "old \<noteq> []"
  shows "safe os h' \<and> (published os h' = [] \<or> replaced os input h') \<and> (\<forall>s. r = Inr s \<longrightarrow> published os h' \<noteq> [])"
proof (cases "utf8_valid content \<and> (\<exists>t. edit_content input old new content = Inr t)")
  case False
  then show ?thesis using run h
    by (auto simp: io_bind_def io_assert_def io_lift_def split: if_splits sum.splits)
next
  case True
  let ?tail = "io_bind (file_identity os d n) (\<lambda>_.
    io_return (''replaced '' @ show_nat (count_matches old content) @ '' matches''))"
  from True obtain t where t: "edit_content input old new content = Inr t" by blast
  then have run3: "io_bind (atomic_write os d n t) (\<lambda>_. ?tail) h = (r, h')"
    using run True by (simp add: io_bind_def [of "io_lift _"] io_bind_def [of "io_assert _ _"]
        io_assert_def io_lift_def)
  have count: "count_matches old content = 1 \<or>
      1 \<le> count_matches old content \<and> jindex input ''replace_all'' = JBool True"
    and rep: "t = str_replace old new content"
    using t by (auto simp: edit_content_def Let_def split: if_splits)
  obtain parts where parts: "content = interpose old parts" "t = interpose new parts"
    "length parts = Suc (count_matches old content)" "\<forall>p \<in> set parts. \<not> sublist old p"
    using replace_parts [OF input(3), of content new] rep by blast
  have ends: "replaced os input h4" if "published os h4 = [t]" "read_reply os h4 content" for h4
    unfolding replaced_def using that parts count input True
    by (intro exI [of _ old] exI [of _ new] exI [of _ parts]) auto
  from run3 show ?thesis
  proof (cases rule: io_bindE)
    case (1 e)
    then show ?thesis using atomic_write_outcome [OF 1(1) h(1)] h by auto
  next
    case (2 u h3)
    note w = atomic_write_outcome [OF 2(1) h(1)]
    have p3: "published os h3 = [t]" "read_reply os h3 content"
      using w h by (auto intro: read_reply_append)
    have "quiet ?tail" by (intro quiet_rules)
    from quiet_effect [OF this 2(2)] show ?thesis using w p3 ends [of h'] by auto
  qed
qed

lemma edit_locked_outcome:
  assumes "edit_locked os input d n h = (r, h')" "safe os h" "published os h = []"
  shows "safe os h' \<and> (published os h' = [] \<or> replaced os input h') \<and> (\<forall>s. r = Inr s \<longrightarrow> published os h' \<noteq> [])"
proof (cases "\<exists>old new. as_str (jindex input ''old'') = Some old \<and> as_str (jindex input ''new'') = Some new \<and> old \<noteq> []")
  case False
  then show ?thesis using assms
    by (auto simp: edit_locked_def io_fail_def io_bind_def io_assert_def split: option.splits if_splits)
next
  case True
  then obtain old new where input: "as_str (jindex input ''old'') = Some old"
    "as_str (jindex input ''new'') = Some new" "old \<noteq> []" by blast
  then have "io_bind (open_regular os d n) (\<lambda>fd. io_bind (read_call os fd) (\<lambda>content.
      edit_tail os input d n old new content)) h = (r, h')"
    using assms(1) by (simp add: edit_locked_def io_bind_assert)
  then show ?thesis
  proof (cases rule: io_bindE)
    case (1 e)
    then show ?thesis using quiet_effect [OF quiet_regular 1(1)] assms by simp
  next
    case (2 fd h1)
    note q1 = quiet_effect [OF quiet_regular 2(1)]
    from 2(2) show ?thesis
    proof (cases rule: io_bindE)
      case (1 e)
      then show ?thesis using quiet_effect [OF quiet_calls(5) 1(1)] q1 assms by simp
    next
      case (2 content h2)
      have s2: "safe os h2" "published os h2 = []"
        using quiet_effect [OF quiet_calls(5) 2(1)] q1 assms by simp_all
      have h2: "h2 = h1 @ [ReadAll fd]" "os_read os (h1 @ [ReadAll fd]) = Inr content"
        using 2(1) by (auto simp: call_eqs)
      have "read_reply os h2 content"
        unfolding read_reply_def h2(1) using h2(2) by (intro exI [of _ "length h1"]) simp
      from edit_tail_outcome [OF 2(2) s2 this input] show ?thesis .
    qed
  qed
qed

lemma edit_loop_outcome:
  assumes "edit_loop os input d n rounds h = (r, h')" "safe os h" "published os h = []"
  shows "safe os h' \<and> (published os h' = [] \<or> replaced os input h') \<and> (\<forall>s. r = Inr (Some s) \<longrightarrow> published os h' \<noteq> [])"
  using assms
proof (induction rounds arbitrary: h)
  case 0
  then show ?case by (auto simp: io_return_def)
next
  case (Suc rounds)
  from Suc.prems(1) [unfolded edit_loop.simps] show ?case
  proof (cases rule: io_bindE)
    case (1 e)
    then show ?thesis using quiet_effect [OF quiet_identity 1(1)] Suc.prems(2,3) by simp
  next
    case (2 identity h1)
    note q1 = quiet_effect [OF quiet_identity 2(1)]
    from 2(2) show ?thesis
    proof (cases rule: io_bindE)
      case (1 e)
      then show ?thesis using quiet_effect [OF quiet_identity 1(1)] q1 Suc.prems(2,3) by simp
    next
      case (2 confirmed h2)
      have s2: "safe os h2" "published os h2 = []"
        using quiet_effect [OF quiet_identity 2(1)] q1 Suc.prems(2,3) by simp_all
      show ?thesis
      proof (cases "confirmed = identity")
        case True
        then obtain r2 where "edit_locked os input d n h2 = (r2, h')" "\<And>s. r = Inr (Some s) \<Longrightarrow> r2 = Inr s"
          using 2(2) by (auto simp: io_return_def elim!: io_bindE)
        then show ?thesis using edit_locked_outcome [OF _ s2] by blast
      next
        case False
        then show ?thesis using 2(2) Suc.IH [OF _ s2] by simp
      qed
    qed
  qed
qed

text \<open>
  C30. An edit publishes exactly one replacement, or nothing.  Whatever the operating system answers,
  the content that `edit_file` renames into place is the content it read, split at the matches of
  `old`, with `new` between the same parts: one match, or any number when `replace_all` is true.
  Success means that it was published.  Every rename follows a temporary file of the same
  directory with all of the content written, flushed and given its mode without an error, and
  every temporary file that was created is unlinked.
\<close>

theorem edit_publishes_replacement:
  assumes "edit_text os cfg input cwd rounds [] = (r, h)"
  shows "renames_whole os h \<and> cleaned os h
    \<and> (published os h = [] \<or> replaced os input h)
    \<and> (\<forall>s. r = Inr (Some s) \<longrightarrow> published os h \<noteq> [])"
proof -
  have start: "safe os []" "published os [] = []"
    by (simp_all add: safe_def renames_whole_def cleaned_def published_def)
  from assms [unfolded edit_text_def]
  have "safe os h \<and> (published os h = [] \<or> replaced os input h) \<and> (\<forall>s. r = Inr (Some s) \<longrightarrow> published os h \<noteq> [])"
  proof (cases rule: io_bindE)
    case (1 e)
    then show ?thesis using quiet_effect [OF quiet_checked 1(1)] start by simp
  next
    case (2 names h1)
    note q1 = quiet_effect [OF quiet_checked 2(1)]
    from 2(2) show ?thesis
    proof (cases rule: io_bindE)
      case (1 e)
      then show ?thesis using quiet_effect [OF quiet_parent 1(1)] q1 start by simp
    next
      case (2 d h2)
      then show ?thesis using quiet_effect [OF quiet_parent 2(1)] q1 start edit_loop_outcome [OF 2(2)] by simp
    qed
  qed
  then show ?thesis by (simp add: safe_def)
qed


text \<open>An edit of one file by an operating system that answers every call without an error.\<close>

definition sample_os :: os where
  "sample_os = \<lparr>os_realpath = (\<lambda>h. Inr ''/w''), os_nix = (\<lambda>h. None),
     os_stat = (\<lambda>h. Inr \<lparr>st_dev = 1, st_ino = 2, st_mode = 0x81A4\<rparr>),
     os_read = (\<lambda>h. Inr ''one two''), os_io = (\<lambda>h. None), os_errno_text = (\<lambda>e. []),
     os_uuid = (\<lambda>h. 0)\<rparr>"

definition sample_edit :: json where
  "sample_edit = JObj [(''new'', JStr ''2''), (''old'', JStr ''two''), (''path'', JStr ''d/../f'')]"

lemma sample_edit_runs:
  "\<exists>h. edit_text sample_os file_config_default sample_edit ''/w'' 1 [] = (Inr (Some ''replaced 1 matches''), h)"
proof -
  have "fst (edit_text sample_os file_config_default sample_edit ''/w'' 1 []) = Inr (Some ''replaced 1 matches'')"
    by code_simp
  then show ?thesis by (metis prod.collapse)
qed


theorem edit_publishes_replacement_witness:
  "\<exists>h. edit_text sample_os file_config_default sample_edit ''/w'' 1 [] = (Inr (Some ''replaced 1 matches''), h)
     \<and> renames_whole sample_os h \<and> cleaned sample_os h \<and> published sample_os h \<noteq> []"
proof -
  obtain h where h: "edit_text sample_os file_config_default sample_edit ''/w'' 1 []
    = (Inr (Some ''replaced 1 matches''), h)" using sample_edit_runs by blast
  then show ?thesis using edit_publishes_replacement [OF h] by blast
qed

end
