(* ===== verification/Edit_Locks.thy ===== *)
theory Edit_Locks
  imports Files
begin

text \<open>
  Concurrent edits of one file: the lock registry of `EditFile` in `crates/tools/src/files.rs`
  (`FileLock::acquire`, its drop, and the entry that an edit publishes for the file it put in
  place) and the steps of the editors between two effects that the others can see.  An editor
  that replaced the file holds the registry while it does, so the rename and the new entry are one
  step.
\<close>

section \<open>The registry\<close>

text \<open>An entry is a weak reference to a lock.  The strong references to a lock are its leases.\<close>

record lock_registry =
  lr_entries :: "(file_id \<times> nat) list"
  lr_strong :: "nat \<Rightarrow> nat"
  lr_next :: nat

definition registry_new :: lock_registry where
  "registry_new = \<lparr>lr_entries = [], lr_strong = (\<lambda>l. 0), lr_next = 0\<rparr>"

definition upgrade :: "lock_registry \<Rightarrow> file_id \<Rightarrow> nat option" where
  "upgrade r i = (case map_of (lr_entries r) i of
     Some l \<Rightarrow> if 0 < lr_strong r l then Some l else None | None \<Rightarrow> None)"

definition acquire :: "file_id \<Rightarrow> lock_registry \<Rightarrow> nat \<times> lock_registry" where
  "acquire i r = (case upgrade r i of
       Some l \<Rightarrow> (l, r\<lparr>lr_strong := (lr_strong r)(l := lr_strong r l + 1)\<rparr>)
     | None \<Rightarrow>
         (let l = lr_next r in
          (l, r\<lparr>lr_entries := AList.update i l (lr_entries r),
                lr_strong := (lr_strong r)(l := 1), lr_next := l + 1\<rparr>)))"

text \<open>The drop of a lease: the expired entries are removed.\<close>

definition drop_lease :: "nat \<Rightarrow> lock_registry \<Rightarrow> lock_registry" where
  "drop_lease l r =
     (let strong = (lr_strong r)(l := lr_strong r l - 1)
      in r\<lparr>lr_strong := strong, lr_entries := filter (\<lambda>(i, l). 0 < strong l) (lr_entries r)\<rparr>)"

definition publish_entry :: "file_id \<Rightarrow> nat \<Rightarrow> lock_registry \<Rightarrow> lock_registry" where
  "publish_entry i l r = r\<lparr>lr_entries := AList.update i l (lr_entries r)\<rparr>"

section \<open>Editors\<close>

text \<open>Where an editor is in the loop of `edit`: before it looks at the file; with the identity it
  saw; with the lease of the lock; with the lock; with the identity confirmed; with the content
  read; with the new file in place; with the lock released but not the lease.\<close>

datatype phase =
    Looking
  | Identified file_id
  | Leased file_id nat
  | Guarded file_id nat
  | Editing file_id nat
  | Holding file_id nat string
  | Placed nat
  | Leaving nat bool
  | Finished

text \<open>What an editor was asked to do: its input with `old` and `new`.\<close>

type_synonym job = "json \<times> string \<times> string"

definition job_content :: "job \<Rightarrow> string \<Rightarrow> string + string" where
  "job_content j content = (case j of (input, old, new) \<Rightarrow> edit_content input old new content)"

record edit_state =
  es_id :: file_id
  es_text :: string
  es_registry :: lock_registry
  es_locked :: "nat list"
  es_phase :: "nat \<Rightarrow> phase"

text \<open>The editors are the numbers below `n`.\<close>

definition edit_start :: "nat \<Rightarrow> file_id \<Rightarrow> string \<Rightarrow> edit_state" where
  "edit_start n i t = \<lparr>es_id = i, es_text = t, es_registry = registry_new, es_locked = [],
     es_phase = (\<lambda>k. if k < n then Looking else Finished)\<rparr>"

definition set_phase :: "nat \<Rightarrow> phase \<Rightarrow> edit_state \<Rightarrow> edit_state" where
  "set_phase k p st = st\<lparr>es_phase := (es_phase st)(k := p)\<rparr>"

definition unlock :: "nat \<Rightarrow> edit_state \<Rightarrow> edit_state" where
  "unlock l st = st\<lparr>es_locked := removeAll l (es_locked st)\<rparr>"

text \<open>An editor takes its next step; a call of the operating system fails; the file is replaced by
  one with a new identity; it is replaced but its identity cannot be read afterwards.\<close>

datatype edit_event =
    Step nat
  | Fail nat
  | Replace nat file_id
  | ReplaceUnseen nat file_id

definition leave :: "nat \<Rightarrow> nat \<Rightarrow> bool \<Rightarrow> edit_state \<Rightarrow> edit_state" where
  "leave k l again st = set_phase k (Leaving l again) (unlock l st)"

definition take_step :: "(nat \<Rightarrow> job) \<Rightarrow> nat \<Rightarrow> edit_state \<Rightarrow> edit_state option" where
  "take_step jobs k st = (case es_phase st k of
       Looking \<Rightarrow> Some (set_phase k (Identified (es_id st)) st)
     | Identified i \<Rightarrow>
         (case acquire i (es_registry st) of
            (l, r) \<Rightarrow> Some (set_phase k (Leased i l) (st\<lparr>es_registry := r\<rparr>)))
     | Leased i l \<Rightarrow>
         if l \<in> set (es_locked st) then None
         else Some (set_phase k (Guarded i l) (st\<lparr>es_locked := l # es_locked st\<rparr>))
     | Guarded i l \<Rightarrow>
         if es_id st \<noteq> i then Some (leave k l True st) else Some (set_phase k (Editing i l) st)
     | Editing i l \<Rightarrow> Some (set_phase k (Holding i l (es_text st)) st)
     | Holding i l t \<Rightarrow>
         (case job_content (jobs k) t of Inl e \<Rightarrow> Some (leave k l False st) | Inr t' \<Rightarrow> None)
     | Placed l \<Rightarrow> Some (leave k l False st)
     | Leaving l again \<Rightarrow>
         Some (set_phase k (if again then Looking else Finished)
           (st\<lparr>es_registry := drop_lease l (es_registry st)\<rparr>))
     | Finished \<Rightarrow> None)"

definition fail_step :: "nat \<Rightarrow> edit_state \<Rightarrow> edit_state option" where
  "fail_step k st = (case es_phase st k of
       Looking \<Rightarrow> Some (set_phase k Finished st)
     | Guarded i l \<Rightarrow> Some (leave k l False st)
     | Editing i l \<Rightarrow> Some (leave k l False st)
     | Holding i l t \<Rightarrow> Some (leave k l False st)
     | _ \<Rightarrow> None)"

definition replace_step :: "(nat \<Rightarrow> job) \<Rightarrow> nat \<Rightarrow> file_id \<Rightarrow> bool \<Rightarrow> edit_state \<Rightarrow> edit_state option" where
  "replace_step jobs k i' seen st = (case es_phase st k of
       Holding i l t \<Rightarrow>
         (case job_content (jobs k) t of
            Inl e \<Rightarrow> None
          | Inr t' \<Rightarrow>
              (let st' = st\<lparr>es_id := i', es_text := t'\<rparr>
               in if seen
                  then Some (set_phase k (Placed l)
                    (st'\<lparr>es_registry := publish_entry i' l (es_registry st')\<rparr>))
                  else Some (leave k l False st')))
     | _ \<Rightarrow> None)"

fun edit_step :: "(nat \<Rightarrow> job) \<Rightarrow> edit_event \<Rightarrow> edit_state \<Rightarrow> edit_state option" where
  "edit_step jobs (Step k) st = take_step jobs k st"
| "edit_step jobs (Fail k) st = fail_step k st"
| "edit_step jobs (Replace k i') st = replace_step jobs k i' True st"
| "edit_step jobs (ReplaceUnseen k i') st = replace_step jobs k i' False st"

fun edit_run :: "(nat \<Rightarrow> job) \<Rightarrow> edit_event list \<Rightarrow> edit_state \<Rightarrow> edit_state option" where
  "edit_run jobs [] st = Some st"
| "edit_run jobs (e # es) st = Option.bind (edit_step jobs e st) (edit_run jobs es)"

end
