(* ===== verification/Edit_Locks_Props.thy ===== *)
theory Edit_Locks_Props
  imports Edit_Locks
begin

text \<open>
  Concurrent edits of a file exclude each other and take effect one after another, as long as the
  operating system does not give the file an identity that an editor already holds a lease for.
  With such a reuse of identities two edits can run at once.
\<close>

section \<open>The invariant\<close>

fun lease_of :: "phase \<Rightarrow> nat option" where
  "lease_of (Leased i l) = Some l"
| "lease_of (Guarded i l) = Some l"
| "lease_of (Editing i l) = Some l"
| "lease_of (Holding i l t) = Some l"
| "lease_of (Placed l) = Some l"
| "lease_of (Leaving l again) = Some l"
| "lease_of _ = None"

fun owned :: "phase \<Rightarrow> nat option" where
  "owned (Guarded i l) = Some l"
| "owned (Editing i l) = Some l"
| "owned (Holding i l t) = Some l"
| "owned (Placed l) = Some l"
| "owned _ = None"

fun claim_of :: "phase \<Rightarrow> (file_id \<times> nat) option" where
  "claim_of (Leased i l) = Some (i, l)"
| "claim_of (Guarded i l) = Some (i, l)"
| "claim_of (Editing i l) = Some (i, l)"
| "claim_of (Holding i l t) = Some (i, l)"
| "claim_of _ = None"

text \<open>Between the confirmation of the identity and the replacement.\<close>

fun editing :: "phase \<Rightarrow> bool" where
  "editing (Editing i l) = True"
| "editing (Holding i l t) = True"
| "editing _ = False"

definition leases :: "(nat \<Rightarrow> phase) \<Rightarrow> nat \<Rightarrow> nat set" where
  "leases ph l = {k. lease_of (ph k) = Some l}"

definition registry_inv :: "lock_registry \<Rightarrow> (nat \<Rightarrow> phase) \<Rightarrow> bool" where
  "registry_inv r ph \<longleftrightarrow> (\<forall>l. finite (leases ph l) \<and> lr_strong r l = card (leases ph l))
     \<and> (\<forall>l. lr_next r \<le> l \<longrightarrow> lr_strong r l = 0)
     \<and> (\<forall>(i, l) \<in> set (lr_entries r). 0 < lr_strong r l)"

definition mutex_inv :: "nat list \<Rightarrow> (nat \<Rightarrow> phase) \<Rightarrow> bool" where
  "mutex_inv locked ph \<longleftrightarrow> (\<forall>k l. owned (ph k) = Some l \<longrightarrow> l \<in> set locked)
     \<and> (\<forall>k k' l. owned (ph k) = Some l \<longrightarrow> owned (ph k') = Some l \<longrightarrow> k = k')
     \<and> (\<forall>l \<in> set locked. \<exists>k. owned (ph k) = Some l)"

definition claims_inv :: "file_id \<Rightarrow> (file_id \<times> nat) list \<Rightarrow> (nat \<Rightarrow> phase) \<Rightarrow> bool" where
  "claims_inv cur entries ph \<longleftrightarrow>
     (\<forall>k l. claim_of (ph k) = Some (cur, l) \<longrightarrow> map_of entries cur = Some l)
     \<and> (\<forall>k i l. editing (ph k) \<longrightarrow> claim_of (ph k) = Some (i, l) \<longrightarrow> i = cur)"

definition content_inv :: "string \<Rightarrow> (nat \<Rightarrow> phase) \<Rightarrow> bool" where
  "content_inv content ph \<longleftrightarrow> (\<forall>k i l t. ph k = Holding i l t \<longrightarrow> t = content)"

definition edit_inv :: "edit_state \<Rightarrow> bool" where
  "edit_inv st \<longleftrightarrow> registry_inv (es_registry st) (es_phase st) \<and> mutex_inv (es_locked st) (es_phase st)
     \<and> claims_inv (es_id st) (lr_entries (es_registry st)) (es_phase st)
     \<and> content_inv (es_text st) (es_phase st)"

text \<open>No editor holds a lease for the identity that a replacement gives the file.\<close>

definition unclaimed :: "file_id \<Rightarrow> edit_state \<Rightarrow> bool" where
  "unclaimed i st \<longleftrightarrow> (\<forall>k l. claim_of (es_phase st k) \<noteq> Some (i, l))"

fun fresh_event :: "edit_event \<Rightarrow> edit_state \<Rightarrow> bool" where
  "fresh_event (Replace k i) st = unclaimed i st"
| "fresh_event (ReplaceUnseen k i) st = unclaimed i st"
| "fresh_event _ st = True"

fun fresh_run :: "(nat \<Rightarrow> job) \<Rightarrow> edit_event list \<Rightarrow> edit_state \<Rightarrow> bool" where
  "fresh_run jobs [] st = True"
| "fresh_run jobs (e # es) st = (fresh_event e st
     \<and> (case edit_step jobs e st of None \<Rightarrow> True | Some st' \<Rightarrow> fresh_run jobs es st'))"

section \<open>Registry\<close>

lemma leases_same: "lease_of p = lease_of (ph k) \<Longrightarrow> leases (ph(k := p)) l = leases ph l"
  by (auto simp: leases_def)

lemma leases_take: "lease_of (ph k) = None \<Longrightarrow> lease_of p = Some l \<Longrightarrow>
    leases (ph(k := p)) l' = (if l' = l then insert k (leases ph l) else leases ph l')"
  by (auto simp: leases_def)

lemma leases_give: "lease_of (ph k) = Some l \<Longrightarrow> lease_of p = None \<Longrightarrow>
    leases (ph(k := p)) l' = (if l' = l then leases ph l - {k} else leases ph l')"
  by (auto simp: leases_def)

lemma alist_update_mem: "(a, x) \<in> set (AList.update i l al) \<Longrightarrow> x = l \<or> (a, x) \<in> set al"
  by (induction al) (auto split: if_splits)

lemma registry_same:
  assumes "registry_inv r ph" "lease_of p = lease_of (ph k)"
  shows "registry_inv r (ph(k := p))"
proof -
  have "leases (ph(k := p)) = leases ph" using leases_same [of p ph k] assms(2) by (simp add: fun_eq_iff)
  then show ?thesis using assms(1) unfolding registry_inv_def by metis
qed

lemma registry_acquire:
  assumes inv: "registry_inv r ph" and k: "lease_of (ph k) = None"
    and acq: "acquire i r = (l, r')" and p: "lease_of p = Some l"
  shows "registry_inv r' (ph(k := p))" "map_of (lr_entries r') i = Some l"
    "j \<noteq> i \<Longrightarrow> map_of (lr_entries r') j = map_of (lr_entries r) j"
    "map_of (lr_entries r) i = Some l' \<Longrightarrow> l = l'"
proof -
  have notin: "k \<notin> leases ph x" for x using k by (simp add: leases_def)
  have count: "lr_strong r x = card (leases ph x)" "finite (leases ph x)" for x
    using inv by (simp_all add: registry_inv_def)
  have alive: "0 < lr_strong r x" if "(a, x) \<in> set (lr_entries r)" for a x
    using inv that unfolding registry_inv_def by blast
  have new: "lr_strong r x = 0" if "lr_next r \<le> x" for x
    using inv that unfolding registry_inv_def by blast
  show "map_of (lr_entries r) i = Some l' \<Longrightarrow> l = l'"
    using acq alive [of i l'] by (auto simp: acquire_def upgrade_def dest: map_of_SomeD)
  show "map_of (lr_entries r') i = Some l" "j \<noteq> i \<Longrightarrow> map_of (lr_entries r') j = map_of (lr_entries r) j"
    using acq by (auto simp: acquire_def upgrade_def Let_def update_conv' split: option.splits if_splits)
  show "registry_inv r' (ph(k := p))"
  proof (cases "upgrade r i")
    case (Some m)
    then have m: "l = m" "r' = r\<lparr>lr_strong := (lr_strong r)(m := lr_strong r m + 1)\<rparr>" "0 < lr_strong r m"
      using acq by (auto simp: acquire_def upgrade_def split: option.splits if_splits)
    have "m < lr_next r" using new m(3) by (metis not_less less_irrefl)
    then show ?thesis using m count notin new alive
      by (auto simp: registry_inv_def leases_take [of ph k p l, OF k p])
  next
    case None
    then have m: "l = lr_next r" "r' = r\<lparr>lr_entries := AList.update i l (lr_entries r),
        lr_strong := (lr_strong r)(l := 1), lr_next := l + 1\<rparr>"
      using acq by (auto simp: acquire_def Let_def)
    have "leases ph (lr_next r) = {}" using count [of "lr_next r"] new [of "lr_next r"] by simp
    moreover have "lr_entries r' = AList.update i l (lr_entries r)" using m(2) by simp
    then have "x = l \<or> 0 < lr_strong r x" if "(a, x) \<in> set (lr_entries r')" for a x
      using that alive alist_update_mem by metis
    ultimately show ?thesis using m count notin new
      by (auto simp: registry_inv_def leases_take [of ph k p l, OF k p])
  qed
qed


lemma map_of_filter_kept:
  "map_of al i = Some l \<Longrightarrow> P l \<Longrightarrow> map_of (filter (\<lambda>(i, l). P l) al) i = Some l"
  by (induction al) (auto split: if_splits)

lemma registry_drop:
  assumes inv: "registry_inv r ph" and k: "lease_of (ph k) = Some l" and p: "lease_of p = None"
  shows "registry_inv (drop_lease l r) (ph(k := p))"
    "map_of (lr_entries r) i = Some l' \<Longrightarrow> lease_of ((ph(k := p)) j) = Some l' \<Longrightarrow>
      map_of (lr_entries (drop_lease l r)) i = Some l'"
proof -
  let ?strong = "(lr_strong r)(l := lr_strong r l - 1)"
  have count: "lr_strong r x = card (leases ph x)" "finite (leases ph x)" for x
    using inv by (simp_all add: registry_inv_def)
  have mem: "k \<in> leases ph l" using k by (simp add: leases_def)
  have now: "?strong x = card (leases (ph(k := p)) x)" "finite (leases (ph(k := p)) x)" for x
    using count mem by (simp_all add: leases_give [of ph k l p, OF k p])
  have "lr_next r \<le> x \<Longrightarrow> ?strong x = 0" for x
    using inv by (auto simp: registry_inv_def)
  then show "registry_inv (drop_lease l r) (ph(k := p))"
    using now by (auto simp: registry_inv_def drop_lease_def Let_def simp del: fun_upd_apply)
  assume "map_of (lr_entries r) i = Some l'" "lease_of ((ph(k := p)) j) = Some l'"
  moreover from this(2) have "j \<in> leases (ph(k := p)) l'" by (simp only: leases_def mem_Collect_eq)
  then have "leases (ph(k := p)) l' \<noteq> {}" by blast
  then have "0 < ?strong l'" using now [of l'] by (simp add: card_gt_0_iff del: fun_upd_apply)
  ultimately show "map_of (lr_entries (drop_lease l r)) i = Some l'"
    by (simp add: drop_lease_def Let_def map_of_filter_kept del: fun_upd_apply)
qed

lemma registry_publish:
  assumes "registry_inv r ph" "lease_of (ph k) = Some l"
  shows "registry_inv (publish_entry i l r) ph"
proof -
  have "leases ph l \<noteq> {}" "finite (leases ph l)" "lr_strong r l = card (leases ph l)"
    using assms by (auto simp: leases_def registry_inv_def)
  then have "0 < lr_strong r l" by (simp add: card_gt_0_iff)
  moreover have "x = l \<or> 0 < lr_strong r x" if "(a, x) \<in> set (AList.update i l (lr_entries r))" for a x
    using alist_update_mem [OF that] assms(1) unfolding registry_inv_def by auto
  ultimately show ?thesis using assms(1) unfolding registry_inv_def publish_entry_def by auto
qed

section \<open>Mutexes, claims and content\<close>

lemma mutexD:
  assumes "mutex_inv locked ph"
  shows "owned (ph k) = Some l \<Longrightarrow> l \<in> set locked"
    "owned (ph k) = Some l \<Longrightarrow> owned (ph k') = Some l \<Longrightarrow> k = k'"
    "l \<in> set locked \<Longrightarrow> \<exists>k. owned (ph k) = Some l"
  using assms unfolding mutex_inv_def by blast+

lemma mutexI:
  assumes "\<And>k l. owned (ph k) = Some l \<Longrightarrow> l \<in> set locked"
    "\<And>k k' l. owned (ph k) = Some l \<Longrightarrow> owned (ph k') = Some l \<Longrightarrow> k = k'"
    "\<And>l. l \<in> set locked \<Longrightarrow> \<exists>k. owned (ph k) = Some l"
  shows "mutex_inv locked ph"
  using assms unfolding mutex_inv_def by blast

lemma mutex_same:
  assumes "mutex_inv locked ph" "owned p = owned (ph k)"
  shows "mutex_inv locked (ph(k := p))"
proof -
  have "owned ((ph(k := p)) j) = owned (ph j)" for j using assms(2) by simp
  then show ?thesis using assms(1) unfolding mutex_inv_def by simp
qed

lemma mutex_lock:
  assumes inv: "mutex_inv locked ph" and l: "l \<notin> set locked" "owned (ph k) = None" "owned p = Some l"
  shows "mutex_inv (l # locked) (ph(k := p))"
proof (rule mutexI)
  fix j m assume "owned ((ph(k := p)) j) = Some m"
  then show "m \<in> set (l # locked)" using l(3) mutexD(1) [OF inv, of j m] by (auto split: if_splits)
next
  fix j j' m assume "owned ((ph(k := p)) j) = Some m" "owned ((ph(k := p)) j') = Some m"
  then show "j = j'" using l mutexD(2) [OF inv, of j m j'] mutexD(1) [OF inv, of j m] mutexD(1) [OF inv, of j' m]
    by (simp split: if_splits)
next
  fix m assume "m \<in> set (l # locked)"
  then consider "m = l" | j where "owned (ph j) = Some m" using mutexD(3) [OF inv, of m] by auto
  then show "\<exists>j. owned ((ph(k := p)) j) = Some m"
  proof cases
    case 1
    then show ?thesis using l(3) by (intro exI [of _ k]) simp
  next
    case 2
    then show ?thesis using l(2) by (intro exI [of _ j]) auto
  qed
qed

lemma mutex_unlock:
  assumes inv: "mutex_inv locked ph" and l: "owned (ph k) = Some l" "owned p = None"
  shows "mutex_inv (removeAll l locked) (ph(k := p))"
proof (rule mutexI)
  fix j m assume "owned ((ph(k := p)) j) = Some m"
  then have j: "j \<noteq> k" "owned (ph j) = Some m" using l(2) by (auto split: if_splits)
  moreover have "m \<noteq> l" using mutexD(2) [OF inv l(1)] j by metis
  ultimately show "m \<in> set (removeAll l locked)" using mutexD(1) [OF inv j(2)] by simp
next
  fix j j' m assume "owned ((ph(k := p)) j) = Some m" "owned ((ph(k := p)) j') = Some m"
  then show "j = j'" using l(2) mutexD(2) [OF inv, of j m j'] by (auto split: if_splits)
next
  fix m assume "m \<in> set (removeAll l locked)"
  then obtain j where "owned (ph j) = Some m" "m \<noteq> l" using mutexD(3) [OF inv, of m] by auto
  then show "\<exists>j. owned ((ph(k := p)) j) = Some m" using l(1) by (intro exI [of _ j]) auto
qed

lemma claim_lease: "claim_of p = Some (i, l) \<Longrightarrow> lease_of p = Some l"
  by (cases p) simp_all

lemma editing_owned: "editing p \<Longrightarrow> \<exists>i l. claim_of p = Some (i, l) \<and> owned p = Some l"
  by (cases p) simp_all

lemma claims_without: "claims_inv cur entries ph \<Longrightarrow> claim_of p = None \<Longrightarrow> claims_inv cur entries (ph(k := p))"
  by (simp add: claims_inv_def)

lemma claims_same:
  "claims_inv cur entries ph \<Longrightarrow> claim_of p = claim_of (ph k) \<Longrightarrow>
   (\<And>i l. editing p \<Longrightarrow> claim_of p = Some (i, l) \<Longrightarrow> i = cur) \<Longrightarrow> claims_inv cur entries (ph(k := p))"
  unfolding claims_inv_def by (auto simp: fun_upd_def)

lemma content_same: "content_inv content ph \<Longrightarrow> (\<And>i l t. p = Holding i l t \<Longrightarrow> t = content) \<Longrightarrow> content_inv content (ph(k := p))"
  by (simp add: content_inv_def)

text \<open>Two editors that edit are one.\<close>

lemma editing_unique:
  assumes "edit_inv st" "editing (es_phase st k)" "editing (es_phase st k')"
  shows "k = k'"
proof -
  obtain i l where k: "claim_of (es_phase st k) = Some (i, l)" "owned (es_phase st k) = Some l"
    using editing_owned [OF assms(2)] by blast
  obtain i' l' where k': "claim_of (es_phase st k') = Some (i', l')" "owned (es_phase st k') = Some l'"
    using editing_owned [OF assms(3)] by blast
  have claims: "claims_inv (es_id st) (lr_entries (es_registry st)) (es_phase st)"
    and mutex: "mutex_inv (es_locked st) (es_phase st)" using assms(1) by (simp_all add: edit_inv_def)
  have "i = es_id st" "i' = es_id st" using claims assms(2,3) k(1) k'(1) unfolding claims_inv_def by blast+
  then have "Some l = map_of (lr_entries (es_registry st)) (es_id st)"
    "Some l' = map_of (lr_entries (es_registry st)) (es_id st)"
    using claims k(1) k'(1) unfolding claims_inv_def by metis+
  then show ?thesis using mutex k(2) k'(2) unfolding mutex_inv_def by (metis option.inject)
qed

section \<open>Every step keeps the invariant\<close>

lemma edit_inv_simps:
  "edit_inv (set_phase k p st) \<longleftrightarrow> registry_inv (es_registry st) ((es_phase st)(k := p))
     \<and> mutex_inv (es_locked st) ((es_phase st)(k := p))
     \<and> claims_inv (es_id st) (lr_entries (es_registry st)) ((es_phase st)(k := p))
     \<and> content_inv (es_text st) ((es_phase st)(k := p))"
  by (simp add: edit_inv_def set_phase_def)

lemma edit_inv_leave:
  assumes "edit_inv st" "owned (es_phase st k) = Some l" "lease_of (es_phase st k) = Some l"
  shows "edit_inv (leave k l again st)"
  using assms unfolding leave_def edit_inv_simps
  by (auto simp: edit_inv_def unlock_def intro!: registry_same mutex_unlock claims_without content_same)

lemma take_step_inv:
  assumes "edit_inv st" "take_step jobs k st = Some st'"
  shows "edit_inv st'"
proof -
  have inv: "registry_inv (es_registry st) (es_phase st)" "mutex_inv (es_locked st) (es_phase st)"
    "claims_inv (es_id st) (lr_entries (es_registry st)) (es_phase st)" "content_inv (es_text st) (es_phase st)"
    using assms(1) by (simp_all add: edit_inv_def)
  show ?thesis
  proof (cases "es_phase st k")
    case Looking
    then have "st' = set_phase k (Identified (es_id st)) st" using assms(2) by (simp add: take_step_def)
    then show ?thesis using Looking inv unfolding edit_inv_simps
      by (auto simp: edit_inv_simps intro!: registry_same mutex_same claims_without content_same)
  next
    case (Identified i)
    obtain l r where acq: "acquire i (es_registry st) = (l, r)" by fastforce
    then have st': "st' = set_phase k (Leased i l) (st\<lparr>es_registry := r\<rparr>)"
      using assms(2) Identified by (simp add: take_step_def)
    have k: "lease_of (es_phase st k) = None" "lease_of (Leased i l) = Some l" using Identified by simp_all
    note new = registry_acquire [OF inv(1) k(1) acq k(2)]
    have "claims_inv (es_id st) (lr_entries r) ((es_phase st)(k := Leased i l))"
      using inv(3) new(2-4) unfolding claims_inv_def by (simp add: fun_upd_def) metis
    then show ?thesis using Identified inv new(1) unfolding st' edit_inv_simps
      by (auto intro!: mutex_same content_same)
  next
    case (Leased i l)
    then have "l \<notin> set (es_locked st)" and st': "st' = set_phase k (Guarded i l) (st\<lparr>es_locked := l # es_locked st\<rparr>)"
      using assms(2) by (auto simp: take_step_def split: if_splits)
    then show ?thesis using Leased inv unfolding st' edit_inv_simps
      by (auto intro!: registry_same mutex_lock claims_same content_same)
  next
    case (Guarded i l)
    then show ?thesis using assms inv
      by (auto simp: take_step_def edit_inv_simps split: if_splits
          intro!: edit_inv_leave registry_same mutex_same claims_same content_same)
  next
    case (Editing i l)
    then have st': "st' = set_phase k (Holding i l (es_text st)) st" using assms(2) by (simp add: take_step_def)
    have "i = es_id st" using inv(3) Editing unfolding claims_inv_def by (metis claim_of.simps(3) editing.simps(1))
    then show ?thesis using Editing inv unfolding st' edit_inv_simps
      by (auto intro!: registry_same mutex_same claims_same content_same)
  next
    case (Holding i l t)
    then show ?thesis using assms by (auto simp: take_step_def split: sum.splits intro!: edit_inv_leave)
  next
    case (Placed l)
    then show ?thesis using assms by (auto simp: take_step_def intro!: edit_inv_leave)
  next
    case (Leaving l again)
    define p where "p = (if again then Looking else Finished)"
    have st': "st' = set_phase k p (st\<lparr>es_registry := drop_lease l (es_registry st)\<rparr>)"
      using assms(2) Leaving by (simp add: take_step_def p_def)
    have k: "lease_of (es_phase st k) = Some l" "lease_of p = None" "claim_of p = None" "owned p = None"
      "\<And>i l t. p \<noteq> Holding i l t" using Leaving by (simp_all add: p_def)
    note new = registry_drop [OF inv(1) k(1,2)]
    have "claims_inv (es_id st) (lr_entries (drop_lease l (es_registry st))) ((es_phase st)(k := p))"
      using claims_without [OF inv(3) k(3), of k] new(2) claim_lease unfolding claims_inv_def by metis
    then show ?thesis using Leaving inv new(1) k unfolding st' edit_inv_simps
      by (auto intro!: mutex_same content_same)
  next
    case Finished
    then show ?thesis using assms(2) by (simp add: take_step_def)
  qed
qed

lemma fail_step_inv: "edit_inv st \<Longrightarrow> fail_step k st = Some st' \<Longrightarrow> edit_inv st'"
proof (cases "es_phase st k")
  case Looking
  assume "edit_inv st" "fail_step k st = Some st'"
  then have "edit_inv st" "st' = set_phase k Finished st" using Looking by (simp_all add: fail_step_def)
  then show ?thesis using Looking unfolding \<open>st' = _\<close> edit_inv_simps
    by (auto simp: edit_inv_def intro!: registry_same mutex_same claims_without content_same)
qed (auto simp: fail_step_def intro!: edit_inv_leave)

lemma replace_step_inv:
  assumes "edit_inv st" "unclaimed i' st" "replace_step jobs k i' seen st = Some st'"
  shows "edit_inv st'"
proof -
  obtain i l t t' where k: "es_phase st k = Holding i l t" "job_content (jobs k) t = Inr t'"
    using assms(3) by (auto simp: replace_step_def split: phase.splits sum.splits)
  let ?st = "st\<lparr>es_id := i', es_text := t'\<rparr>"
  have others: "\<not> editing (es_phase st j)" if "j \<noteq> k" for j
    using editing_unique [OF assms(1), of k j] k(1) that by auto
  have inv: "registry_inv (es_registry st) (es_phase st)" "mutex_inv (es_locked st) (es_phase st)"
    using assms(1) by (simp_all add: edit_inv_def)
  have claims: "claims_inv i' entries ((es_phase st)(k := p))" if "claim_of p = None" for entries p
    using that assms(2) others editing_owned unfolding claims_inv_def unclaimed_def
    by (simp add: fun_upd_def)
  have content: "content_inv t' ((es_phase st)(k := p))" if "claim_of p = None" for p
    using that others unfolding content_inv_def
    by (auto simp: fun_upd_def split: if_splits) (metis editing.simps(2))
  show ?thesis
  proof (cases seen)
    case True
    then have st': "st' = set_phase k (Placed l) (?st\<lparr>es_registry := publish_entry i' l (es_registry st)\<rparr>)"
      using assms(3) k by (simp add: replace_step_def)
    show ?thesis using inv k(1) claims [of "Placed l"] content [of "Placed l"]
      unfolding st' edit_inv_simps by (auto intro!: registry_same registry_publish mutex_same)
  next
    case False
    then have st': "st' = leave k l False ?st" using assms(3) k by (simp add: replace_step_def)
    show ?thesis using inv k(1) claims [of "Leaving l False"] content [of "Leaving l False"]
      unfolding st' leave_def edit_inv_simps unlock_def by (auto intro!: registry_same mutex_unlock)
  qed
qed

lemma edit_step_inv:
  "edit_inv st \<Longrightarrow> fresh_event e st \<Longrightarrow> edit_step jobs e st = Some st' \<Longrightarrow> edit_inv st'"
  by (cases e) (auto intro: take_step_inv fail_step_inv replace_step_inv)

lemma edit_start_inv: "edit_inv (edit_start n i t)"
  by (simp add: edit_inv_def edit_start_def registry_inv_def mutex_inv_def claims_inv_def content_inv_def
      leases_def registry_new_def)


section \<open>Edits take effect one after another\<close>

text \<open>The editors whose replacements a run contains, in order, and the same edits made one after
  another.\<close>

fun replacers :: "edit_event list \<Rightarrow> nat list" where
  "replacers [] = []"
| "replacers (Replace k i # es) = k # replacers es"
| "replacers (ReplaceUnseen k i # es) = k # replacers es"
| "replacers (e # es) = replacers es"

fun replay :: "(nat \<Rightarrow> job) \<Rightarrow> nat list \<Rightarrow> string \<Rightarrow> string option" where
  "replay jobs [] t = Some t"
| "replay jobs (k # ks) t = (case job_content (jobs k) t of Inl e \<Rightarrow> None | Inr t' \<Rightarrow> replay jobs ks t')"

lemma take_step_text: "take_step jobs k st = Some st' \<Longrightarrow> es_text st' = es_text st"
  by (auto simp: take_step_def set_phase_def leave_def unlock_def
      split: phase.splits prod.splits if_splits sum.splits)

lemma fail_step_text: "fail_step k st = Some st' \<Longrightarrow> es_text st' = es_text st"
  by (auto simp: fail_step_def set_phase_def leave_def unlock_def split: phase.splits)

lemma replace_step_text:
  assumes "edit_inv st" "replace_step jobs k i seen st = Some st'"
  shows "job_content (jobs k) (es_text st) = Inr (es_text st')"
proof -
  obtain j l t t' where k: "es_phase st k = Holding j l t" "job_content (jobs k) t = Inr t'"
    using assms(2) by (auto simp: replace_step_def split: phase.splits sum.splits)
  have "t = es_text st" using assms(1) k(1) unfolding edit_inv_def content_inv_def by blast
  moreover have "es_text st' = t'"
    using assms(2) k by (auto simp: replace_step_def Let_def set_phase_def leave_def unlock_def split: if_splits)
  ultimately show ?thesis using k(2) by simp
qed

lemma edit_run_inv:
  "edit_run jobs evs st = Some st' \<Longrightarrow> fresh_run jobs evs st \<Longrightarrow> edit_inv st \<Longrightarrow>
   edit_inv st' \<and> replay jobs (replacers evs) (es_text st) = Some (es_text st')"
proof (induction evs arbitrary: st)
  case (Cons e evs)
  obtain st1 where st1: "edit_step jobs e st = Some st1" "edit_run jobs evs st1 = Some st'"
    using Cons.prems(1) by (auto simp: bind_eq_Some_conv)
  have fresh: "fresh_event e st" "fresh_run jobs evs st1" using Cons.prems(2) st1(1) by simp_all
  have inv: "edit_inv st1" using edit_step_inv [OF Cons.prems(3) fresh(1) st1(1)] .
  note rest = Cons.IH [OF st1(2) fresh(2) inv]
  show ?case
  proof (cases e)
    case (Replace k i)
    then show ?thesis using rest st1(1) replace_step_text [OF Cons.prems(3)] by fastforce
  next
    case (ReplaceUnseen k i)
    then show ?thesis using rest st1(1) replace_step_text [OF Cons.prems(3)] by fastforce
  qed (use rest st1(1) take_step_text fail_step_text in fastforce)+
qed simp

text \<open>An editor can go on without a call of the operating system failing.  One that cannot waits for a
  lock that an editor holds that can.\<close>

definition can_go :: "(nat \<Rightarrow> job) \<Rightarrow> edit_state \<Rightarrow> nat \<Rightarrow> bool" where
  "can_go jobs st k \<longleftrightarrow> take_step jobs k st \<noteq> None \<or> (\<forall>i. replace_step jobs k i True st \<noteq> None)"

definition waits_for :: "edit_state \<Rightarrow> nat \<Rightarrow> nat \<Rightarrow> bool" where
  "waits_for st k j \<longleftrightarrow> (\<exists>i l. es_phase st k = Leased i l \<and> owned (es_phase st j) = Some l)"

lemma can_go_running:
  assumes "\<And>i l. es_phase st k = Leased i l \<Longrightarrow> l \<notin> set (es_locked st)" "es_phase st k \<noteq> Finished"
  shows "can_go jobs st k"
proof (cases "es_phase st k")
  case (Holding i l t)
  then show ?thesis
    by (cases "job_content (jobs k) t") (simp_all add: can_go_def take_step_def replace_step_def Let_def)
qed (use assms in \<open>auto simp: can_go_def take_step_def split: prod.splits\<close>)

lemma owned_running: "owned p = Some l \<Longrightarrow> p \<noteq> Finished \<and> (\<forall>i m. p \<noteq> Leased i m)"
  by (cases p) simp_all

lemma never_stuck:
  assumes "edit_inv st" "es_phase st k \<noteq> Finished"
  shows "can_go jobs st k \<or> (\<exists>j. waits_for st k j \<and> can_go jobs st j)"
proof (cases "\<exists>i l. es_phase st k = Leased i l \<and> l \<in> set (es_locked st)")
  case True
  then obtain i l where l: "es_phase st k = Leased i l" "l \<in> set (es_locked st)" by blast
  then obtain j where j: "owned (es_phase st j) = Some l"
    using assms(1) mutexD(3) unfolding edit_inv_def by blast
  then have "can_go jobs st j" using owned_running [OF j] by (intro can_go_running) auto
  then show ?thesis using l(1) j unfolding waits_for_def by blast
qed (use assms(2) in \<open>blast intro: can_go_running\<close>)

text \<open>
  C31. Concurrent edits of a file are serial.  In every run of any number of editors in which no
  replacement gives the file an identity that an editor holds a lease for, the content of the file
  is what the edits that replaced it give one after another, none lost; at most one editor is past
  the confirmation of the identity; once no editor holds a lease the registry is empty; and every
  editor that has not finished can go on, or waits for a lock whose holder can go on.
\<close>

theorem edits_serialize:
  assumes "edit_run jobs evs (edit_start n i t) = Some st"
    and "fresh_run jobs evs (edit_start n i t)"
  shows "replay jobs (replacers evs) t = Some (es_text st)
    \<and> (\<forall>k k'. editing (es_phase st k) \<and> editing (es_phase st k') \<longrightarrow> k = k')
    \<and> ((\<forall>k. lease_of (es_phase st k) = None) \<longrightarrow> lr_entries (es_registry st) = [])
    \<and> (\<forall>k. es_phase st k \<noteq> Finished \<longrightarrow> can_go jobs st k \<or> (\<exists>j. waits_for st k j \<and> can_go jobs st j))"
proof -
  have inv: "edit_inv st" and serial: "replay jobs (replacers evs) t = Some (es_text st)"
    using edit_run_inv [OF assms edit_start_inv] by (simp_all add: edit_start_def)
  have "lr_entries (es_registry st) = []" if none: "\<forall>k. lease_of (es_phase st k) = None"
  proof (rule ccontr)
    assume "lr_entries (es_registry st) \<noteq> []"
    then obtain a l where "(a, l) \<in> set (lr_entries (es_registry st))"
      by (metis list.set_intros(1) neq_Nil_conv prod.exhaust)
    then have "0 < lr_strong (es_registry st) l" "lr_strong (es_registry st) l = card (leases (es_phase st) l)"
      using inv by (auto simp: edit_inv_def registry_inv_def)
    then show False using none by (simp add: leases_def)
  qed
  then show ?thesis using serial editing_unique [OF inv] never_stuck [OF inv] by blast
qed

text \<open>Editors of one file: the second waits for the lock, finds the file replaced, looks again and
  edits what the first made of it.\<close>

definition sample_jobs :: "nat \<Rightarrow> job" where
  "sample_jobs k = (if k = 0 then (JNull, ''a'', ''b'') else if k = 1 then (JNull, ''b'', ''c'')
     else if k = 2 then (JNull, ''c'', ''d'') else (JNull, ''c'', ''e''))"

definition edit_alone :: "nat \<Rightarrow> edit_event list" where
  "edit_alone k = replicate 5 (Step k)"

definition sample_edits :: "edit_event list" where
  "sample_edits = [Step 1, Step 1] @ edit_alone 0 @ [Replace 0 (1, 8), Step 0, Step 1, Step 1, Step 1, Step 0]
     @ edit_alone 1 @ [Replace 1 (1, 9), Step 1, Step 1]"

lemmas edit_eval = edit_start_def registry_new_def take_step_def replace_step_def set_phase_def leave_def
  unlock_def acquire_def upgrade_def drop_lease_def publish_entry_def Let_def unclaimed_def

lemma sample_contents:
  "job_content (sample_jobs 0) ''a'' = Inr ''b''" "job_content (sample_jobs (Suc 0)) ''b'' = Inr ''c''"
  "job_content (sample_jobs 2) ''c'' = Inr ''d''" "job_content (sample_jobs 3) ''c'' = Inr ''e''"
  by code_simp+

lemma sample_edits_run:
  "map_option es_text (edit_run sample_jobs sample_edits (edit_start 4 (1, 7) ''a'')) = Some ''c''
   \<and> fresh_run sample_jobs sample_edits (edit_start 4 (1, 7) ''a'')"
  by (simp add: sample_edits_def edit_alone_def eval_nat_numeral edit_eval sample_contents)

theorem edits_serialize_witness:
  "\<exists>st. edit_run sample_jobs sample_edits (edit_start 4 (1, 7) ''a'') = Some st
     \<and> es_text st = ''c'' \<and> replay sample_jobs (replacers sample_edits) ''a'' = Some ''c''"
proof -
  obtain st where st: "edit_run sample_jobs sample_edits (edit_start 4 (1, 7) ''a'') = Some st" "es_text st = ''c''"
    using sample_edits_run by auto
  from edits_serialize [OF st(1)] st sample_edits_run show ?thesis by auto
qed

text \<open>When identities are reused the edits can overlap: editor 2 sees identity 7 and stalls; editor 0
  replaces the file and leaves, so the registry is empty; while editor 1 holds the new lock, editor 2
  takes a new lease for 7; editor 1 then gives the file the freed identity 7.  Editor 3 waits on the
  lock of editor 1, editor 2 on its own; both confirm the identity, and the edit of editor 2 is
  lost although it reports success.\<close>

definition reuse_edits :: "edit_event list" where
  "reuse_edits = [Step 2] @ edit_alone 0 @ [Replace 0 (1, 8), Step 0, Step 0] @ edit_alone 1
     @ [Step 2, Replace 1 (1, 7), Step 3, Step 3, Step 1, Step 3, Step 3, Step 2, Step 2, Step 3, Step 2,
        Replace 2 (1, 9), Replace 3 (1, 10)]"

lemma identity_reuse_loses_edit:
  "map_option es_text (edit_run sample_jobs reuse_edits (edit_start 4 (1, 7) ''a'')) = Some ''e''
   \<and> replacers reuse_edits = [0, 1, 2, 3] \<and> replay sample_jobs [0, 1, 2, 3] ''a'' = None"
  by code_simp

end
