(* ===== verification/Spec2Isabelle.thy ===== *)
theory Spec2Isabelle
  imports Ledger_Props Mailbox_Props Accumulator_Props Sse_Props Anthropic_Props Session_Props Trace_Props
    Tool_Props Attempts_Props Agent_Props Recursion_Props Secrets_Props
    Files_Props Edit_Locks_Props
begin

text \<open>
  A verification development for kyora, a runtime for recursive language-model agents.  Paths
  below are relative to src/crates.

  The program.  A run is a tree of agents.  Each agent holds a conversation with a model: it sends
  a request through a provider (providers/), answers the tool calls of the response (core/tool.rs,
  tools/, mcp/), and takes the messages other agents left in its mailbox at turn boundaries.
  Tools can spawn further agents, message them, wait for them and cancel them.  A ledger shared by
  the tree bounds the tokens, nodes, children and depth every agent may use; a trace records what
  happened, durably, in a session file, from which the tree can be reconstructed.

  Conventions (Prelude).  Fixed-width integers that can overflow are words, with the saturating
  operations written out; a `usize` that counts list elements is a natural number; a `String` is
  its UTF-8 byte list.  A panic or a loop that does not return is `None` in the outermost option of
  a definition, so a theorem that gives `Some` shows that neither happens.  A mutex makes the
  operations on what it guards atomic, so concurrent callers are a list of operations in any order,
  and the theorems quantify over all such lists.  What the code awaits (network, clock, other
  tasks) is an environment: a record or a list of what each turn observes, over which the theorems
  quantify without restriction unless a named hypothesis says otherwise.

  The parts, with the theories that model them and what is shown.

  (1) Protocol and Defaults_Limits: the types of protocol/src/lib.rs and the limits and model
  references of core/src/defaults.rs.

  (2) Ledger, Ledger_Tree, Ledger_Inv, Ledger_Props: core/src/ledger.rs.  The state record `ledger`
  has one `scope` per node and the open attempts; `admit`, `reserve`, `settle`, `close_admission`,
  `shutdown`, `snapshot` and `path` are the functions of those names.  Every run of operations from
  a validated configuration keeps the invariant `ledger_inv`, no operation panics under it, a
  granted reservation stays within the limit of every ancestor, a settlement accounts exactly, and
  a closed scope never reopens.  Guarded_Store states what a holder of a reservation relies on as a
  locale; the ledger interprets it.

  (3) Mailbox, Mailbox_Inv, Mailbox_Props: core/src/messages.rs.  The record `mailbox` is the locked
  state; `mb_push`, `mb_stage`, `take_batch`, `mb_idle`, `mb_close` and the rest are its methods.
  Capacity, exact counters, conservation and order per sender (the locale of Fifo_Store),
  uniqueness of terminal notices, the exact batch of a delivery, and that an agent ends only with
  nothing queued, in flight or awaited.

  (4) Provider, Accumulator, Accumulator_Props: provider errors, the retry policy, the stream
  accumulator and the scripted provider of providers/src.  A response cut into chunks of any size
  and streamed is collected back; only well-formed streams are accepted.

  (5) Sse, Sse_Props, Anthropic, Anthropic_Props: providers/src/anthropic.  Fed with a response in
  chunks of any kind, the parser gives the events of the event-stream format, which Sse_Props reads
  off the whole response without the parser; the stream of a response ends once, and the charge of
  a failure follows from whether the request could have been sent.

  (6) Trace, Trace_Tree, Trace_Props, Session, Session_Props: core/src/trace.rs and session.rs.  When
  the recursion tree can be reconstructed, what it holds, and that the schedule of the agents does
  not change it; that a session file holds exactly the acknowledged records and part of at most
  one more whatever writes fail, and what it reads back as after any truncation.

  (7) Tool_Registry, Tool_Props: core/src/tool.rs, with the schema check, the input validation and
  the bounded results; the exact result of a truncation.

  (8) Attempts, Attempts_Props: `Runtime::attempts` of core/src/runtime.rs.  `attempt_loop` runs one
  provider request with retries against an environment in which other agents use the ledger; every
  reservation is settled exactly once on every path.

  (9) Agent, Agent_Props: `Runtime::agent`.  `agent_run` drives `agent_round`; the loop ends, every
  request answers each tool call of its history in order, and a typed agent completes only with a
  value that keeps its contract.

  (10) Recursion, Recursion_Inv, Recursion_Steps, Recursion_Props: the directory of agents with spawn,
  send, receive, wait, cancel and the end of an agent (core/src/runtime.rs, recursion.rs).  Over
  every run, capabilities shrink down the tree, a cancellation covers a subtree for good, and mail
  travels only between kin.

  (11) Mcp_Config, Secrets, Utf8_Props, Secrets_Props: mcp/src/config.rs and secrets.rs.  Redaction
  equals a reference that replaces every maximal run of bytes covered by a credential, and hides a
  credential in every spelling that the grammar of JSON strings allows.

  (12) Os_Calls, Files, Files_Props: tools/src/files.rs and workspace.rs.  The file tools are programs
  over the calls of the operating system; every call is recorded in a history and answered from
  it, so the theorems hold whatever other programs do to the files meanwhile.  No call leaves the
  workspace, and an edit publishes exactly the replacement of what it read, or nothing.

  (13) Edit_Locks, Edit_Locks_Props: the lock registry of `EditFile` with the steps of any number of
  concurrent editors of one file.  Edits are serial, none is lost and every editor that is not done
  can go on or waits for one that can, provided that no replacement gives the
  file an inode number an editor holds a lease for; `identity_reuse_loses_edit` is a run without
  that proviso in which an edit is lost.

  Bounds and fuel.  `agent_loop` and `attempt_loop` recurse on the list of what their turns observe;
  the theorems show that a list of twice the turns, or of two more than the retries that the policy
  allows, is always enough.  The parent walks of the ledger and of the trace recurse on the number
  of scopes or nodes, and the theorems show that this ends them.  The loop of `edit` has no bound in
  the code, since another edit can replace the file each time; its rounds are an argument, and
  what is shown holds for every number of them.  The identifiers of attempts are 64 bits wide, so
  the invariant of the ledger is stated for runs of fewer than 2 to the 64 operations.

  Code outside the repository is an argument: serde_json's parser, printer and deserializers, the
  automaton of aho-corasick, the URL and header types of reqwest, the digest of blobs, the operating
  system and the clock.  Hypotheses on them state documented behaviour (a printed value parses
  back, a match has the length of its pattern), and the witnesses instantiate them with concrete
  functions.

  Not modelled: `Secrets::output` and the agent tools other than submit_result, which parse an input
  and print a result; the delivery at a turn boundary and the idle end as steps of the agent tree
  (they are modelled at the mailbox); the HTTP client of the Anthropic provider and of MCP, MCP processes and their
  protocol (clients of the rmcp, reqwest and tokio crates), the shell tool (processes, pipes and
  signals), the terminal interface over ratatui and crossterm, and the command line.  They are
  input and output around the parts above.
\<close>

end
